(* ===== verification/FDB_Prelude.thy ===== *)
theory FDB_Prelude
  imports Main "HOL-Library.Word"
begin

unbundle bit_operations_syntax

text \<open>
  Shared vocabulary of the development: the machine integers of the C++ sources, byte buffers
  with the copies \<^verbatim>\<open>memcpy\<close>, \<^verbatim>\<open>memmove\<close> and \<^verbatim>\<open>memset\<close> on them, the memory image of an integer
  on a little-endian host, and the three-way comparisons that every ordered container of the
  program takes as a parameter. The collection \<open>mem_simps\<close> holds the read-over-write laws of
  buffers; the component theories rely on it instead of unfolding the copies.
\<close>

section \<open>Integers and buffers\<close>

type_synonym byte = "8 word"
type_synonym u16 = "16 word"
type_synonym u32 = "32 word"
type_synonym u64 = "64 word"
type_synonym buf = "byte list"

named_theorems mem_simps \<open>read-over-write laws of byte buffers\<close>

text \<open>
  \<open>mem_write b off src\<close> is \<^verbatim>\<open>memcpy(b + off, src, n)\<close> for a source of \<open>n\<close> bytes that fits
  into the buffer, \<open>mem_read b off n\<close> is the run of \<open>n\<close> bytes that \<^verbatim>\<open>memcpy(dst, b + off, n)\<close>
  reads. A \<^verbatim>\<open>memmove\<close> inside one buffer is a read followed by a write.
\<close>

definition mem_write :: "buf \<Rightarrow> nat \<Rightarrow> buf \<Rightarrow> buf" where
  "mem_write b off src = take off b @ src @ drop (off + length src) b"

definition mem_read :: "buf \<Rightarrow> nat \<Rightarrow> nat \<Rightarrow> buf" where
  "mem_read b off n = take n (drop off b)"

definition mem_set :: "buf \<Rightarrow> nat \<Rightarrow> byte \<Rightarrow> nat \<Rightarrow> buf" where
  "mem_set b off c n = mem_write b off (replicate n c)"

text \<open>The memory image of an integer of \<open>n\<close> bytes on a little-endian host, and its inverse.\<close>

definition word_mem :: "nat \<Rightarrow> 'a::len word \<Rightarrow> buf" where
  "word_mem n w = map (\<lambda>i. ucast (drop_bit (8 * i) w)) [0..<n]"

fun mem_word :: "buf \<Rightarrow> 'a::len word" where
  "mem_word [] = 0"
| "mem_word (b # bs) = ucast b OR push_bit 8 (mem_word bs)"

text \<open>\<^verbatim>\<open>memcmp\<close> on two runs of bytes: the sign is that of the first difference.\<close>

fun memcmp :: "buf \<Rightarrow> buf \<Rightarrow> nat \<Rightarrow> int" where
  "memcmp xs ys 0 = 0"
| "memcmp (x # xs) (y # ys) (Suc n) =
     (if x < y then -1 else if y < x then 1 else memcmp xs ys n)"
| "memcmp xs ys n = 0"

section \<open>Buffers\<close>

lemma length_mem_write [mem_simps]:
  "off + length src \<le> length b \<Longrightarrow> length (mem_write b off src) = length b"
  by (simp add: mem_write_def)

lemma mem_read_write_same [mem_simps]:
  "off + length src \<le> length b \<Longrightarrow> n = length src \<Longrightarrow> mem_read (mem_write b off src) off n = src"
  by (simp add: mem_read_def mem_write_def)

lemma mem_read_write_before [mem_simps]:
  "off + length src \<le> length b \<Longrightarrow> i + n \<le> off \<Longrightarrow> mem_read (mem_write b off src) i n = mem_read b i n"
  by (auto simp: mem_read_def mem_write_def drop_take min_def)

lemma mem_read_write_after [mem_simps]:
  "off + length src \<le> length b \<Longrightarrow> off + length src \<le> i \<Longrightarrow>
     mem_read (mem_write b off src) i n = mem_read b i n"
  by (simp add: mem_read_def mem_write_def)

lemma mem_read_write_inside:
  assumes "i + n \<le> length b" "off + length src \<le> n"
  shows "mem_read (mem_write b (i + off) src) i n = mem_write (mem_read b i n) off src"
proof (rule nth_equalityI)
  have w: "length (mem_write b (i + off) src) = length b" using assms by (simp add: mem_write_def)
  have l: "length (mem_read b i n) = n" using assms(1) by (simp add: mem_read_def)
  show "length (mem_read (mem_write b (i + off) src) i n) = length (mem_write (mem_read b i n) off src)"
    using assms w l by (simp add: mem_read_def mem_write_def)
  fix k assume "k < length (mem_read (mem_write b (i + off) src) i n)"
  then have k: "k < n" "i + k < length b" using assms(1) w by (auto simp: mem_read_def)
  have "mem_read (mem_write b (i + off) src) i n ! k = mem_write b (i + off) src ! (i + k)"
    using k w assms(1) by (simp add: mem_read_def)
  also have "\<dots> = (if k < off then b ! (i + k) else if k < off + length src then src ! (k - off) else b ! (i + k))"
    using k assms by (auto simp: mem_write_def nth_append)
  also have "\<dots> = mem_write (mem_read b i n) off src ! k"
    using k assms l by (auto simp: mem_write_def nth_append) (auto simp: mem_read_def)
  finally show "mem_read (mem_write b (i + off) src) i n ! k = mem_write (mem_read b i n) off src ! k" .
qed

lemma length_mem_read [mem_simps]: "i + n \<le> length b \<Longrightarrow> length (mem_read b i n) = n"
  by (simp add: mem_read_def)

lemma nth_mem_write_out [mem_simps]:
  "off + length src \<le> length b \<Longrightarrow> i < length b \<Longrightarrow> i < off \<or> off + length src \<le> i \<Longrightarrow>
     mem_write b off src ! i = b ! i"
  by (auto simp: mem_write_def nth_append)

lemma nth_mem_write_in [mem_simps]:
  "off + length src \<le> length b \<Longrightarrow> off \<le> i \<Longrightarrow> i < off + length src \<Longrightarrow>
     mem_write b off src ! i = src ! (i - off)"
  by (auto simp: mem_write_def nth_append)

section \<open>Memory images of integers\<close>

lemma length_word_mem [simp]: "length (word_mem n w) = n"
  by (simp add: word_mem_def)

lemma bit_mem_word:
  "bit (mem_word bs :: 'a::len word) n \<longleftrightarrow>
     n < LENGTH('a) \<and> n div 8 < length bs \<and> bit (bs ! (n div 8)) (n mod 8)"
proof (induction bs arbitrary: n)
  case (Cons b bs)
  have eq: "bit (mem_word (b # bs) :: 'a word) n \<longleftrightarrow>
      n < LENGTH('a) \<and> (bit b n \<or> 8 \<le> n \<and> bit (mem_word bs :: 'a word) (n - 8))"
    by (auto simp: bit_simps)
  show ?case
  proof (cases "n < 8")
    case True
    then show ?thesis unfolding eq by simp
  next
    case False
    then obtain m where n: "n = 8 + m" using le_Suc_ex not_less by blast
    have "\<not> bit b n" using False by (auto dest: bit_imp_le_length)
    moreover have "n div 8 = Suc (m div 8)" "n mod 8 = m mod 8" by (simp_all add: n)
    ultimately show ?thesis unfolding eq using n by (auto simp: Cons.IH)
  qed
qed simp

lemma mem_word_word_mem:
  fixes w :: "'a::len word"
  assumes "LENGTH('a) \<le> 8 * n"
  shows "mem_word (word_mem n w) = w"
proof (rule bit_word_eqI)
  fix k assume k: "k < LENGTH('a)"
  have "k div 8 < n" using k assms by (simp add: div_less_iff_less_mult mult.commute)
  with k show "bit (mem_word (word_mem n w) :: 'a word) k = bit w k"
    by (simp add: bit_mem_word word_mem_def bit_ucast_iff bit_drop_bit_eq)
qed

lemma nth_word_mem: "i < n \<Longrightarrow> word_mem n w ! i = ucast (drop_bit (8 * i) w)"
  by (simp add: word_mem_def)

end
