(* ===== verification/Linked_List.thy ===== *)
theory Linked_List
  imports FDB_Prelude
begin

text \<open>
  The intrusive doubly linked list of \<^verbatim>\<open>src/list.cc\<close> and \<^verbatim>\<open>src/list.h\<close>. The elements are embedded in
  the objects of the clients and linked through their addresses, so the model has an explicit
  store of the two links of every element; \<^verbatim>\<open>NULL\<close> is \<^const>\<open>None\<close>. The predicate \<open>dll\<close> relates
  the store and a list header to the sequence of addresses, every operation is shown to be the
  corresponding operation on the sequence, and no operation touches an element outside the
  sequence, so that several lists can share the store.
\<close>

section \<open>The store and the operations\<close>

type_synonym addr = nat

record lheap =
  prev :: "addr \<Rightarrow> addr option"
  "next" :: "addr \<Rightarrow> addr option"

record list_hdr =
  head :: "addr option"
  tail :: "addr option"

definition set_prev :: "lheap \<Rightarrow> addr \<Rightarrow> addr option \<Rightarrow> lheap" where
  "set_prev h a v = h\<lparr>prev := (prev h)(a := v)\<rparr>"

definition set_next :: "lheap \<Rightarrow> addr \<Rightarrow> addr option \<Rightarrow> lheap" where
  "set_next h a v = h\<lparr>next := (next h)(a := v)\<rparr>"

definition list_init :: list_hdr where
  "list_init = \<lparr>head = None, tail = None\<rparr>"

definition list_begin :: "list_hdr \<Rightarrow> addr option" where "list_begin l = head l"
definition list_end :: "list_hdr \<Rightarrow> addr option" where "list_end l = tail l"
definition list_next :: "lheap \<Rightarrow> addr \<Rightarrow> addr option" where "list_next h e = next h e"
definition list_prev :: "lheap \<Rightarrow> addr \<Rightarrow> addr option" where "list_prev h e = prev h e"

fun list_push_front :: "lheap \<times> list_hdr \<Rightarrow> addr \<Rightarrow> lheap \<times> list_hdr" where
  "list_push_front (h, l) e =
     (case head l of
        None \<Rightarrow> (set_next (set_prev h e None) e None, l\<lparr>head := Some e, tail := Some e\<rparr>)
      | Some f \<Rightarrow>
          (set_next (set_prev (set_prev h f (Some e)) e None) e (head l), l\<lparr>head := Some e\<rparr>))"

fun list_push_back :: "lheap \<times> list_hdr \<Rightarrow> addr \<Rightarrow> lheap \<times> list_hdr" where
  "list_push_back (h, l) e =
     (case tail l of
        None \<Rightarrow> (set_next (set_prev h e None) e None, l\<lparr>head := Some e, tail := Some e\<rparr>)
      | Some t \<Rightarrow>
          (set_next (set_prev (set_next h t (Some e)) e (tail l)) e None, l\<lparr>tail := Some e\<rparr>))"

fun list_insert_before :: "lheap \<times> list_hdr \<Rightarrow> addr \<Rightarrow> addr \<Rightarrow> lheap \<times> list_hdr" where
  "list_insert_before (h, l) before e =
     (let h1 = set_prev h e (prev h before);
          h2 = set_next h1 e (Some before);
          (h3, l') = (case prev h2 before of
                        Some p \<Rightarrow> (set_next h2 p (Some e), l)
                      | None \<Rightarrow> (h2, l\<lparr>head := Some e\<rparr>))
      in (set_prev h3 before (Some e), l'))"

fun list_insert_after :: "lheap \<times> list_hdr \<Rightarrow> addr \<Rightarrow> addr \<Rightarrow> lheap \<times> list_hdr" where
  "list_insert_after (h, l) after e =
     (let h1 = set_next h e (next h after);
          h2 = set_prev h1 e (Some after);
          (h3, l') = (case next h2 after of
                        Some n \<Rightarrow> (set_prev h2 n (Some e), l)
                      | None \<Rightarrow> (h2, l\<lparr>tail := Some e\<rparr>))
      in (set_next h3 after (Some e), l'))"

text \<open>The unlinking code that the two removals and the two pops repeat.\<close>

fun list_unlink :: "lheap \<times> list_hdr \<Rightarrow> addr \<Rightarrow> lheap \<times> list_hdr" where
  "list_unlink (h, l) e =
     (let h1 = (case next h e of Some n \<Rightarrow> set_prev h n (prev h e) | None \<Rightarrow> h);
          h2 = (case prev h1 e of Some p \<Rightarrow> set_next h1 p (next h1 e) | None \<Rightarrow> h1);
          l1 = (if head l = Some e then l\<lparr>head := next h2 e\<rparr> else l);
          l2 = (if tail l1 = Some e then l1\<lparr>tail := prev h2 e\<rparr> else l1)
      in (h2, l2))"

fun list_remove :: "lheap \<times> list_hdr \<Rightarrow> addr option \<Rightarrow> (lheap \<times> list_hdr) \<times> addr option" where
  "list_remove s None = (s, None)"
| "list_remove s (Some e) = (let s' = list_unlink s e in (s', next (fst s') e))"

fun list_remove_reverse ::
  "lheap \<times> list_hdr \<Rightarrow> addr option \<Rightarrow> (lheap \<times> list_hdr) \<times> addr option" where
  "list_remove_reverse s None = (s, None)"
| "list_remove_reverse s (Some e) = (let s' = list_unlink s e in (s', prev (fst s') e))"

fun list_pop_front :: "lheap \<times> list_hdr \<Rightarrow> (lheap \<times> list_hdr) \<times> addr option" where
  "list_pop_front (h, l) =
     (case head l of None \<Rightarrow> ((h, l), None) | Some e \<Rightarrow> (list_unlink (h, l) e, Some e))"

fun list_pop_back :: "lheap \<times> list_hdr \<Rightarrow> (lheap \<times> list_hdr) \<times> addr option" where
  "list_pop_back (h, l) =
     (case tail l of None \<Rightarrow> ((h, l), None) | Some e \<Rightarrow> (list_unlink (h, l) e, Some e))"

section \<open>Sequences of linked elements\<close>

definition first_of :: "addr list \<Rightarrow> addr option \<Rightarrow> addr option" where
  "first_of xs q = (case xs of [] \<Rightarrow> q | x # _ \<Rightarrow> Some x)"

definition last_of :: "addr option \<Rightarrow> addr list \<Rightarrow> addr option" where
  "last_of p xs = (if xs = [] then p else Some (last xs))"

fun links :: "lheap \<Rightarrow> addr option \<Rightarrow> addr list \<Rightarrow> addr option \<Rightarrow> bool" where
  "links h p [] q = True"
| "links h p (x # xs) q = (prev h x = p \<and> next h x = first_of xs q \<and> links h (Some x) xs q)"

fun dll :: "lheap \<times> list_hdr \<Rightarrow> addr list \<Rightarrow> bool" where
  "dll (h, l) xs =
     (distinct xs \<and> head l = first_of xs None \<and> tail l = last_of None xs \<and> links h None xs None)"

fun drain :: "('s \<Rightarrow> 's \<times> 'e option) \<Rightarrow> nat \<Rightarrow> 's \<Rightarrow> 'e list \<times> 's" where
  "drain pop 0 s = ([], s)"
| "drain pop (Suc n) s =
     (case pop s of (s', None) \<Rightarrow> ([], s')
      | (s', Some e) \<Rightarrow> (case drain pop n s' of (es, s'') \<Rightarrow> (e # es, s'')))"

definition same_outside :: "addr set \<Rightarrow> lheap \<Rightarrow> lheap \<Rightarrow> bool" where
  "same_outside A h h' \<longleftrightarrow> (\<forall>a. a \<notin> A \<longrightarrow> prev h' a = prev h a \<and> next h' a = next h a)"

lemma set_link_simps [simp]:
  "prev (set_prev h a v) = (prev h)(a := v)" "next (set_prev h a v) = next h"
  "next (set_next h a v) = (next h)(a := v)" "prev (set_next h a v) = prev h"
  by (simp_all add: set_prev_def set_next_def)

lemma first_of_simps [simp]:
  "first_of [] q = q" "first_of (x # xs) q = Some x"
  by (simp_all add: first_of_def)

lemma last_of_simps [simp]:
  "last_of p [] = p" "last_of p (xs @ [x]) = Some x" "last_of p (x # xs) = last_of (Some x) xs"
  by (simp_all add: last_of_def)

lemma first_of_append: "first_of (xs @ ys) q = first_of xs (first_of ys q)"
  by (cases xs) auto

lemma last_of_append: "last_of p (xs @ ys) = last_of (last_of p xs) ys"
  by (simp add: last_of_def)

lemma links_append:
  "links h p (xs @ ys) q \<longleftrightarrow> links h p xs (first_of ys q) \<and> links h (last_of p xs) ys q"
  by (induction xs arbitrary: p) (auto simp: first_of_append)

lemma links_cong:
  "(\<And>a. a \<in> set xs \<Longrightarrow> prev h' a = prev h a \<and> next h' a = next h a) \<Longrightarrow>
   links h' p xs q = links h p xs q"
  by (induction xs arbitrary: p) auto

lemma links_set_outside [simp]:
  "a \<notin> set xs \<Longrightarrow> links (set_prev h a v) p xs q = links h p xs q"
  "a \<notin> set xs \<Longrightarrow> links (set_next h a v) p xs q = links h p xs q"
  by (auto intro!: links_cong)

text \<open>Redirecting the first backward link, or the last forward link, of a sequence.\<close>

lemma links_set_prev_first:
  "distinct xs \<Longrightarrow> links h p xs q \<Longrightarrow> first_of xs None = Some f \<Longrightarrow> links (set_prev h f v) v xs q"
  by (cases xs) auto

lemma links_set_next_last:
  "distinct xs \<Longrightarrow> links h p xs q \<Longrightarrow> last_of None xs = Some t \<Longrightarrow> links (set_next h t v) p xs v"
proof (induction xs arbitrary: p rule: rev_induct)
  case (snoc x xs)
  then show ?case by (auto simp: links_append)
qed simp

section \<open>Every operation is an operation on the sequence\<close>

lemma dll_list_init: "dll (h, list_init) []"
  by (simp add: list_init_def)

lemma push_front_seq:
  assumes "dll (h, l) xs" "e \<notin> set xs"
  shows "dll (list_push_front (h, l) e) (e # xs) \<and>
    same_outside (insert e (set xs)) h (fst (list_push_front (h, l) e))"
proof (cases xs)
  case (Cons f fs)
  then show ?thesis
    using assms links_set_prev_first [of xs h None None f "Some e"]
    by (auto simp: same_outside_def last_of_def)
qed (use assms in \<open>auto simp: same_outside_def\<close>)

lemma push_back_seq:
  assumes "dll (h, l) xs" "e \<notin> set xs"
  shows "dll (list_push_back (h, l) e) (xs @ [e]) \<and>
    same_outside (insert e (set xs)) h (fst (list_push_back (h, l) e))"
proof (cases xs rule: rev_cases)
  case (snoc ys t)
  then have "links (set_next h t (Some e)) None xs (Some e)"
    using assms by (intro links_set_next_last) auto
  then show ?thesis
    using assms snoc by (auto simp: same_outside_def links_append first_of_append last_of_append)
qed (use assms in \<open>auto simp: same_outside_def\<close>)

lemma insert_before_seq:
  assumes "dll (h, l) (xs @ b # ys)" "e \<notin> set (xs @ b # ys)"
  shows "dll (list_insert_before (h, l) b e) (xs @ e # b # ys) \<and>
    same_outside (insert e (set (xs @ b # ys))) h (fst (list_insert_before (h, l) b e))"
proof (cases xs rule: rev_cases)
  case Nil
  then show ?thesis using assms by (auto simp: same_outside_def last_of_def)
next
  case (snoc zs t)
  then have "links (set_next h t (Some e)) None xs (Some e)"
    using assms by (intro links_set_next_last [where q = "Some b"]) (auto simp: links_append)
  then show ?thesis
    using assms snoc by (auto simp: same_outside_def links_append first_of_append last_of_append)
qed

lemma insert_after_seq:
  assumes "dll (h, l) (xs @ b # ys)" "e \<notin> set (xs @ b # ys)"
  shows "dll (list_insert_after (h, l) b e) (xs @ b # e # ys) \<and>
    same_outside (insert e (set (xs @ b # ys))) h (fst (list_insert_after (h, l) b e))"
proof (cases ys)
  case Nil
  then show ?thesis using assms by (auto simp: same_outside_def links_append first_of_append last_of_append)
next
  case (Cons f fs)
  then have "links (set_prev h f (Some e)) (Some e) ys None"
    using assms by (intro links_set_prev_first [where p = "Some b"]) (auto simp: links_append)
  then show ?thesis
    using assms Cons by (auto simp: same_outside_def links_append first_of_append last_of_append)
qed

lemma links_unlink:
  assumes "distinct (xs @ e # ys)" "links h None (xs @ e # ys) None"
    "h' = (case next h e of Some n \<Rightarrow> set_prev h n (prev h e) | None \<Rightarrow> h)"
    "h'' = (case prev h' e of Some p \<Rightarrow> set_next h' p (next h' e) | None \<Rightarrow> h')"
  shows "links h'' None (xs @ ys) None" "next h'' e = first_of ys None" "prev h'' e = last_of None xs"
proof -
  have l: "links h None xs (Some e)" "prev h e = last_of None xs" "next h e = first_of ys None"
    "links h (Some e) ys None"
    using assms(2) by (auto simp: links_append)
  have y: "links h' (last_of None xs) ys None" "links h' None xs (Some e)"
    "prev h' e = last_of None xs" "next h' e = first_of ys None"
    using l assms(1) unfolding assms(3) by (cases ys; auto)+
  have "links h'' (last_of None xs) ys None \<and> links h'' None xs (first_of ys None)"
  proof (cases xs rule: rev_cases)
    case (snoc zs t)
    then show ?thesis
      using y assms(1) links_set_next_last [of xs h' None "Some e" t "first_of ys None"]
      unfolding assms(4) by auto
  qed (use y assms(4) in auto)
  then show "links h'' None (xs @ ys) None" by (simp add: links_append)
  show "next h'' e = first_of ys None" "prev h'' e = last_of None xs"
    using y assms(1) unfolding assms(4) by (cases xs rule: rev_cases; auto)+
qed

lemma unlink_seq:
  assumes "dll (h, l) (xs @ e # ys)"
  shows "dll (list_unlink (h, l) e) (xs @ ys)"
    "next (fst (list_unlink (h, l) e)) e = first_of ys None"
    "prev (fst (list_unlink (h, l) e)) e = last_of None xs"
    "same_outside (set (xs @ e # ys)) h (fst (list_unlink (h, l) e))"
proof -
  note u = links_unlink [of xs e ys h, OF _ _ refl refl]
  have hd: "head l = first_of xs (Some e)" "tail l = last_of (Some e) ys"
    using assms by (auto simp: first_of_append last_of_append)
  have "e \<notin> set xs" "e \<notin> set ys" using assms by auto
  then have "head l = Some e \<longleftrightarrow> xs = []" "tail l = Some e \<longleftrightarrow> ys = []"
    using hd last_in_set [of ys] by (auto simp: first_of_def last_of_def split: list.splits)
  then show "dll (list_unlink (h, l) e) (xs @ ys)"
    using u assms hd
    by (auto simp: Let_def first_of_append last_of_append first_of_def last_of_def split: list.splits)
  show "next (fst (list_unlink (h, l) e)) e = first_of ys None"
    "prev (fst (list_unlink (h, l) e)) e = last_of None xs"
    using u(2,3) assms by (auto simp: Let_def)
  show "same_outside (set (xs @ e # ys)) h (fst (list_unlink (h, l) e))"
    using assms last_in_set [of xs] by (cases ys)
      (auto simp: Let_def same_outside_def links_append last_of_def split: option.splits)
qed

section \<open>The interface the clients use\<close>

text \<open>
  A store whose content is a sequence without repetitions, with insertion and extraction at both
  ends. The block buffer pool and the queues of the engine use the list only through these laws.
\<close>

locale deque =
  fixes seq :: "'s \<Rightarrow> 'e list \<Rightarrow> bool"
    and push_front push_back :: "'s \<Rightarrow> 'e \<Rightarrow> 's"
    and pop_front pop_back :: "'s \<Rightarrow> 's \<times> 'e option"
  assumes push_front: "seq s xs \<Longrightarrow> e \<notin> set xs \<Longrightarrow> seq (push_front s e) (e # xs)"
    and push_back: "seq s xs \<Longrightarrow> e \<notin> set xs \<Longrightarrow> seq (push_back s e) (xs @ [e])"
    and pop_front_Nil: "seq s [] \<Longrightarrow> pop_front s = (s, None)"
    and pop_front_Cons: "seq s (x # xs) \<Longrightarrow>
      seq (fst (pop_front s)) xs \<and> snd (pop_front s) = Some x"
    and pop_back_Nil: "seq s [] \<Longrightarrow> pop_back s = (s, None)"
    and pop_back_snoc: "seq s (xs @ [x]) \<Longrightarrow>
      seq (fst (pop_back s)) xs \<and> snd (pop_back s) = Some x"
begin

lemma foldl_push_back:
  "seq s xs \<Longrightarrow> distinct (xs @ es) \<Longrightarrow> seq (foldl push_back s es) (xs @ es)"
proof (induction es arbitrary: s xs)
  case (Cons e es)
  then show ?case using Cons.IH [of "push_back s e" "xs @ [e]"] push_back [of s xs e] by simp
qed simp

lemma drain_front:
  "seq s xs \<Longrightarrow> length xs \<le> n \<Longrightarrow> fst (drain pop_front n s) = xs \<and> seq (snd (drain pop_front n s)) []"
proof (induction n arbitrary: s xs)
  case (Suc n)
  show ?case
  proof (cases xs)
    case Nil
    then show ?thesis using Suc.prems pop_front_Nil [of s] by simp
  next
    case (Cons y ys)
    then show ?thesis
      using Suc.prems pop_front_Cons [of s y ys] Suc.IH [of "fst (pop_front s)" ys]
      by (auto split: prod.splits option.splits)
  qed
qed simp

lemma drain_back:
  "seq s xs \<Longrightarrow> length xs \<le> n \<Longrightarrow> fst (drain pop_back n s) = rev xs \<and> seq (snd (drain pop_back n s)) []"
proof (induction n arbitrary: s xs)
  case (Suc n)
  show ?case
  proof (cases xs rule: rev_cases)
    case Nil
    then show ?thesis using Suc.prems pop_back_Nil [of s] by simp
  next
    case (snoc ys y)
    then show ?thesis
      using Suc.prems pop_back_snoc [of s ys y] Suc.IH [of "fst (pop_back s)" ys]
      by (auto split: prod.splits option.splits)
  qed
qed simp

lemma fifo:
  assumes "seq s []" "distinct es" "length es \<le> n"
  shows "fst (drain pop_front n (foldl push_back s es)) = es"
    "fst (drain pop_back n (foldl push_back s es)) = rev es"
  using assms drain_front drain_back foldl_push_back [of s "[]" es] by auto

end

lemma pop_front_seq:
  "dll (h, l) [] \<Longrightarrow> list_pop_front (h, l) = ((h, l), None)"
  "dll (h, l) (x # xs) \<Longrightarrow> dll (fst (list_pop_front (h, l))) xs \<and> snd (list_pop_front (h, l)) = Some x"
  using unlink_seq(1) [of h l "[]" x xs] by (auto simp del: list_unlink.simps)

lemma pop_back_seq:
  "dll (h, l) [] \<Longrightarrow> list_pop_back (h, l) = ((h, l), None)"
  "dll (h, l) (xs @ [x]) \<Longrightarrow> dll (fst (list_pop_back (h, l))) xs \<and> snd (list_pop_back (h, l)) = Some x"
  using unlink_seq(1) [of h l xs x "[]"] by (auto simp del: list_unlink.simps)

interpretation linked: deque dll list_push_front list_push_back list_pop_front list_pop_back
proof
  fix s :: "lheap \<times> list_hdr" and xs x e
  obtain h l where s: "s = (h, l)" by (cases s)
  show "dll s xs \<Longrightarrow> e \<notin> set xs \<Longrightarrow> dll (list_push_front s e) (e # xs)"
    using push_front_seq [of h l xs e] s by blast
  show "dll s xs \<Longrightarrow> e \<notin> set xs \<Longrightarrow> dll (list_push_back s e) (xs @ [e])"
    using push_back_seq [of h l xs e] s by blast
  show "dll s [] \<Longrightarrow> list_pop_front s = (s, None)"
    "dll s (x # xs) \<Longrightarrow> dll (fst (list_pop_front s)) xs \<and> snd (list_pop_front s) = Some x"
    using pop_front_seq [of h l] s by blast+
  show "dll s [] \<Longrightarrow> list_pop_back s = (s, None)"
    "dll s (xs @ [x]) \<Longrightarrow> dll (fst (list_pop_back s)) xs \<and> snd (list_pop_back s) = Some x"
    using pop_back_seq [of h l] s by blast+
qed

section \<open>Properties of the linked list\<close>

text \<open>
  C17. The four insertions put a fresh element at the front, at the back, just before or just
  after a given element of the sequence, with both link directions, head and tail consistent,
  and they leave the links of every element outside the list alone.
\<close>

theorem list_insertions:
  assumes "dll (h, l) (xs @ b # ys)" "e \<notin> set (xs @ b # ys)"
  shows "dll (list_push_front (h, l) e) (e # xs @ b # ys) \<and>
    dll (list_push_back (h, l) e) (xs @ b # ys @ [e]) \<and>
    dll (list_insert_before (h, l) b e) (xs @ e # b # ys) \<and>
    dll (list_insert_after (h, l) b e) (xs @ b # e # ys) \<and>
    (\<forall>h' \<in> {fst (list_push_front (h, l) e), fst (list_push_back (h, l) e),
             fst (list_insert_before (h, l) b e), fst (list_insert_after (h, l) b e)}.
       same_outside (insert e (set (xs @ b # ys))) h h')"
  using push_front_seq [OF assms] push_back_seq [OF assms] insert_before_seq [OF assms]
    insert_after_seq [OF assms] by (simp del: dll.simps)

theorem list_insertions_witness:
  "dll (list_insert_before (\<lparr>prev = \<lambda>_. None, next = \<lambda>_. None\<rparr>, \<lparr>head = Some 1, tail = Some 1\<rparr>) 1 2) [2, 1]"
  using list_insertions [of "\<lparr>prev = \<lambda>_. None, next = \<lambda>_. None\<rparr>" "\<lparr>head = Some 1, tail = Some 1\<rparr>" "[]" 1 "[]" 2]
  by (simp del: list_insert_before.simps)

text \<open>
  C18. Removing an element takes it out of the sequence and touches no element outside the list;
  the forward removal returns the successor and the reverse removal the predecessor, so that a
  loop that removes while it walks visits every element once.
\<close>

theorem list_removals:
  assumes "dll (h, l) (xs @ e # ys)"
  shows "dll (fst (list_remove (h, l) (Some e))) (xs @ ys) \<and>
    snd (list_remove (h, l) (Some e)) = first_of ys None \<and>
    fst (list_remove_reverse (h, l) (Some e)) = fst (list_remove (h, l) (Some e)) \<and>
    snd (list_remove_reverse (h, l) (Some e)) = last_of None xs \<and>
    same_outside (set (xs @ e # ys)) h (fst (fst (list_remove (h, l) (Some e))))"
  using unlink_seq [OF assms] by (simp add: Let_def del: list_unlink.simps dll.simps)

theorem list_removals_witness:
  "snd (list_remove (\<lparr>prev = [2 \<mapsto> 1], next = [1 \<mapsto> 2]\<rparr>, \<lparr>head = Some 1, tail = Some 2\<rparr>) (Some 1)) = Some 2"
  using list_removals [of "\<lparr>prev = [2 \<mapsto> 1], next = [1 \<mapsto> 2]\<rparr>" "\<lparr>head = Some 1, tail = Some 2\<rparr>" "[]" 1 "[2]"]
  by (simp del: list_remove.simps add: last_of_def)

text \<open>
  C19. Elements pushed at the back come out of the front in the order in which they were pushed
  and out of the back in the reverse order, until the list is empty.
\<close>

theorem list_fifo_lifo:
  assumes "dll s []" "distinct es"
  shows "fst (drain list_pop_front (length es) (foldl list_push_back s es)) = es \<and>
    fst (drain list_pop_back (length es) (foldl list_push_back s es)) = rev es"
  using linked.fifo [OF assms order.refl] by simp

theorem list_fifo_lifo_witness:
  "fst (drain list_pop_front 3 (foldl list_push_back
     (\<lparr>prev = \<lambda>_. None, next = \<lambda>_. None\<rparr>, list_init) [4, 7, 5])) = [4, 7, 5]"
  using list_fifo_lifo [OF dll_list_init, of "[4, 7, 5]"] by (simp add: numeral_3_eq_3)

end
