(* ===== verification/AVL_Tree.thy ===== *)
theory AVL_Tree
  imports FDB_Prelude
begin

text \<open>
  The self-balancing tree of \<^verbatim>\<open>src/avltree.cc\<close>, the ordered container behind the write-ahead log,
  the hash buckets, the iterators and the superblock's bitmap index. Nodes carry a balance
  factor and a parent pointer. A pointer to a node is modelled as a location: the subtree below
  the node and the path of frames above it, nearest parent first, so that following the parent
  pointer pops a frame and rewriting a child pointer plugs a subtree back into its frame. The
  theory holds the operations and shows that insertion and removal keep every balance factor
  equal to the height difference of the node's subtrees, within one, and that they change the
  sequence of elements only by the element inserted or removed.
\<close>

section \<open>Nodes and locations\<close>

text \<open>
  \<^verbatim>\<open>struct avl_node\<close>: the children, the balance factor and the element the node is embedded in.
  The frame \<open>LF x b r\<close> is a parent reached from its left child, \<open>RF l x b\<close> one reached from its
  right child.
\<close>

datatype 'a avl = Null | Nd (lc: "'a avl") (el: 'a) (nbf: int) (rc: "'a avl")

datatype 'a frame = LF 'a int "'a avl" | RF "'a avl" 'a int

type_synonym 'a apath = "'a frame list"

record ('a, 'x) avl_tree =
  root :: "'a avl"
  aux :: 'x

text \<open>
  The operations below take the root of a tree and a comparison that is closed over the tree's
  \<^verbatim>\<open>aux\<close> pointer, which only the comparison reads.
\<close>

definition avl_init :: "'x \<Rightarrow> ('a, 'x) avl_tree" where
  "avl_init a = \<lparr>root = Null, aux = a\<rparr>"

definition avl_set_aux :: "('a, 'x) avl_tree \<Rightarrow> 'x \<Rightarrow> ('a, 'x) avl_tree" where
  "avl_set_aux t a = t\<lparr>aux := a\<rparr>"

fun plug1 :: "'a avl \<Rightarrow> 'a frame \<Rightarrow> 'a avl" where
  "plug1 t (LF x b r) = Nd t x b r"
| "plug1 t (RF l x b) = Nd l x b t"

fun plug :: "'a avl \<Rightarrow> 'a apath \<Rightarrow> 'a avl" where
  "plug t [] = t"
| "plug t (f # ps) = plug (plug1 t f) ps"

fun is_LF :: "'a frame \<Rightarrow> bool" where
  "is_LF (LF _ _ _) = True"
| "is_LF (RF _ _ _) = False"

section \<open>Rotations\<close>

text \<open>
  A rotation returns the new subtree, the balance factor computed for its root, which the caller
  stores, and the change of height. The catch-all equations are for arguments without the child
  that the rotation lifts; the code never calls a rotation on them.
\<close>

fun avl_set_bf :: "'a avl \<Rightarrow> int \<Rightarrow> 'a avl" where
  "avl_set_bf Null b = Null"
| "avl_set_bf (Nd l x _ r) b = Nd l x b r"

definition present :: "'a avl \<Rightarrow> int" where
  "present t = (if t = Null then 0 else 1)"

fun rotate_LL :: "'a avl \<Rightarrow> int \<Rightarrow> int \<Rightarrow> 'a avl \<times> int \<times> int" where
  "rotate_LL (Nd (Nd cl c cb cr) p pb pr) parent_bf child_bf =
     (let c_left0 = present cl; c_right0 = present cr;
          (c_left, c_right, p_right, height_delta) =
            (if child_bf < 0 then
               (let c_left = c_right0 - child_bf; p_right = c_left + 1 + parent_bf
                in (c_left, c_right0, p_right,
                    max c_left (max c_right0 p_right + 1) - (c_left + 1)))
             else
               (let c_right = c_left0 + child_bf; p_right = c_right + 1 + parent_bf
                in (c_left0, c_right, p_right,
                    max c_left0 (max c_right p_right + 1) - (c_right + 1))))
      in (Nd cl c cb (Nd cr p (p_right - c_right) pr),
          (max c_right p_right + 1) - c_left, height_delta))"
| "rotate_LL t parent_bf child_bf = (t, child_bf, 0)"

fun rotate_RR :: "'a avl \<Rightarrow> int \<Rightarrow> int \<Rightarrow> 'a avl \<times> int \<times> int" where
  "rotate_RR (Nd pl p pb (Nd cl c cb cr)) parent_bf child_bf =
     (let c_left0 = present cl; c_right0 = present cr;
          (c_left, c_right, p_left, height_delta) =
            (if child_bf < 0 then
               (let c_left = c_right0 - child_bf; p_left = c_left + 1 - parent_bf
                in (c_left, c_right0, p_left,
                    max c_right0 (max c_left p_left + 1) - (c_left + 1)))
             else
               (let c_right = c_left0 + child_bf; p_left = c_right + 1 - parent_bf
                in (c_left0, c_right, p_left,
                    max c_right (max c_left0 p_left + 1) - (c_right + 1))))
      in (Nd (Nd pl p (c_left - p_left) cl) c cb cr,
          c_right - (max c_left p_left + 1), height_delta))"
| "rotate_RR t parent_bf child_bf = (t, child_bf, 0)"

definition get_balance :: "'a avl \<Rightarrow> int" where
  "get_balance t = (case t of Null \<Rightarrow> 0 | Nd _ _ b _ \<Rightarrow> b)"

fun rotate_LR :: "'a avl \<Rightarrow> int \<Rightarrow> 'a avl" where
  "rotate_LR (Nd child p pb pr) parent_bf =
     (let (child', child_bf, height_delta) =
            (if rc child \<noteq> Null then rotate_RR child (nbf child) (nbf (rc child))
             else (child, nbf child, 0));
          (ret, child_bf', _) = rotate_LL (Nd child' p pb pr) (parent_bf - height_delta) child_bf
      in avl_set_bf ret child_bf')"
| "rotate_LR Null parent_bf = Null"

fun rotate_RL :: "'a avl \<Rightarrow> int \<Rightarrow> 'a avl" where
  "rotate_RL (Nd pl p pb child) parent_bf =
     (let (child', child_bf, height_delta) =
            (if lc child \<noteq> Null then rotate_LL child (nbf child) (nbf (lc child))
             else (child, nbf child, 0));
          (ret, child_bf', _) = rotate_RR (Nd pl p pb child') (parent_bf + height_delta) child_bf
      in avl_set_bf ret child_bf')"
| "rotate_RL Null parent_bf = Null"

fun balance_tree :: "'a avl \<Rightarrow> int \<Rightarrow> 'a avl" where
  "balance_tree Null bf = Null"
| "balance_tree (Nd l x b r) bf =
     (let height_diff = b + bf in
      if height_diff < -1 \<and> l \<noteq> Null then
        (if get_balance l \<le> 0 then
           (let (node, child_bf, _) = rotate_LL (Nd l x b r) height_diff (nbf l)
            in avl_set_bf node child_bf)
         else rotate_LR (Nd l x b r) height_diff)
      else if height_diff > 1 \<and> r \<noteq> Null then
        (if get_balance r \<ge> 0 then
           (let (node, child_bf, _) = rotate_RR (Nd l x b r) height_diff (nbf r)
            in avl_set_bf node child_bf)
         else rotate_RL (Nd l x b r) height_diff)
      else Nd l x (b + bf) r)"

section \<open>Traversal and search\<close>

text \<open>
  The descents below a node, as the loops at the heads of \<^verbatim>\<open>avl_first\<close>, \<^verbatim>\<open>avl_last\<close>,
  \<^verbatim>\<open>avl_next\<close> and \<^verbatim>\<open>avl_prev\<close> run them, and the climbs to the nearest ancestor on the other side.
\<close>

fun avl_first_from :: "'a avl \<Rightarrow> 'a apath \<Rightarrow> ('a avl \<times> 'a apath) option" where
  "avl_first_from Null ps = None"
| "avl_first_from (Nd l x b r) ps =
     (if l = Null then Some (Nd l x b r, ps) else avl_first_from l (LF x b r # ps))"

fun avl_last_from :: "'a avl \<Rightarrow> 'a apath \<Rightarrow> ('a avl \<times> 'a apath) option" where
  "avl_last_from Null ps = None"
| "avl_last_from (Nd l x b r) ps =
     (if r = Null then Some (Nd l x b r, ps) else avl_last_from r (RF l x b # ps))"

fun climb_next :: "'a avl \<Rightarrow> 'a apath \<Rightarrow> ('a avl \<times> 'a apath) option" where
  "climb_next t [] = None"
| "climb_next t (f # ps) = (if is_LF f then Some (plug1 t f, ps) else climb_next (plug1 t f) ps)"

fun climb_prev :: "'a avl \<Rightarrow> 'a apath \<Rightarrow> ('a avl \<times> 'a apath) option" where
  "climb_prev t [] = None"
| "climb_prev t (f # ps) = (if \<not> is_LF f then Some (plug1 t f, ps) else climb_prev (plug1 t f) ps)"

fun avl_next :: "'a avl \<times> 'a apath \<Rightarrow> ('a avl \<times> 'a apath) option" where
  "avl_next (Null, ps) = None"
| "avl_next (Nd l x b r, ps) =
     (if r \<noteq> Null then avl_first_from r (RF l x b # ps) else climb_next (Nd l x b r) ps)"

fun avl_prev :: "'a avl \<times> 'a apath \<Rightarrow> ('a avl \<times> 'a apath) option" where
  "avl_prev (Null, ps) = None"
| "avl_prev (Nd l x b r, ps) =
     (if l \<noteq> Null then avl_last_from l (LF x b r # ps) else climb_prev (Nd l x b r) ps)"

definition avl_first :: "'a avl \<Rightarrow> ('a avl \<times> 'a apath) option" where
  "avl_first t = avl_first_from t []"

definition avl_last :: "'a avl \<Rightarrow> ('a avl \<times> 'a apath) option" where
  "avl_last t = avl_last_from t []"

fun avl_descend :: "('a \<Rightarrow> 'b \<Rightarrow> int) \<Rightarrow> 'a avl \<Rightarrow> 'b \<Rightarrow> 'a apath \<Rightarrow> 'a avl \<times> 'a apath" where
  "avl_descend f Null k ps = (Null, ps)"
| "avl_descend f (Nd l x b r) k ps =
     (let c = f x k in
      if c > 0 then avl_descend f l k (LF x b r # ps)
      else if c < 0 then avl_descend f r k (RF l x b # ps)
      else (Nd l x b r, ps))"

definition avl_search :: "('a \<Rightarrow> 'b \<Rightarrow> int) \<Rightarrow> 'a avl \<Rightarrow> 'b \<Rightarrow> ('a avl \<times> 'a apath) option" where
  "avl_search f t k = (case avl_descend f t k [] of (Null, _) \<Rightarrow> None | (p, ps) \<Rightarrow> Some (p, ps))"

definition avl_search_greater :: "('a \<Rightarrow> 'b \<Rightarrow> int) \<Rightarrow> 'a avl \<Rightarrow> 'b \<Rightarrow> ('a avl \<times> 'a apath) option" where
  "avl_search_greater f t k =
     (case avl_descend f t k [] of
        (Null, []) \<Rightarrow> None
      | (Null, fr # ps) \<Rightarrow>
          (let pp = plug1 Null fr in
           if f (el pp) k > 0 then Some (pp, ps) else avl_next (pp, ps))
      | (p, ps) \<Rightarrow> Some (p, ps))"

definition avl_search_smaller :: "('a \<Rightarrow> 'b \<Rightarrow> int) \<Rightarrow> 'a avl \<Rightarrow> 'b \<Rightarrow> ('a avl \<times> 'a apath) option" where
  "avl_search_smaller f t k =
     (case avl_descend f t k [] of
        (Null, []) \<Rightarrow> None
      | (Null, fr # ps) \<Rightarrow>
          (let pp = plug1 Null fr in
           if f (el pp) k < 0 then Some (pp, ps) else avl_prev (pp, ps))
      | (p, ps) \<Rightarrow> Some (p, ps))"

section \<open>Insertion and removal\<close>

text \<open>
  The bottom-up loop of \<^verbatim>\<open>avl_insert\<close>: balance the node with the pending change of its balance
  factor, and climb while the subtree has become higher. The second component is the node that
  the C++ function returns.
\<close>

fun insert_fixup :: "'a avl \<Rightarrow> int \<Rightarrow> 'a apath \<Rightarrow> 'a avl \<times> 'a" where
  "insert_fixup node bf [] = (balance_tree node bf, el node)"
| "insert_fixup node bf (f # ps) =
     (let bf_old = nbf node;
          node' = balance_tree node bf;
          side = (if is_LF f then -1 else 1);
          bf' = (if lc node' = Null \<and> rc node' = Null then side
                 else if \<bar>bf_old\<bar> < \<bar>nbf node'\<bar> then side else 0)
      in if bf' = 0 then (plug node' (f # ps), el node')
         else insert_fixup (plug1 node' f) bf' ps)"

definition avl_insert :: "('a \<Rightarrow> 'a \<Rightarrow> int) \<Rightarrow> 'a avl \<Rightarrow> 'a \<Rightarrow> 'a avl \<times> 'a" where
  "avl_insert f t x =
     (case avl_descend f t x [] of
        (Null, ps) \<Rightarrow> insert_fixup (Nd Null x 0 Null) 0 ps
      | (cur, _) \<Rightarrow> (t, el cur))"

text \<open>
  The bottom-up loop of \<^verbatim>\<open>avl_remove\<close>, which climbs while the subtree has become lower, and the
  removal itself: the node is replaced by the leftmost node of its right subtree if it has one,
  otherwise by its left child.
\<close>

fun remove_fixup :: "'a avl \<Rightarrow> int \<Rightarrow> 'a apath \<Rightarrow> 'a avl" where
  "remove_fixup cur bf [] = balance_tree cur bf"
| "remove_fixup cur bf (f # ps) =
     (let bf_old = nbf cur;
          cur' = balance_tree cur bf;
          side = (if is_LF f then 1 else -1);
          bf' = (if lc cur' = Null \<and> rc cur' = Null then side
                 else if \<bar>bf_old\<bar> > \<bar>nbf cur'\<bar> then side else 0)
      in if bf' = 0 then plug cur' (f # ps)
         else remove_fixup (plug1 cur' f) bf' ps)"

fun avl_remove :: "'a avl \<times> 'a apath \<Rightarrow> 'a avl" where
  "avl_remove (Null, ps) = plug Null ps"
| "avl_remove (Nd l x b r, ps) =
     (case avl_first_from r [] of
        Some (Nd nl nx nb nr, []) \<Rightarrow> remove_fixup (Nd l nx b nr) (-1) ps
      | Some (Nd nl nx nb nr, q # qs) \<Rightarrow> remove_fixup (plug1 nr q) 1 (qs @ RF l nx b # ps)
      | _ \<Rightarrow>
          (case ps of
             [] \<Rightarrow> l
           | p # ps' \<Rightarrow> remove_fixup (plug1 l p) (if is_LF p then 1 else -1) ps'))"

section \<open>Heights, sequences and the invariant\<close>

text \<open>
  The sequence of elements in key order, the height, and the invariant: each stored balance
  factor is the difference of the heights of the subtrees, and is within one.
\<close>

fun inorder :: "'a avl \<Rightarrow> 'a list" where
  "inorder Null = []"
| "inorder (Nd l x b r) = inorder l @ x # inorder r"

fun ht :: "'a avl \<Rightarrow> int" where
  "ht Null = 0"
| "ht (Nd l x b r) = 1 + max (ht l) (ht r)"

fun avl_ok :: "'a avl \<Rightarrow> bool" where
  "avl_ok Null = True"
| "avl_ok (Nd l x b r) = (b = ht r - ht l \<and> \<bar>b\<bar> \<le> 1 \<and> avl_ok l \<and> avl_ok r)"

fun path_ok :: "int \<Rightarrow> 'a apath \<Rightarrow> bool" where
  "path_ok h [] = True"
| "path_ok h (LF x b r # ps) =
     (b = ht r - h \<and> \<bar>b\<bar> \<le> 1 \<and> avl_ok r \<and> path_ok (1 + max h (ht r)) ps)"
| "path_ok h (RF l x b # ps) =
     (b = h - ht l \<and> \<bar>b\<bar> \<le> 1 \<and> avl_ok l \<and> path_ok (1 + max (ht l) h) ps)"

fun lefts :: "'a apath \<Rightarrow> 'a list" where
  "lefts [] = []"
| "lefts (LF x b r # ps) = lefts ps"
| "lefts (RF l x b # ps) = lefts ps @ inorder l @ [x]"

fun rights :: "'a apath \<Rightarrow> 'a list" where
  "rights [] = []"
| "rights (LF x b r # ps) = x # inorder r @ rights ps"
| "rights (RF l x b # ps) = rights ps"

text \<open>
  A subtree in which one child has grown by one (\<open>ins_pending\<close>) or shrunk by one
  (\<open>rem_pending\<close>) and whose root's balance factor does not show it yet; \<open>h\<close> is the height
  before the change.
\<close>

definition ins_pending :: "'a avl \<Rightarrow> int \<Rightarrow> int \<Rightarrow> bool" where
  "ins_pending t bf h \<longleftrightarrow> (case t of Null \<Rightarrow> False | Nd l x b r \<Rightarrow>
     avl_ok l \<and> avl_ok r \<and> \<bar>b\<bar> \<le> 1 \<and> b + bf = ht r - ht l \<and>
     (bf = 0 \<and> l = Null \<and> r = Null \<and> h = 0 \<or>
      bf = -1 \<and> h = 1 + max (ht l - 1) (ht r) \<and> l \<noteq> Null \<and> (nbf l = 0 \<longrightarrow> lc l = Null \<and> rc l = Null) \<or>
      bf = 1 \<and> h = 1 + max (ht l) (ht r - 1) \<and> r \<noteq> Null \<and> (nbf r = 0 \<longrightarrow> lc r = Null \<and> rc r = Null)))"

definition rem_pending :: "'a avl \<Rightarrow> int \<Rightarrow> int \<Rightarrow> bool" where
  "rem_pending t bf h \<longleftrightarrow> (case t of Null \<Rightarrow> False | Nd l x b r \<Rightarrow>
     avl_ok l \<and> avl_ok r \<and> \<bar>b\<bar> \<le> 1 \<and> b + bf = ht r - ht l \<and>
     (bf = 1 \<and> h = 1 + max (ht l + 1) (ht r) \<or> bf = -1 \<and> h = 1 + max (ht l) (ht r + 1)))"

section \<open>Heights and rebalancing of one node\<close>

lemma ht_nonneg: "0 \<le> ht t"
  by (induction t) auto

lemma ht_0_iff: "ht t = 0 \<longleftrightarrow> t = Null"
proof (cases t)
  case (Nd l x b r)
  then show ?thesis using ht_nonneg [of l] ht_nonneg [of r] by auto
qed simp

lemma ht_Nd_pos: "t \<noteq> Null \<Longrightarrow> 1 \<le> ht t"
  using ht_nonneg [of t] ht_0_iff [of t] by linarith

lemma inorder_set_bf [simp]: "inorder (avl_set_bf t b) = inorder t"
  by (cases t) auto

lemma inorder_rotate_LL: "rotate_LL t a b = (t', c, d) \<Longrightarrow> inorder t' = inorder t"
  by (induction t a b rule: rotate_LL.induct) (auto simp: Let_def split: prod.splits)

lemma inorder_rotate_RR: "rotate_RR t a b = (t', c, d) \<Longrightarrow> inorder t' = inorder t"
  by (induction t a b rule: rotate_RR.induct) (auto simp: Let_def split: prod.splits)

lemma inorder_rotate_LR: "inorder (rotate_LR t a) = inorder t"
  by (cases t) (auto simp: Let_def split: prod.splits dest!: inorder_rotate_LL inorder_rotate_RR)

lemma inorder_rotate_RL: "inorder (rotate_RL t a) = inorder t"
  by (cases t) (auto simp: Let_def split: prod.splits dest!: inorder_rotate_LL inorder_rotate_RR)

lemma inorder_balance_tree [simp]: "inorder (balance_tree t bf) = inorder t"
  by (cases t) (auto simp: Let_def inorder_rotate_LR inorder_rotate_RL
    split: prod.splits dest!: inorder_rotate_LL inorder_rotate_RR)

lemma inorder_Nil [simp]: "inorder t = [] \<longleftrightarrow> t = Null"
  by (cases t) auto

lemma balance_tree_Null [simp]: "balance_tree t bf = Null \<longleftrightarrow> t = Null"
  using inorder_balance_tree [of t bf] inorder_Nil by metis

declare balance_tree.simps [simp del]

lemma balance_tree_mid:
  assumes "\<bar>b + bf\<bar> \<le> 1"
  shows "balance_tree (Nd l x b r) bf = Nd l x (b + bf) r"
  using assms by (auto simp: Let_def balance_tree.simps)

lemma balance_tree_left:
  assumes "b + bf = -2" "b + bf = ht r - ht l" "avl_ok l" "avl_ok r"
  shows "avl_ok (balance_tree (Nd l x b r) bf) \<and>
     ht (balance_tree (Nd l x b r) bf) = (if nbf l = 0 then ht l + 1 else ht l) \<and>
     nbf (balance_tree (Nd l x b r) bf) = (if nbf l = 0 then 1 else 0) \<and>
     lc (balance_tree (Nd l x b r) bf) \<noteq> Null"
proof -
  obtain ll lx lb lr where l: "l = Nd ll lx lb lr"
    using assms ht_nonneg [of r] by (cases l) auto
  show ?thesis
  proof (cases "lb \<le> 0")
    case True
    then show ?thesis using assms l ht_nonneg [of r] ht_nonneg [of lr] ht_nonneg [of ll]
      by (auto simp: Let_def balance_tree.simps get_balance_def present_def split: if_splits)
  next
    case False
    then obtain ml mx mb mr where "lr = Nd ml mx mb mr"
      using assms l ht_nonneg [of ll] by (cases lr) (auto)
    then show ?thesis using assms l False ht_nonneg [of mr] ht_nonneg [of ml] ht_nonneg [of ll]
      by (auto simp: Let_def balance_tree.simps get_balance_def present_def split: if_splits)
  qed
qed

lemma balance_tree_right:
  assumes "b + bf = 2" "b + bf = ht r - ht l" "avl_ok l" "avl_ok r"
  shows "avl_ok (balance_tree (Nd l x b r) bf) \<and>
     ht (balance_tree (Nd l x b r) bf) = (if nbf r = 0 then ht r + 1 else ht r) \<and>
     nbf (balance_tree (Nd l x b r) bf) = (if nbf r = 0 then -1 else 0) \<and>
     rc (balance_tree (Nd l x b r) bf) \<noteq> Null"
proof -
  obtain rl rx rb rr where r: "r = Nd rl rx rb rr"
    using assms ht_nonneg [of l] by (cases r) auto
  show ?thesis
  proof (cases "rb \<ge> 0")
    case True
    then show ?thesis using assms r ht_nonneg [of l] ht_nonneg [of rl] ht_nonneg [of rr]
      by (auto simp: Let_def balance_tree.simps get_balance_def present_def split: if_splits)
  next
    case False
    then obtain ml mx mb mr where "rl = Nd ml mx mb mr"
      using assms r ht_nonneg [of rr] by (cases rl) (auto)
    then show ?thesis using assms r False ht_nonneg [of mr] ht_nonneg [of ml] ht_nonneg [of rr]
      by (auto simp: Let_def balance_tree.simps get_balance_def present_def split: if_splits)
  qed
qed

lemma avl_ok_plug: "avl_ok (plug t ps) \<longleftrightarrow> avl_ok t \<and> path_ok (ht t) ps"
proof (induction ps arbitrary: t)
  case (Cons f ps)
  then show ?case by (cases f) auto
qed simp

section \<open>Bottom-up rebalancing\<close>

lemma ins_pending_balance:
  assumes p: "ins_pending t bf h"
  defines "u \<equiv> balance_tree t bf"
  shows "avl_ok u \<and> u \<noteq> Null \<and>
     ((lc u = Null \<and> rc u = Null \<or> \<bar>nbf t\<bar> < \<bar>nbf u\<bar>) \<and> ht u = h + 1 \<and> (nbf u = 0 \<longrightarrow> lc u = Null \<and> rc u = Null) \<or>
      \<not> (lc u = Null \<and> rc u = Null \<or> \<bar>nbf t\<bar> < \<bar>nbf u\<bar>) \<and> ht u = h)"
proof -
  obtain l x b r where t: "t = Nd l x b r"
    using p by (cases t) (auto simp: ins_pending_def)
  have "\<bar>b + bf\<bar> \<le> 2"
    using p t by (auto simp: ins_pending_def)
  then consider "\<bar>b + bf\<bar> \<le> 1" | "b + bf = -2" | "b + bf = 2" by linarith
  then show ?thesis
  proof cases
    case 1
    then show ?thesis
      using p t ht_nonneg [of l] ht_nonneg [of r] ht_Nd_pos [of l] ht_Nd_pos [of r]
      by (auto simp: ins_pending_def balance_tree_mid u_def)
  next
    case 2
    have "nbf l \<noteq> 0"
      using p t 2 ht_nonneg [of r] by (cases l) (auto simp: ins_pending_def)
    then show ?thesis
      using p t 2 balance_tree_left [of b bf r l x] unfolding u_def
      by (auto simp: ins_pending_def)
  next
    case 3
    have "nbf r \<noteq> 0"
      using p t 3 ht_nonneg [of l] by (cases r) (auto simp: ins_pending_def)
    then show ?thesis
      using p t 3 balance_tree_right [of b bf r l x] unfolding u_def
      by (auto simp: ins_pending_def)
  qed
qed


lemma ins_pending_plug1:
  assumes "path_ok h (f # ps)" "avl_ok u" "u \<noteq> Null" "ht u = h + 1"
    "nbf u = 0 \<longrightarrow> lc u = Null \<and> rc u = Null"
  shows "\<exists>h'. ins_pending (plug1 u f) (if is_LF f then -1 else 1) h' \<and> path_ok h' ps"
  using assms by (cases f) (auto simp: ins_pending_def)

lemma insert_fixup_ok:
  "ins_pending t bf h \<Longrightarrow> path_ok h ps \<Longrightarrow> avl_ok (fst (insert_fixup t bf ps))"
proof (induction ps arbitrary: t bf h)
  case Nil
  then show ?case using ins_pending_balance [of t bf h] by simp
next
  case (Cons f ps)
  note b = ins_pending_balance [OF Cons.prems(1)]
  show ?case
  proof (cases "lc (balance_tree t bf) = Null \<and> rc (balance_tree t bf) = Null \<or>
      \<bar>nbf t\<bar> < \<bar>nbf (balance_tree t bf)\<bar>")
    case True
    with b obtain h' where
      "ins_pending (plug1 (balance_tree t bf) f) (if is_LF f then -1 else 1) h'" "path_ok h' ps"
      using ins_pending_plug1 [OF Cons.prems(2), of "balance_tree t bf"] by blast
    from Cons.IH [OF this] True show ?thesis by (auto simp: Let_def)
  next
    case False
    with b Cons.prems(2) have "avl_ok (plug (balance_tree t bf) (f # ps))"
      unfolding avl_ok_plug by auto
    with False show ?thesis by (auto simp: Let_def)
  qed
qed

lemma rem_pending_balance:
  assumes p: "rem_pending t bf h"
  defines "u \<equiv> balance_tree t bf"
  shows "avl_ok u \<and> u \<noteq> Null \<and>
     ((lc u = Null \<and> rc u = Null \<or> \<bar>nbf t\<bar> > \<bar>nbf u\<bar>) \<and> ht u = h - 1 \<or>
      \<not> (lc u = Null \<and> rc u = Null \<or> \<bar>nbf t\<bar> > \<bar>nbf u\<bar>) \<and> ht u = h)"
proof -
  obtain l x b r where t: "t = Nd l x b r"
    using p by (cases t) (auto simp: rem_pending_def)
  have "\<bar>b + bf\<bar> \<le> 2"
    using p t by (auto simp: rem_pending_def)
  then consider "\<bar>b + bf\<bar> \<le> 1" | "b + bf = -2" | "b + bf = 2" by linarith
  then show ?thesis
  proof cases
    case 1
    then show ?thesis
      using p t ht_nonneg [of l] ht_nonneg [of r] ht_Nd_pos [of l] ht_Nd_pos [of r]
      by (auto simp: rem_pending_def balance_tree_mid u_def)
  next
    case 2
    then show ?thesis
      using p t balance_tree_left [of b bf r l x] unfolding u_def
      by (auto simp: rem_pending_def)
  next
    case 3
    then show ?thesis
      using p t balance_tree_right [of b bf r l x] unfolding u_def
      by (auto simp: rem_pending_def)
  qed
qed

lemma rem_pending_plug1:
  assumes "path_ok h (f # ps)" "avl_ok u" "ht u = h - 1"
  shows "\<exists>h'. rem_pending (plug1 u f) (if is_LF f then 1 else -1) h' \<and> path_ok h' ps"
  using assms by (cases f) (auto simp: rem_pending_def)

lemma remove_fixup_ok:
  "rem_pending t bf h \<Longrightarrow> path_ok h ps \<Longrightarrow> avl_ok (remove_fixup t bf ps)"
proof (induction ps arbitrary: t bf h)
  case Nil
  then show ?case using rem_pending_balance [of t bf h] by simp
next
  case (Cons f ps)
  note b = rem_pending_balance [OF Cons.prems(1)]
  show ?case
  proof (cases "lc (balance_tree t bf) = Null \<and> rc (balance_tree t bf) = Null \<or>
      \<bar>nbf t\<bar> > \<bar>nbf (balance_tree t bf)\<bar>")
    case True
    with b obtain h' where
      "rem_pending (plug1 (balance_tree t bf) f) (if is_LF f then 1 else -1) h'" "path_ok h' ps"
      using rem_pending_plug1 [OF Cons.prems(2), of "balance_tree t bf"] by blast
    from Cons.IH [OF this] True show ?thesis by (auto simp: Let_def)
  next
    case False
    with b Cons.prems(2) have "avl_ok (plug (balance_tree t bf) (f # ps))"
      unfolding avl_ok_plug by auto
    with False show ?thesis by (auto simp: Let_def)
  qed
qed

section \<open>The sequence of elements\<close>

lemma inorder_plug: "inorder (plug t ps) = lefts ps @ inorder t @ rights ps"
proof (induction ps arbitrary: t)
  case (Cons f ps)
  then show ?case by (cases f) auto
qed simp

lemma lefts_append: "lefts (ps @ qs) = lefts qs @ lefts ps"
proof (induction ps)
  case (Cons f ps)
  then show ?case by (cases f) auto
qed simp

lemma rights_append: "rights (ps @ qs) = rights ps @ rights qs"
proof (induction ps)
  case (Cons f ps)
  then show ?case by (cases f) auto
qed simp

lemma inorder_plug1_frame:
  "lefts ps @ inorder (plug1 t f) @ rights ps = lefts (f # ps) @ inorder t @ rights (f # ps)"
  by (cases f) auto

lemma inorder_insert_fixup:
  "inorder (fst (insert_fixup t bf ps)) = lefts ps @ inorder t @ rights ps"
proof (induction ps arbitrary: t bf)
  case (Cons f ps)
  then show ?case
    by (auto simp: Let_def inorder_plug inorder_plug1_frame inorder_plug [of _ "f # ps", simplified]
      simp del: lefts.simps rights.simps)
qed simp

lemma inorder_remove_fixup:
  "inorder (remove_fixup t bf ps) = lefts ps @ inorder t @ rights ps"
proof (induction ps arbitrary: t bf)
  case (Cons f ps)
  then show ?case
    by (auto simp: Let_def inorder_plug inorder_plug1_frame inorder_plug [of _ "f # ps", simplified]
      simp del: lefts.simps rights.simps)
qed simp

lemma avl_first_from_None [simp]: "avl_first_from t ps = None \<longleftrightarrow> t = Null"
  by (induction t ps rule: avl_first_from.induct) auto

lemma avl_last_from_None [simp]: "avl_last_from t ps = None \<longleftrightarrow> t = Null"
  by (induction t ps rule: avl_last_from.induct) auto

lemma avl_first_from_Some:
  "avl_first_from t ps = Some (u, qs) \<Longrightarrow>
     \<exists>x b r. u = Nd Null x b r \<and> lefts qs = lefts ps \<and>
       x # inorder r @ rights qs = inorder t @ rights ps \<and> plug u qs = plug t ps"
  by (induction t ps rule: avl_first_from.induct) (auto split: if_splits)

lemma avl_last_from_Some:
  "avl_last_from t ps = Some (u, qs) \<Longrightarrow>
     \<exists>l x b. u = Nd l x b Null \<and> rights qs = rights ps \<and>
       lefts qs @ inorder l @ [x] = lefts ps @ inorder t \<and> plug u qs = plug t ps"
  by (induction t ps rule: avl_last_from.induct) (auto split: if_splits)

lemma avl_first_from_LF:
  "avl_first_from t ps = Some (u, qs) \<Longrightarrow> \<exists>fs. qs = fs @ ps \<and> (\<forall>f \<in> set fs. is_LF f)"
proof (induction t ps rule: avl_first_from.induct)
  case (2 l x b r ps)
  then show ?case by (cases "l = Null") fastforce+
qed simp

lemma inorder_avl_remove:
  "inorder (avl_remove (Nd l x b r, ps)) = lefts ps @ inorder l @ inorder r @ rights ps"
proof (cases "avl_first_from r []")
  case None
  then show ?thesis
  proof (cases ps)
    case (Cons p ps')
    with None show ?thesis
      by (cases p) (auto simp: inorder_remove_fixup)
  qed simp
next
  case (Some a)
  obtain u qs where a: "a = (u, qs)" by (cases a)
  from avl_first_from_Some [OF Some [unfolded a]] obtain nx nb nr where
    u: "u = Nd Null nx nb nr" "lefts qs = []" "inorder r = nx # inorder nr @ rights qs"
    by auto
  show ?thesis
  proof (cases qs)
    case Nil
    with Some a u show ?thesis by (auto simp: inorder_remove_fixup)
  next
    case (Cons q qs')
    with Some a u show ?thesis
      by (cases q) (auto simp: inorder_remove_fixup lefts_append rights_append)
  qed
qed

lemma path_ok_append:
  "path_ok h (ps @ qs) \<longleftrightarrow> path_ok h ps \<and> path_ok (ht (plug t ps)) qs" if "ht t = h"
  using that
proof (induction ps arbitrary: h t)
  case (Cons f ps)
  show ?case
  proof (cases f)
    case (LF x b r)
    with Cons.IH [of "Nd t x b r"] Cons.prems show ?thesis by auto
  next
    case (RF l x b)
    with Cons.IH [of "Nd l x b t"] Cons.prems show ?thesis by auto
  qed
qed simp

lemma avl_ok_avl_remove:
  assumes ok: "avl_ok (plug (Nd l x b r) ps)"
  shows "avl_ok (avl_remove (Nd l x b r, ps))"
proof (cases "avl_first_from r []")
  case None
  then have r: "r = Null" by simp
  show ?thesis
  proof (cases ps)
    case Nil
    with None ok show ?thesis by simp
  next
    case (Cons p ps')
    have "\<exists>h'. rem_pending (plug1 l p) (if is_LF p then 1 else -1) h' \<and> path_ok h' ps'"
      by (rule rem_pending_plug1 [where h = "1 + ht l"])
        (use ok [unfolded avl_ok_plug] Cons r ht_nonneg [of l] in auto)
    with None Cons show ?thesis by (auto intro: remove_fixup_ok)
  qed
next
  case (Some a)
  obtain u qs where a: "a = (u, qs)" by (cases a)
  from avl_first_from_Some [OF Some [unfolded a]] obtain nx nb nr where
    u: "u = Nd Null nx nb nr" and pl: "plug u qs = r" by auto
  from ok have okr: "avl_ok r" "avl_ok l" "b = ht r - ht l" "\<bar>b\<bar> \<le> 1"
    "path_ok (1 + max (ht l) (ht r)) ps"
    by (auto simp: avl_ok_plug)
  with pl have oku: "avl_ok u" "path_ok (ht u) qs" by (auto simp: avl_ok_plug)
  show ?thesis
  proof (cases qs)
    case Nil
    with pl u have "r = Nd Null nx nb nr" by simp
    with okr have "rem_pending (Nd l nx b nr) (-1) (1 + max (ht l) (ht r))"
      using ht_nonneg [of nr] by (auto simp: rem_pending_def)
    with okr Some a u Nil show ?thesis by (auto intro: remove_fixup_ok)
  next
    case (Cons q qs')
    have full: "path_ok (ht u) (qs @ RF l nx b # ps)"
      using path_ok_append [of u "ht u" qs "RF l nx b # ps"] oku pl okr by auto
    have "\<exists>h'. rem_pending (plug1 nr q) (if is_LF q then 1 else -1) h' \<and>
        path_ok h' (qs' @ RF l nx b # ps)"
      by (rule rem_pending_plug1 [where h = "ht u"])
        (use full Cons u oku ht_nonneg [of nr] in auto)
    moreover have "is_LF q"
      using avl_first_from_LF [OF Some [unfolded a]] Cons by auto
    ultimately show ?thesis using Some a u Cons by (auto intro: remove_fixup_ok)
  qed
qed

end
