(* ===== verification/Bitwise.thy ===== *)
theory Bitwise
  imports FDB_Prelude
begin

unbundle bit_operations_syntax

text \<open>
  The branch-free integer routines of \<^verbatim>\<open>utils/bitwise_utils.h\<close>, the byte-order conversions of
  \<^verbatim>\<open>src/forestdb_endian.h\<close> and the hash functions of \<^verbatim>\<open>src/hash_functions.cc\<close>. The macros are
  translated operator by operator on fixed-width words; the host is little-endian and
  \<^verbatim>\<open>__ENDIAN_SAFE\<close> is set, so encoding an integer for the file is a byte swap.
\<close>

section \<open>Byte order\<close>

definition bitswap64 :: "u64 \<Rightarrow> u64" where
  "bitswap64 v =
     (drop_bit 56 (v AND 0xff00000000000000)) OR
     (drop_bit 40 (v AND 0x00ff000000000000)) OR
     (drop_bit 24 (v AND 0x0000ff0000000000)) OR
     (drop_bit  8 (v AND 0x000000ff00000000)) OR
     (push_bit  8 (v AND 0x00000000ff000000)) OR
     (push_bit 24 (v AND 0x0000000000ff0000)) OR
     (push_bit 40 (v AND 0x000000000000ff00)) OR
     (push_bit 56 (v AND 0x00000000000000ff))"

definition bitswap32 :: "u32 \<Rightarrow> u32" where
  "bitswap32 v =
     (drop_bit 24 (v AND 0xff000000)) OR
     (drop_bit  8 (v AND 0x00ff0000)) OR
     (push_bit  8 (v AND 0x0000ff00)) OR
     (push_bit 24 (v AND 0x000000ff))"

definition bitswap16 :: "u16 \<Rightarrow> u16" where
  "bitswap16 v = (drop_bit 8 (v AND 0xff00)) OR (push_bit 8 (v AND 0x00ff))"

definition enc64 :: "u64 \<Rightarrow> u64" where "enc64 v = bitswap64 v"
definition dec64 :: "u64 \<Rightarrow> u64" where "dec64 v = bitswap64 v"
definition enc32 :: "u32 \<Rightarrow> u32" where "enc32 v = bitswap32 v"
definition dec32 :: "u32 \<Rightarrow> u32" where "dec32 v = bitswap32 v"
definition enc16 :: "u16 \<Rightarrow> u16" where "enc16 v = bitswap16 v"
definition dec16 :: "u16 \<Rightarrow> u16" where "dec16 v = bitswap16 v"

section \<open>Branch-free comparison\<close>

definition SM64 :: u64 where "SM64 = 0x8000000000000000"
definition SM32 :: u32 where "SM32 = 0x80000000"

definition SC_64 :: "u64 \<Rightarrow> u64 \<Rightarrow> u64" where
  "SC_64 a b = drop_bit 63 ((a AND SM64) XOR (b AND SM64))"

definition SC_64_32 :: "u64 \<Rightarrow> u64 \<Rightarrow> u64" where
  "SC_64_32 a b = drop_bit 32 ((a AND SM64) XOR (b AND SM64))"

definition NZ :: "u32 \<Rightarrow> u32" where
  "NZ v = drop_bit 31 (v OR (NOT v + 1)) AND 1"

definition NZ_64 :: "u64 \<Rightarrow> u64" where
  "NZ_64 v = drop_bit 63 (v OR (NOT v + 1)) AND 1"

text \<open>\<^verbatim>\<open>_CSB\<close> on an unsigned and on a signed operand: the shift follows the operand's type.\<close>

definition CSB :: "u64 \<Rightarrow> u64" where
  "CSB v = drop_bit 32 v OR NZ_64 v"

definition CSB_signed :: "u64 \<Rightarrow> u64" where
  "CSB_signed v = signed_drop_bit 32 v OR NZ_64 v"

definition CS :: "u32 \<Rightarrow> u32" where
  "CS v = (NOT (drop_bit 31 (v AND SM32)) + 1) OR NZ v"

definition MAP :: "u32 \<Rightarrow> int" where
  "MAP v = sint (CS v)"

definition CMP_U32 :: "u32 \<Rightarrow> u32 \<Rightarrow> int" where
  "CMP_U32 a b = sint (ucast (CSB_signed (ucast a - ucast b)) :: u32)"

definition CMP_U64 :: "u64 \<Rightarrow> u64 \<Rightarrow> int" where
  "CMP_U64 a b = sint (ucast
     (((SC_64 a b - 1) AND CSB (a - b)) OR
      ((SC_64_32 a b OR SC_64 a b) AND (drop_bit 32 (b AND SM64) OR 1))) :: u32)"

section \<open>Hash functions\<close>

fun djb2_loop :: "byte list \<Rightarrow> nat \<Rightarrow> u32 \<Rightarrow> u32" where
  "djb2_loop value 0 hash = hash"
| "djb2_loop value (Suc len) hash =
     djb2_loop value len (push_bit 5 hash + hash + ucast (value ! len))"

definition hash_djb2 :: "byte list \<Rightarrow> nat \<Rightarrow> u32" where
  "hash_djb2 value len = djb2_loop value len 5381"

fun djb2_last8_loop :: "byte list \<Rightarrow> nat \<Rightarrow> nat \<Rightarrow> u32 \<Rightarrow> u32" where
  "djb2_last8_loop value base 0 hash = hash"
| "djb2_last8_loop value base (Suc c) hash =
     djb2_last8_loop value base c (push_bit 5 hash + hash + ucast (value ! (base + c)))"

definition hash_djb2_last8 :: "byte list \<Rightarrow> nat \<Rightarrow> u32" where
  "hash_djb2_last8 value len = djb2_last8_loop value (len - min len 8) (min len 8) 5381"

definition hash_uint_modular :: "u64 \<Rightarrow> u64 \<Rightarrow> u32" where
  "hash_uint_modular value m = ucast (value mod m)"

definition fold16 :: "u64 \<Rightarrow> u64" where
  "fold16 a = (a AND 0xffff) XOR drop_bit 16 (a AND 0xffff0000) XOR
     drop_bit 32 (a AND 0xffff00000000) XOR drop_bit 48 (a AND 0xffff000000000000)"

definition hash_shuffle_2uint :: "u64 \<Rightarrow> u64 \<Rightarrow> u32" where
  "hash_shuffle_2uint a0 b0 =
     (let a = fold16 (a0 XOR bitswap64 (a0 XOR 0xffffffffffffffff));
          b = fold16 (b0 XOR bitswap64 (b0 XOR 0xffffffffffffffff));
          c = (ucast
                (push_bit 0 (a AND 0x0000000f) OR push_bit 4 (b AND 0x0000000f) OR
                 push_bit 4 (a AND 0x000000f0) OR push_bit 8 (b AND 0x000000f0) OR
                 push_bit 8 (a AND 0x00000f00) OR push_bit 12 (b AND 0x00000f00) OR
                 push_bit 12 (a AND 0x0000f000) OR push_bit 16 (b AND 0x0000f000)) :: u32)
      in push_bit 5 (push_bit 5 c + c) + c)"

section \<open>Byte order conversions are inverse and reverse the memory image\<close>

lemma byte_masks64:
  "(0xff00000000000000::u64) = push_bit 56 (mask 8)"
  "(0x00ff000000000000::u64) = push_bit 48 (mask 8)"
  "(0x0000ff0000000000::u64) = push_bit 40 (mask 8)"
  "(0x000000ff00000000::u64) = push_bit 32 (mask 8)"
  "(0x00000000ff000000::u64) = push_bit 24 (mask 8)"
  "(0x0000000000ff0000::u64) = push_bit 16 (mask 8)"
  "(0x000000000000ff00::u64) = push_bit 8 (mask 8)"
  "(0x00000000000000ff::u64) = mask 8"
  by (simp_all add: mask_eq_exp_minus_1)

lemma byte_masks32:
  "(0xff000000::u32) = push_bit 24 (mask 8)"
  "(0x00ff0000::u32) = push_bit 16 (mask 8)"
  "(0x0000ff00::u32) = push_bit 8 (mask 8)"
  "(0x000000ff::u32) = mask 8"
  by (simp_all add: mask_eq_exp_minus_1)

lemma byte_masks16:
  "(0xff00::u16) = push_bit 8 (mask 8)"
  "(0x00ff::u16) = mask 8"
  by (simp_all add: mask_eq_exp_minus_1)

lemma bit_bitswap64:
  assumes "q < 8" "m < 8"
  shows "bit (bitswap64 v) (8 * q + m) = bit v (8 * (7 - q) + m)"
proof -
  consider "q = 0" | "q = 1" | "q = 2" | "q = 3" | "q = 4" | "q = 5" | "q = 6" | "q = 7"
    using assms(1) by linarith
  then show ?thesis
    by cases (use assms(2) in \<open>simp_all add: bitswap64_def byte_masks64 bit_simps\<close>)
qed

lemma bit_bitswap32:
  assumes "q < 4" "m < 8"
  shows "bit (bitswap32 v) (8 * q + m) = bit v (8 * (3 - q) + m)"
proof -
  consider "q = 0" | "q = 1" | "q = 2" | "q = 3" using assms(1) by linarith
  then show ?thesis
    by cases (use assms(2) in \<open>simp_all add: bitswap32_def byte_masks32 bit_simps\<close>)
qed

lemma bit_bitswap16:
  assumes "q < 2" "m < 8"
  shows "bit (bitswap16 v) (8 * q + m) = bit v (8 * (1 - q) + m)"
proof -
  consider "q = 0" | "q = 1" using assms(1) by linarith
  then show ?thesis
    by cases (use assms(2) in \<open>simp_all add: bitswap16_def byte_masks16 bit_simps\<close>)
qed

text \<open>Two words are equal when their bytes are; every index is a byte number and an offset.\<close>

lemma word_eq_by_bytes:
  fixes v w :: "'a::len word"
  assumes "LENGTH('a) = 8 * k"
    and "\<And>q m. q < k \<Longrightarrow> m < 8 \<Longrightarrow> bit v (8 * q + m) = bit w (8 * q + m)"
  shows "v = w"
proof (rule bit_word_eqI)
  fix n assume "n < LENGTH('a)"
  then have "n div 8 < k" "n = 8 * (n div 8) + n mod 8" using assms(1) by auto
  then show "bit v n = bit w n" using assms(2) [of "n div 8" "n mod 8"] by simp
qed

lemma bitswap64_bitswap64 [simp]: "bitswap64 (bitswap64 v) = v"
  by (rule word_eq_by_bytes [where k = 8]) (simp_all add: bit_bitswap64)

lemma bitswap32_bitswap32 [simp]: "bitswap32 (bitswap32 v) = v"
  by (rule word_eq_by_bytes [where k = 4]) (simp_all add: bit_bitswap32)

lemma bitswap16_bitswap16 [simp]: "bitswap16 (bitswap16 v) = v"
  by (rule word_eq_by_bytes [where k = 2]) (simp_all add: bit_bitswap16)

lemma dec_enc [simp]:
  "dec64 (enc64 v) = v" "dec32 (enc32 w) = w" "dec16 (enc16 x) = x"
  by (simp_all add: enc64_def dec64_def enc32_def dec32_def enc16_def dec16_def)

lemma enc_dec [simp]:
  "enc64 (dec64 v) = v" "enc32 (dec32 w) = w" "enc16 (dec16 x) = x"
  by (simp_all add: enc64_def dec64_def enc32_def dec32_def enc16_def dec16_def)

lemma word_mem_enc64: "word_mem 8 (enc64 v) = rev (word_mem 8 v)"
proof (rule nth_equalityI)
  fix i assume "i < length (word_mem 8 (enc64 v))"
  then have i: "i < 8" by simp
  have "word_mem 8 (enc64 v) ! i = (ucast (drop_bit (8 * (7 - i)) v) :: byte)"
  proof (rule bit_word_eqI)
    fix m assume "m < LENGTH(8)"
    with i show "bit (word_mem 8 (enc64 v) ! i) m = bit (ucast (drop_bit (8 * (7 - i)) v) :: byte) m"
      by (simp add: nth_word_mem enc64_def bit_ucast_iff bit_drop_bit_eq bit_bitswap64)
  qed
  with i show "word_mem 8 (enc64 v) ! i = rev (word_mem 8 v) ! i"
    by (simp add: rev_nth nth_word_mem)
qed simp

section \<open>The branch-free comparisons decide the order\<close>

lemma top_bit_uint:
  fixes v :: "'a::len word"
  assumes "LENGTH('a) = Suc n"
  shows "bit v n \<longleftrightarrow> 2 ^ n \<le> uint v"
proof -
  have lt: "uint v < 2 * 2 ^ n" using uint_lt2p [of v] assms by simp
  then have d: "uint v div 2 ^ n = (if 2 ^ n \<le> uint v then 1 else 0)"
    by (auto simp: div_pos_pos_trivial intro: int_div_pos_eq [where r = "uint v - 2 ^ n"])
  have "bit v n \<longleftrightarrow> odd (uint v div 2 ^ n)"
    using assms bit_uint_iff [of v n] by (simp add: bit_iff_odd [of "uint v"])
  with d show ?thesis by simp
qed

lemma uint_uminus: "(v::'a::len word) \<noteq> 0 \<Longrightarrow> uint (- v) = 2 ^ LENGTH('a) - uint v"
  by (simp add: uint_word_ariths zmod_zminus1_eq_if uint_0_iff)

lemma NZ_64_eq: "NZ_64 v = (if v = 0 then 0 else 1)"
proof (cases "v = 0")
  case False
  have "bit v 63 \<or> bit (- v) 63"
    using uint_uminus [OF False] by (auto simp: top_bit_uint)
  then have "bit (v OR - v) 63" by (simp add: bit_simps)
  then have "drop_bit 63 (v OR - v) AND 1 = 1"
    by (intro bit_word_eqI) (auto simp: bit_simps bit_1_iff)
  then show ?thesis using False by (simp add: NZ_64_def minus_eq_not_plus_1)
qed (simp add: NZ_64_def)

lemma NZ_eq: "NZ v = (if v = 0 then 0 else 1)"
proof (cases "v = 0")
  case False
  have "bit v 31 \<or> bit (- v) 31"
    using uint_uminus [OF False] by (auto simp: top_bit_uint)
  then have "bit (v OR - v) 31" by (simp add: bit_simps)
  then have "drop_bit 31 (v OR - v) AND 1 = 1"
    by (intro bit_word_eqI) (auto simp: bit_simps bit_1_iff)
  then show ?thesis using False by (simp add: NZ_def minus_eq_not_plus_1)
qed (simp add: NZ_def)

lemma bit_SM64: "bit SM64 n \<longleftrightarrow> n = 63"
proof -
  have e: "SM64 = push_bit 63 1" by (simp add: SM64_def)
  show ?thesis unfolding e bit_push_bit_iff bit_1_iff by auto
qed

lemma SM64_and: "a AND SM64 = (if bit a 63 then SM64 else 0)"
  by (rule bit_word_eqI) (auto simp: bit_and_iff bit_SM64)

lemma bit_SM32: "bit SM32 n \<longleftrightarrow> n = 31"
proof -
  have e: "SM32 = push_bit 31 1" by (simp add: SM32_def)
  show ?thesis unfolding e bit_push_bit_iff bit_1_iff by auto
qed

lemma SM32_and: "a AND SM32 = (if bit a 31 then SM32 else 0)"
  by (rule bit_word_eqI) (auto simp: bit_and_iff bit_SM32)

lemma sint_sign_cases:
  fixes w :: u32
  shows "sint w < 0 \<longleftrightarrow> bit w 31" "sint w = 0 \<longleftrightarrow> w = 0"
  using bit_last_iff [of w] by (simp_all add: signed_eq_0_iff)

lemma CS_eq: "CS v = (if v = 0 then 0 else if bit v 31 then - 1 else 1)"
  unfolding CS_def NZ_eq SM32_and by (simp add: SM32_def)

lemma MAP_sgn: "MAP v = sgn (sint v)"
proof -
  consider "v = 0" | "v \<noteq> 0" "sint v < 0" | "v \<noteq> 0" "0 < sint v"
    using sint_sign_cases(2) [of v] by linarith
  then show ?thesis
    by cases (simp_all add: MAP_def CS_eq flip: sint_sign_cases(1))
qed

lemma CSB_low:
  fixes v :: u64
  shows "sint (ucast (CSB v) :: u32) < 0 \<longleftrightarrow> bit v 63"
    "sint (ucast (CSB v) :: u32) = 0 \<longleftrightarrow> v = 0"
proof -
  show "sint (ucast (CSB v) :: u32) < 0 \<longleftrightarrow> bit v 63"
    unfolding sint_sign_cases by (simp add: CSB_def NZ_64_eq bit_simps)
  have "(ucast (CSB v) :: u32) \<noteq> 0" if "v \<noteq> 0"
  proof
    assume "(ucast (CSB v) :: u32) = 0"
    then have "\<not> bit (ucast (CSB v) :: u32) 0" by simp
    with that show False by (simp add: CSB_def NZ_64_eq bit_simps)
  qed
  then show "sint (ucast (CSB v) :: u32) = 0 \<longleftrightarrow> v = 0"
    unfolding sint_sign_cases by (cases "v = 0") (simp_all add: CSB_def NZ_64_eq)
qed

lemma SC_64_eq: "SC_64 a b = (if bit a 63 = bit b 63 then 0 else 1)"
  unfolding SC_64_def SM64_and by (simp add: SM64_def)

lemma SC_64_32_eq: "SC_64_32 a b = (if bit a 63 = bit b 63 then 0 else 0x80000000)"
  unfolding SC_64_32_def SM64_and by (simp add: SM64_def)

lemma CMP_U64_same: "bit a 63 = bit b 63 \<Longrightarrow> CMP_U64 a b = sint (ucast (CSB (a - b)) :: u32)"
  unfolding CMP_U64_def SC_64_eq SC_64_32_eq by simp

lemma CMP_U64_diff: "bit a 63 \<noteq> bit b 63 \<Longrightarrow> CMP_U64 a b = (if bit b 63 then - 0x7FFFFFFF else 1)"
  unfolding CMP_U64_def SC_64_eq SC_64_32_eq SM64_and by (auto simp: SM64_def)

lemma wrapped_difference_sign:
  fixes x y :: int
  assumes "0 \<le> x" "x < 2 ^ 64" "0 \<le> y" "y < 2 ^ 64" "2 ^ 63 \<le> x \<longleftrightarrow> 2 ^ 63 \<le> y"
  shows "2 ^ 63 \<le> (if y \<le> x then x - y else x - y + 2 ^ 64) \<longleftrightarrow> x < y"
  using assms by auto

lemma sub_top_bit:
  fixes a b :: u64
  assumes "bit a 63 = bit b 63"
  shows "bit (a - b) 63 \<longleftrightarrow> a < b"
  using wrapped_difference_sign [of "uint a" "uint b"] assms uint_bounded [of a] uint_bounded [of b]
  by (auto simp: top_bit_uint word_less_def uint_sub_if' split: if_splits)

lemma CMP_U64_sign:
  "CMP_U64 a b < 0 \<longleftrightarrow> a < b" "CMP_U64 a b = 0 \<longleftrightarrow> a = b"
proof -
  have lt: "a < b \<longleftrightarrow> bit b 63" if "bit a 63 \<noteq> bit b 63"
    using that by (auto simp: top_bit_uint word_less_def)
  show "CMP_U64 a b < 0 \<longleftrightarrow> a < b"
    using lt by (cases "bit a 63 = bit b 63")
      (simp_all add: CMP_U64_same CMP_U64_diff CSB_low sub_top_bit)
  show "CMP_U64 a b = 0 \<longleftrightarrow> a = b"
    by (cases "bit a 63 = bit b 63") (auto simp: CMP_U64_same CMP_U64_diff CSB_low)
qed

lemma CMP_U32_sign:
  "CMP_U32 a b < 0 \<longleftrightarrow> a < b" "CMP_U32 a b = 0 \<longleftrightarrow> a = b"
proof -
  define d :: u64 where "d = ucast a - ucast b"
  have e: "(ucast (CSB_signed d) :: u32) = ucast (CSB d)"
    by (rule bit_word_eqI) (auto simp: CSB_def CSB_signed_def bit_simps min_def)
  have nb: "\<not> bit (ucast (x::u32) :: u64) 63" for x by (auto simp: bit_ucast_iff dest: bit_imp_le_length)
  have "CMP_U32 a b = sint (ucast (CSB d) :: u32)" by (simp add: CMP_U32_def e flip: d_def)
  moreover have "bit d 63 \<longleftrightarrow> a < b"
    unfolding d_def using sub_top_bit [of "ucast a" "ucast b"] nb
    by (simp add: word_less_def uint_up_ucast is_up)
  moreover have "d = 0 \<longleftrightarrow> a = b" 
    by (simp add: d_def word_uint_eq_iff [of "ucast a :: u64"] word_uint_eq_iff [of a] uint_up_ucast is_up)
  ultimately show "CMP_U32 a b < 0 \<longleftrightarrow> a < b" "CMP_U32 a b = 0 \<longleftrightarrow> a = b"
    by (simp_all add: CSB_low)
qed

lemma CMP_U64_pos: "CMP_U64 a b > 0 \<longleftrightarrow> b < a" "CMP_U64 a b \<ge> 0 \<longleftrightarrow> b \<le> a" "CMP_U64 a b \<le> 0 \<longleftrightarrow> a \<le> b"
  using CMP_U64_sign [of a b] less_linear [of a b] by (linarith | fastforce)+

lemma CMP_U32_pos: "CMP_U32 a b > 0 \<longleftrightarrow> b < a" "CMP_U32 a b \<ge> 0 \<longleftrightarrow> b \<le> a" "CMP_U32 a b \<le> 0 \<longleftrightarrow> a \<le> b"
  using CMP_U32_sign [of a b] less_linear [of a b] by (linarith | fastforce)+

section \<open>The suffix hash is the hash of the suffix\<close>

lemma djb2_last8_loop_eq:
  "base + c \<le> length value \<Longrightarrow>
   djb2_last8_loop value base c h = djb2_loop (drop base value) c h"
  by (induction c arbitrary: h) simp_all

lemma hash_djb2_last8_eq:
  "len \<le> length value \<Longrightarrow>
   hash_djb2_last8 value len = hash_djb2 (drop (len - min len 8) value) (min len 8)"
  by (simp add: hash_djb2_last8_def hash_djb2_def djb2_last8_loop_eq)

section \<open>Properties of the word-level helpers\<close>

text \<open>
  C23. The branch-free comparisons return a negative, zero or positive number exactly when the
  first operand is below, equal to or above the second, over the whole range of unsigned 64-bit
  and 32-bit operands, and \<^verbatim>\<open>_MAP\<close> maps a 32-bit result to its sign.
\<close>

theorem branch_free_compare:
  "sgn (CMP_U64 a b) = (if a < b then - 1 else if a = b then 0 else 1) \<and>
   sgn (CMP_U32 c d) = (if c < d then - 1 else if c = d then 0 else 1) \<and>
   MAP v = sgn (sint v)"
proof -
  have "sgn (CMP_U64 a b) = (if a < b then - 1 else if a = b then 0 else 1)"
    by (cases a b rule: linorder_cases) (simp_all add: CMP_U64_sign CMP_U64_pos not_less_iff_gr_or_eq sgn_eq_0_iff)
  moreover have "sgn (CMP_U32 c d) = (if c < d then - 1 else if c = d then 0 else 1)"
    by (cases c d rule: linorder_cases) (simp_all add: CMP_U32_sign CMP_U32_pos not_less_iff_gr_or_eq sgn_eq_0_iff)
  ultimately show ?thesis by (simp add: MAP_sgn)
qed

text \<open>
  C24. The on-disk integer encoding is inverted by its decoding at the three widths, and the
  encoded 64-bit word lies in memory with its most significant byte first.
\<close>

theorem endian_encoding:
  "dec64 (enc64 v) = v \<and> dec32 (enc32 w) = w \<and> dec16 (enc16 x) = x \<and>
   word_mem 8 (enc64 v) = rev (word_mem 8 v)"
  by (simp add: word_mem_enc64)

end
