(* ===== verification/AVL_Order.thy ===== *)
theory AVL_Order
  imports AVL_Tree Bitwise
begin

text \<open>
  The contract of the balanced tree towards its clients. The locale \<open>cmp_order\<close> states what the
  clients promise of the comparison they pass, which is antisymmetry of the sign and
  transitivity; under it the searches, the traversals, the insertion and the removal are the
  corresponding operations on the sorted sequence of elements. Each client interprets the locale
  with its own comparison.
\<close>

section \<open>Positions\<close>

text \<open>The elements before and after a location in key order, and the whole traversal.\<close>

fun pre :: "'a avl \<times> 'a apath \<Rightarrow> 'a list" where
  "pre (u, ps) = lefts ps @ inorder (lc u)"

fun post :: "'a avl \<times> 'a apath \<Rightarrow> 'a list" where
  "post (u, ps) = inorder (rc u) @ rights ps"

fun avl_collect :: "nat \<Rightarrow> ('a avl \<times> 'a apath) option \<Rightarrow> 'a list" where
  "avl_collect n None = []"
| "avl_collect 0 (Some c) = []"
| "avl_collect (Suc n) (Some c) = el (fst c) # avl_collect n (avl_next c)"

definition avl_valid :: "('a \<Rightarrow> 'a \<Rightarrow> int) \<Rightarrow> 'a avl \<Rightarrow> bool" where
  "avl_valid cmp t \<longleftrightarrow> avl_ok t \<and> sorted_wrt (\<lambda>a b. cmp a b < 0) (inorder t)"

section \<open>Traversal\<close>

lemma climb_next_spec:
  "climb_next t ps = None \<Longrightarrow> rights ps = []"
  "climb_next t ps = Some (u, qs) \<Longrightarrow>
     u \<noteq> Null \<and> plug u qs = plug t ps \<and> pre (u, qs) = lefts ps @ inorder t \<and>
     rights ps = el u # post (u, qs)"
proof (induction t ps rule: climb_next.induct)
  case (2 t f ps)
  { case 1 with 2 show ?case by (cases f) auto }
  { case 2 with "2.IH" show ?case by (cases f) auto }
qed auto

lemma climb_prev_spec:
  "climb_prev t ps = None \<Longrightarrow> lefts ps = []"
  "climb_prev t ps = Some (u, qs) \<Longrightarrow>
     u \<noteq> Null \<and> plug u qs = plug t ps \<and> post (u, qs) = inorder t @ rights ps \<and>
     lefts ps = pre (u, qs) @ [el u]"
proof (induction t ps rule: climb_prev.induct)
  case (2 t f ps)
  { case 1 with 2 show ?case by (cases f) auto }
  { case 2 with "2.IH" show ?case by (cases f) auto }
qed auto

lemma avl_next_Some:
  assumes "avl_next (u, ps) = Some (u', ps')"
  shows "u \<noteq> Null \<and> u' \<noteq> Null \<and> plug u' ps' = plug u ps \<and> pre (u', ps') = pre (u, ps) @ [el u] \<and>
    post (u, ps) = el u' # post (u', ps')"
proof (cases u)
  case (Nd l x b r)
  show ?thesis
  proof (cases "r = Null")
    case True
    with Nd assms climb_next_spec(2) [of u ps u' ps'] show ?thesis by auto
  next
    case False
    with Nd assms avl_first_from_Some [of r "RF l x b # ps" u' ps'] show ?thesis by auto
  qed
qed (use assms in simp)

lemma avl_next_None: "u \<noteq> Null \<Longrightarrow> avl_next (u, ps) = None \<Longrightarrow> post (u, ps) = []"
  by (cases u) (auto split: if_splits dest: climb_next_spec(1))

lemma avl_prev_Some:
  assumes "avl_prev (u, ps) = Some (u', ps')"
  shows "u \<noteq> Null \<and> u' \<noteq> Null \<and> plug u' ps' = plug u ps \<and> post (u', ps') = el u # post (u, ps) \<and>
    pre (u, ps) = pre (u', ps') @ [el u']"
proof (cases u)
  case (Nd l x b r)
  show ?thesis
  proof (cases "l = Null")
    case True
    with Nd assms climb_prev_spec(2) [of u ps u' ps'] show ?thesis by auto
  next
    case False
    with Nd assms avl_last_from_Some [of l "LF x b r # ps" u' ps'] show ?thesis by auto
  qed
qed (use assms in simp)

lemma avl_prev_None: "u \<noteq> Null \<Longrightarrow> avl_prev (u, ps) = None \<Longrightarrow> pre (u, ps) = []"
  by (cases u) (auto split: if_splits dest: climb_prev_spec(1))

lemma inorder_loc: "u \<noteq> Null \<Longrightarrow> inorder (plug u ps) = pre (u, ps) @ el u # post (u, ps)"
  by (cases u) (auto simp: inorder_plug)

lemma avl_descend_plug: "avl_descend f t k ps = (u, qs) \<Longrightarrow> plug u qs = plug t ps"
  by (induction f t k ps rule: avl_descend.induct) (auto simp: Let_def split: if_splits)

lemma avl_descend_found: "avl_descend f t k ps = (Nd l x b r, qs) \<Longrightarrow> f x k = 0"
  by (induction f t k ps rule: avl_descend.induct) (auto simp: Let_def split: if_splits)

lemma avl_descend_depth: "avl_descend f t k ps = (u, qs) \<Longrightarrow> int (length qs) \<le> int (length ps) + ht t"
proof (induction f t k ps rule: avl_descend.induct)
  case (2 f l x b r k ps)
  then show ?case using ht_nonneg [of l] ht_nonneg [of r]
    by (auto simp: Let_def split: if_splits)
qed auto

lemma descend_Nd_inorder:
  "avl_descend f t k [] = (Nd l x b r, qs) \<Longrightarrow>
   inorder t = pre (Nd l x b r, qs) @ x # post (Nd l x b r, qs)"
  using avl_descend_plug [of f t k "[]" "Nd l x b r" qs] inorder_loc [of "Nd l x b r" qs] by simp

lemma avl_size_bound: "avl_ok t \<Longrightarrow> 2 ^ (nat (ht t) div 2) \<le> length (inorder t) + 1"
proof (induction t)
  case (Nd l x b r)
  define h where "h = nat (ht (Nd l x b r))"
  show ?case
  proof (cases "h \<le> 1")
    case True
    then have "h div 2 = 0" by simp
    then show ?thesis by (simp add: h_def)
  next
    case False
    have sub: "h - 2 \<le> nat (ht l)" "h - 2 \<le> nat (ht r)"
      using Nd.prems unfolding h_def by auto
    have "(2::nat) ^ (h div 2) = 2 ^ Suc ((h - 2) div 2)"
      using False by (simp add: le_div_geq)
    also have "\<dots> = 2 ^ ((h - 2) div 2) + 2 ^ ((h - 2) div 2)" by simp
    also have "\<dots> \<le> 2 ^ (nat (ht l) div 2) + 2 ^ (nat (ht r) div 2)"
      using sub by (intro add_mono power_increasing div_le_mono) auto
    also have "\<dots> \<le> length (inorder (Nd l x b r)) + 1"
      using Nd by auto
    finally show ?thesis unfolding h_def .
  qed
qed simp

lemma find_split: "(\<forall>y \<in> set xs. \<not> P y) \<Longrightarrow> P x \<Longrightarrow> find P (xs @ x # ys) = Some x"
  by (induction xs) auto

lemma find_after:
  "(\<forall>y \<in> set xs. \<not> P y) \<Longrightarrow> (\<forall>y \<in> set ys. P y) \<Longrightarrow>
   find P (xs @ ys) = (case ys of [] \<Rightarrow> None | y # _ \<Rightarrow> Some y)"
  by (induction xs) (auto split: list.splits)

lemma find_skip: "\<not> P x \<Longrightarrow> find P (xs @ x # ys) = find P (xs @ ys)"
  by (induction xs) auto

lemma avl_first_spec:
  "map_option (el \<circ> fst) (avl_first t) = (case inorder t of [] \<Rightarrow> None | x # _ \<Rightarrow> Some x)"
proof (cases "avl_first_from t []")
  case (Some a)
  with avl_first_from_Some [of t "[]" "fst a" "snd a"] show ?thesis
    by (auto simp: avl_first_def split: list.splits)
qed (auto simp: avl_first_def)

lemma avl_first_remove: "avl_first t = Some c \<Longrightarrow> inorder t = el (fst c) # inorder (avl_remove c)"
  using avl_first_from_Some [of t "[]" "fst c" "snd c"]
  by (auto simp: avl_first_def) (metis inorder_avl_remove inorder.simps(1) append_Nil lefts.simps(1) prod.collapse)

lemma avl_last_spec:
  "map_option (el \<circ> fst) (avl_last t) = (if inorder t = [] then None else Some (last (inorder t)))"
proof (cases "avl_last_from t []")
  case (Some a)
  with avl_last_from_Some [of t "[]" "fst a" "snd a"] show ?thesis
    by (auto simp: avl_last_def) (metis last_snoc last_appendR list.discI append.assoc last.simps)+
qed (auto simp: avl_last_def)

lemma avl_collect_next:
  "fst c \<noteq> Null \<Longrightarrow> length (post c) \<le> n \<Longrightarrow> avl_collect n (avl_next c) = post c"
proof (induction n arbitrary: c)
  case 0
  then show ?case using avl_next_Some avl_next_None by (cases c; cases "avl_next c") fastforce+
next
  case (Suc n)
  obtain u ps where c: "c = (u, ps)" by (cases c)
  show ?case
  proof (cases "avl_next c")
    case None
    with Suc c avl_next_None [of u ps] show ?thesis by simp
  next
    case (Some d)
    obtain u' ps' where d: "d = (u', ps')" by (cases d)
    note s = avl_next_Some [of u ps u' ps', folded c d, OF Some]
    with Suc.prems d Suc.IH [of d] have "avl_collect n (avl_next d) = post d" by auto
    with Some s d show ?thesis by simp
  qed
qed

lemma avl_collect_first:
  assumes "length (inorder t) \<le> n"
  shows "avl_collect n (avl_first t) = inorder t"
proof (cases "avl_first_from t []")
  case (Some a)
  obtain u qs where a: "a = (u, qs)" by (cases a)
  from avl_first_from_Some [OF Some [unfolded a]] obtain x b r where
    u: "u = Nd Null x b r" "lefts qs = []" "inorder t = x # inorder r @ rights qs" by auto
  then obtain m where n: "n = Suc m" "length (post a) \<le> m"
    using assms a by (cases n) auto
  with Some a u avl_collect_next [of a m] show ?thesis by (simp add: avl_first_def)
qed (auto simp: avl_first_def)

section \<open>The ordered container\<close>

locale cmp_order =
  fixes cmp :: "'a \<Rightarrow> 'a \<Rightarrow> int"
  assumes cmp_anti: "cmp x y < 0 \<longleftrightarrow> cmp y x > 0"
    and cmp_trans: "cmp x y \<le> 0 \<Longrightarrow> cmp y z \<le> 0 \<Longrightarrow> cmp x z \<le> 0"
begin

lemma cmp_refl [simp]: "cmp x x = 0"
  using cmp_anti [of x x] by linarith

lemma cmp_eq_sym: "cmp x y = 0 \<longleftrightarrow> cmp y x = 0"
  using cmp_anti [of x y] cmp_anti [of y x] by linarith

lemma cmp_less_trans: "cmp x y < 0 \<Longrightarrow> cmp y z \<le> 0 \<Longrightarrow> cmp x z < 0"
  using cmp_trans [of y z x] cmp_anti [of x y] cmp_anti [of x z] cmp_anti [of y x] cmp_anti [of z x] cmp_trans [of x y z] by linarith

lemma cmp_less_trans2: "cmp x y \<le> 0 \<Longrightarrow> cmp y z < 0 \<Longrightarrow> cmp x z < 0"
  using cmp_trans [of z x y] cmp_anti [of y z] cmp_anti [of x z] cmp_anti [of z y] cmp_anti [of z x] cmp_trans [of x y z] by linarith

lemma greater_trans: "cmp x k > 0 \<Longrightarrow> cmp x y \<le> 0 \<Longrightarrow> cmp y k > 0"
  using cmp_less_trans [of k x y] cmp_anti [of k x] cmp_anti [of k y] by blast

lemma descend_split:
  assumes "avl_descend cmp t k ps = (u, qs)" "sorted_wrt (\<lambda>a b. cmp a b < 0) (inorder t)"
    "\<forall>y \<in> set (lefts ps). cmp y k < 0" "\<forall>y \<in> set (rights ps). cmp y k > 0"
  shows "(\<forall>y \<in> set (lefts qs). cmp y k < 0) \<and> (\<forall>y \<in> set (rights qs). cmp y k > 0)"
  using assms
proof (induction t arbitrary: ps)
  case (Nd l x b r)
  consider "cmp x k > 0" | "cmp x k < 0" | "cmp x k = 0" by linarith
  then show ?case
  proof cases
    case 1
    have "\<forall>y \<in> set (inorder r). cmp y k > 0"
    proof
      fix y assume "y \<in> set (inorder r)"
      with Nd.prems(2) have "cmp x y \<le> 0" by (auto simp: sorted_wrt_append)
      with 1 show "cmp y k > 0" by (rule greater_trans)
    qed
    with 1 Nd.prems show ?thesis
      by (intro Nd.IH(1) [of "LF x b r # ps"]) (auto simp: sorted_wrt_append)
  next
    case 2
    have "\<forall>y \<in> set (inorder l). cmp y k < 0"
    proof
      fix y assume "y \<in> set (inorder l)"
      with Nd.prems(2) have "cmp y x < 0" by (auto simp: sorted_wrt_append)
      with 2 show "cmp y k < 0" by (auto intro: cmp_less_trans [of y x k])
    qed
    with 2 Nd.prems show ?thesis
      by (intro Nd.IH(2) [of "RF l x b # ps"]) (auto simp: sorted_wrt_append)
  qed (use Nd.prems in auto)
qed auto

lemma descend_sides:
  assumes "avl_descend cmp t k [] = (u, qs)" "avl_valid cmp t"
  shows "\<forall>y \<in> set (lefts qs). cmp y k < 0" "\<forall>y \<in> set (rights qs). cmp y k > 0"
  using descend_split [of t k "[]" u qs] assms by (auto simp: avl_valid_def)

lemma descend_Null:
  assumes "avl_descend cmp t k [] = (Null, qs)" "avl_valid cmp t"
  shows "lefts qs = filter (\<lambda>y. cmp y k < 0) (inorder t)"
    "rights qs = filter (\<lambda>y. cmp y k > 0) (inorder t)" "\<forall>y \<in> set (inorder t). cmp y k \<noteq> 0"
proof -
  have io: "inorder t = lefts qs @ rights qs"
    using avl_descend_plug [OF assms(1)] inorder_plug [of Null qs] by simp
  note sd = descend_sides [OF assms]
  show "lefts qs = filter (\<lambda>y. cmp y k < 0) (inorder t)"
    using sd unfolding io by (auto simp: filter_id_conv filter_empty_conv)
  show "rights qs = filter (\<lambda>y. cmp y k > 0) (inorder t)"
    using sd unfolding io by (auto simp: filter_id_conv filter_empty_conv)
  show "\<forall>y \<in> set (inorder t). cmp y k \<noteq> 0"
    using sd unfolding io by auto
qed

lemma descend_Nd:
  assumes "avl_descend cmp t k [] = (Nd l x b r, qs)" "avl_valid cmp t"
  shows "plug (Nd l x b r) qs = t" "cmp x k = 0"
    "\<forall>y \<in> set (pre (Nd l x b r, qs)). cmp y k < 0" "\<forall>y \<in> set (post (Nd l x b r, qs)). cmp y k > 0"
proof -
  show p: "plug (Nd l x b r) qs = t" using avl_descend_plug [OF assms(1)] by simp
  show x: "cmp x k = 0" by (rule avl_descend_found [OF assms(1)])
  have s: "sorted_wrt (\<lambda>a b. cmp a b < 0) (pre (Nd l x b r, qs) @ x # post (Nd l x b r, qs))"
    using assms(2) inorder_loc [of "Nd l x b r" qs] p by (simp add: avl_valid_def)
  show "\<forall>y \<in> set (pre (Nd l x b r, qs)). cmp y k < 0"
  proof
    fix y assume "y \<in> set (pre (Nd l x b r, qs))"
    with s have "cmp y x < 0" unfolding sorted_wrt_append by auto
    with x show "cmp y k < 0" by (auto intro: cmp_less_trans [of y x k])
  qed
  show "\<forall>y \<in> set (post (Nd l x b r, qs)). cmp y k > 0"
  proof
    fix y assume "y \<in> set (post (Nd l x b r, qs))"
    with s have "cmp x y < 0" unfolding sorted_wrt_append by auto
    with x cmp_eq_sym [of x k] have "cmp k y < 0" by (auto intro: cmp_less_trans2 [of k x y])
    then show "cmp y k > 0" by (simp add: cmp_anti)
  qed
qed

lemma search_Some:
  assumes "avl_valid cmp t" "avl_search cmp t k = Some (u, ps)"
  shows "u \<noteq> Null \<and> plug u ps = t \<and> cmp (el u) k = 0"
  using assms descend_Nd unfolding avl_search_def
  by (auto split: prod.splits avl.splits)

lemma search_None:
  assumes "avl_valid cmp t"
  shows "avl_search cmp t k = None \<longleftrightarrow> (\<forall>y \<in> set (inorder t). cmp y k \<noteq> 0)"
proof (cases "avl_descend cmp t k []")
  case (Pair u qs)
  show ?thesis
  proof (cases u)
    case Null
    with Pair descend_Null(3) [OF _ assms] show ?thesis by (simp add: avl_search_def)
  next
    case (Nd l x b r)
    with Pair descend_Nd(1,2) [OF _ assms, of k l x b r qs] inorder_plug [of u qs]
    show ?thesis by (auto simp: avl_search_def)
  qed
qed

lemma descend_None_split:
  assumes "avl_valid cmp t" "\<forall>y \<in> set (inorder t). cmp y k \<noteq> 0"
  shows "inorder t = filter (\<lambda>y. cmp y k < 0) (inorder t) @ filter (\<lambda>y. cmp y k > 0) (inorder t)"
proof -
  obtain qs where d: "avl_descend cmp t k [] = (Null, qs)"
    using assms(2) search_None [OF assms(1), of k] by (auto simp: avl_search_def split: prod.splits avl.splits)
  have "inorder t = lefts qs @ rights qs"
    using avl_descend_plug [OF d] inorder_plug [of Null qs] by simp
  then show ?thesis by (simp only: descend_Null(1,2) [OF d assms(1)])
qed

lemma search_find: "avl_valid cmp t \<Longrightarrow>
  map_option (el \<circ> fst) (avl_search cmp t k) = find (\<lambda>y. cmp y k = 0) (inorder t)"
proof (cases "avl_search cmp t k")
  case None
  moreover assume "avl_valid cmp t"
  ultimately show ?thesis using search_None [of t k] by (simp add: find_None_iff2)
next
  case (Some a)
  moreover assume v: "avl_valid cmp t"
  ultimately obtain l x b r qs where d: "avl_descend cmp t k [] = (Nd l x b r, qs)" "a = (Nd l x b r, qs)"
    by (auto simp: avl_search_def split: prod.splits avl.splits)
  note dd = descend_Nd [OF d(1) v]
  have "find (\<lambda>y. cmp y k = 0) (inorder t) = Some x"
    unfolding descend_Nd_inorder [OF d(1)] by (rule find_split) (use dd(2,3) in force)+
  with Some d show ?thesis by simp
qed

lemma search_greater_find:
  assumes v: "avl_valid cmp t"
  shows "map_option (el \<circ> fst) (avl_search_greater cmp t k) = find (\<lambda>y. cmp y k \<ge> 0) (inorder t)"
proof (cases "avl_descend cmp t k []")
  case (Pair u qs)
  show ?thesis
  proof (cases u)
    case (Nd l x b r)
    note dd = descend_Nd [OF Pair [unfolded Nd] v]
    have "find (\<lambda>y. cmp y k \<ge> 0) (inorder t) = Some x"
      unfolding descend_Nd_inorder [OF Pair [unfolded Nd]] by (rule find_split) (use dd(2,3) in force)+
    with Pair Nd show ?thesis by (simp add: avl_search_greater_def)
  next
    case Null
    note sd = descend_sides [OF Pair [unfolded Null] v]
    have io: "inorder t = lefts qs @ rights qs"
      using avl_descend_plug [OF Pair] inorder_plug [of Null qs] Null by simp
    have rhs: "find (\<lambda>y. cmp y k \<ge> 0) (inorder t) = (case rights qs of [] \<Rightarrow> None | y # _ \<Rightarrow> Some y)"
      unfolding io by (rule find_after) (use sd in force)+
    show ?thesis
    proof (cases qs)
      case Nil
      then show ?thesis using Pair Null rhs by (simp add: avl_search_greater_def)
    next
      case (Cons f ps)
      show ?thesis
      proof (cases f)
        case (LF x b r)
        then show ?thesis using Pair Null Cons sd rhs by (simp add: avl_search_greater_def)
      next
        case (RF l x b)
        then have "avl_search_greater cmp t k = avl_next (Nd l x b Null, ps)"
          using Pair Null Cons sd by (simp add: avl_search_greater_def del: avl_next.simps)
        then show ?thesis
          using rhs RF Cons avl_next_None [of "Nd l x b Null" ps] avl_next_Some [of "Nd l x b Null" ps]
          by (cases "avl_next (Nd l x b Null, ps)") (auto simp del: avl_next.simps)
      qed
    qed
  qed
qed

lemma search_smaller_find:
  assumes v: "avl_valid cmp t"
  shows "map_option (el \<circ> fst) (avl_search_smaller cmp t k) = find (\<lambda>y. cmp y k \<le> 0) (rev (inorder t))"
proof (cases "avl_descend cmp t k []")
  case (Pair u qs)
  show ?thesis
  proof (cases u)
    case (Nd l x b r)
    note dd = descend_Nd [OF Pair [unfolded Nd] v]
    have "find (\<lambda>y. cmp y k \<le> 0) (rev (inorder t)) = Some x"
      unfolding descend_Nd_inorder [OF Pair [unfolded Nd]] rev_append rev.simps append.assoc append.simps
      by (rule find_split) (use dd(2,4) in force)+
    with Pair Nd show ?thesis by (simp add: avl_search_smaller_def)
  next
    case Null
    note sd = descend_sides [OF Pair [unfolded Null] v]
    have io: "inorder t = lefts qs @ rights qs"
      using avl_descend_plug [OF Pair] inorder_plug [of Null qs] Null by simp
    have rhs: "find (\<lambda>y. cmp y k \<le> 0) (rev (inorder t)) = (case rev (lefts qs) of [] \<Rightarrow> None | y # _ \<Rightarrow> Some y)"
      unfolding io rev_append by (rule find_after) (use sd in force)+
    show ?thesis
    proof (cases qs)
      case Nil
      then show ?thesis using Pair Null rhs by (simp add: avl_search_smaller_def)
    next
      case (Cons f ps)
      show ?thesis
      proof (cases f)
        case (RF l x b)
        then show ?thesis using Pair Null Cons sd rhs by (simp add: avl_search_smaller_def)
      next
        case (LF x b r)
        then have "avl_search_smaller cmp t k = avl_prev (Nd Null x b r, ps)"
          using Pair Null Cons sd by (simp add: avl_search_smaller_def del: avl_prev.simps)
        then show ?thesis
          using rhs LF Cons avl_prev_None [of "Nd Null x b r" ps] avl_prev_Some [of "Nd Null x b r" ps]
          by (cases "avl_prev (Nd Null x b r, ps)") (auto simp del: avl_prev.simps)
      qed
    qed
  qed
qed

lemma insert_new:
  assumes "avl_valid cmp t" "\<forall>y \<in> set (inorder t). cmp y x \<noteq> 0"
  shows "inorder (fst (avl_insert cmp t x)) =
      filter (\<lambda>y. cmp y x < 0) (inorder t) @ x # filter (\<lambda>y. cmp y x > 0) (inorder t) \<and>
    avl_valid cmp (fst (avl_insert cmp t x))"
proof -
  obtain qs where d: "avl_descend cmp t x [] = (Null, qs)"
    using assms(2) search_None [OF assms(1), of x] by (auto simp: avl_search_def split: prod.splits avl.splits)
  note dn = descend_Null [OF d assms(1)]
  let ?L = "filter (\<lambda>y. cmp y x < 0) (inorder t)" and ?R = "filter (\<lambda>y. cmp y x > 0) (inorder t)"
  have io: "inorder (fst (avl_insert cmp t x)) = ?L @ x # ?R"
    using dn by (simp add: avl_insert_def d inorder_insert_fixup)
  have "avl_ok (plug Null qs)"
    using avl_descend_plug [OF d] assms(1) by (simp add: avl_valid_def)
  then have "avl_ok (fst (avl_insert cmp t x))"
    by (simp add: avl_insert_def d avl_ok_plug insert_fixup_ok [where h = 0] ins_pending_def)
  moreover have "sorted_wrt (\<lambda>a b. cmp a b < 0) (?L @ x # ?R)"
  proof -
    have "sorted_wrt (\<lambda>a b. cmp a b < 0) ?L" "sorted_wrt (\<lambda>a b. cmp a b < 0) ?R"
      using assms(1) by (auto simp: avl_valid_def sorted_wrt_filter)
    moreover have "\<forall>b \<in> set ?R. cmp x b < 0" using cmp_anti by auto
    moreover have "cmp a b < 0" if "cmp a x < 0" "0 < cmp b x" for a b
      using cmp_less_trans [of a x b] cmp_anti [of x b] that by simp
    ultimately show ?thesis by (auto simp: sorted_wrt_append)
  qed
  ultimately show ?thesis using io by (simp add: avl_valid_def)
qed

lemma insert_dup:
  assumes "avl_valid cmp t" "y \<in> set (inorder t)" "cmp y x = 0"
  shows "fst (avl_insert cmp t x) = t \<and> cmp (snd (avl_insert cmp t x)) x = 0"
proof -
  have "avl_search cmp t x \<noteq> None" using search_None [OF assms(1), of x] assms by auto
  then obtain l z b r qs where d: "avl_descend cmp t x [] = (Nd l z b r, qs)"
    by (auto simp: avl_search_def split: prod.splits avl.splits)
  then show ?thesis using avl_descend_found [OF d] by (simp add: avl_insert_def)
qed

lemma remove_loc:
  assumes "avl_valid cmp (plug u ps)" "u \<noteq> Null"
  shows "avl_valid cmp (avl_remove (u, ps))"
    "inorder (avl_remove (u, ps)) = pre (u, ps) @ post (u, ps)"
proof -
  obtain l x b r where u: "u = Nd l x b r" using assms(2) by (cases u) auto
  show io: "inorder (avl_remove (u, ps)) = pre (u, ps) @ post (u, ps)"
    by (simp add: u inorder_avl_remove del: avl_remove.simps)
  have "avl_ok (avl_remove (u, ps))"
    unfolding u using assms(1) u by (intro avl_ok_avl_remove) (simp add: avl_valid_def)
  with assms io show "avl_valid cmp (avl_remove (u, ps))"
    by (simp add: avl_valid_def inorder_loc sorted_wrt_append del: pre.simps post.simps)
qed

lemma remove_found:
  assumes "avl_valid cmp t" "avl_search cmp t k = Some loc"
  shows "avl_valid cmp (avl_remove loc)"
    "inorder (avl_remove loc) = filter (\<lambda>y. cmp y k \<noteq> 0) (inorder t)"
proof -
  obtain l x b r qs where d: "avl_descend cmp t k [] = (Nd l x b r, qs)" "loc = (Nd l x b r, qs)"
    using assms(2) by (auto simp: avl_search_def split: prod.splits avl.splits)
  note dd = descend_Nd [OF d(1) assms(1)]
  note rl = remove_loc [of "Nd l x b r" qs]
  show "avl_valid cmp (avl_remove loc)" using rl(1) assms(1) dd(1) d(2) by simp
  have "filter (\<lambda>y. cmp y k \<noteq> 0) (pre (Nd l x b r, qs)) = pre (Nd l x b r, qs)"
    "filter (\<lambda>y. cmp y k \<noteq> 0) (post (Nd l x b r, qs)) = post (Nd l x b r, qs)"
    using dd(3,4) by (auto simp: filter_id_conv simp del: pre.simps post.simps)
  then show "inorder (avl_remove loc) = filter (\<lambda>y. cmp y k \<noteq> 0) (inorder t)"
    using rl(2) assms(1) dd(1,2) d(2) inorder_loc [of "Nd l x b r" qs] by (simp del: pre.simps post.simps)
qed

end

text \<open>The branch-free comparison of 64-bit keys satisfies the contract.\<close>

interpretation u64_cmp: cmp_order CMP_U64
proof
  fix x y z :: u64
  show "CMP_U64 x y < 0 \<longleftrightarrow> CMP_U64 y x > 0" by (simp add: CMP_U64_sign CMP_U64_pos)
  show "CMP_U64 x z \<le> 0" if "CMP_U64 x y \<le> 0" "CMP_U64 y z \<le> 0"
    using that by (simp add: CMP_U64_pos)
qed

section \<open>Properties of the container\<close>

text \<open>
  C11. Inserting an element with a new key gives a tree that satisfies the invariant (balance
  factors exact and within one, keys ascending) and whose sequence is the old one with the
  element at its place; the old elements all stay.
\<close>

theorem avl_insert_new_key:
  assumes "cmp_order cmp" "avl_valid cmp t" "\<forall>y \<in> set (inorder t). cmp y x \<noteq> 0"
  shows "avl_valid cmp (fst (avl_insert cmp t x)) \<and>
    inorder (fst (avl_insert cmp t x)) =
      filter (\<lambda>y. cmp y x < 0) (inorder t) @ x # filter (\<lambda>y. cmp y x > 0) (inorder t)"
  using cmp_order.insert_new [OF assms] by simp

lemma three_keys_valid: "avl_valid CMP_U64 (Nd Null 5 1 (Nd Null 7 0 Null))"
  by (simp add: avl_valid_def CMP_U64_sign)

theorem avl_insert_new_key_witness:
  "avl_valid CMP_U64 (fst (avl_insert CMP_U64 (Nd Null 5 1 (Nd Null 7 0 Null)) 9)) \<and>
   inorder (fst (avl_insert CMP_U64 (Nd Null 5 1 (Nd Null 7 0 Null)) 9)) = [5, 7, 9]"
proof -
  have *: "CMP_U64 5 9 < 0" "CMP_U64 7 9 < 0" by (simp_all add: CMP_U64_sign)
  then show ?thesis
    using avl_insert_new_key [OF u64_cmp.cmp_order_axioms three_keys_valid, of 9] by simp
qed

text \<open>
  Inserting an element whose key is present leaves the tree as it is, and the node returned
  is the resident one with that key.
\<close>

theorem avl_insert_present_key:
  assumes "cmp_order cmp" "avl_valid cmp t" "y \<in> set (inorder t)" "cmp y x = 0"
  shows "fst (avl_insert cmp t x) = t \<and> cmp (snd (avl_insert cmp t x)) x = 0"
  using cmp_order.insert_dup [OF assms] .

theorem avl_insert_present_key_witness:
  "fst (avl_insert CMP_U64 (Nd Null 5 1 (Nd Null 7 0 Null)) 7) = Nd Null 5 1 (Nd Null 7 0 Null) \<and>
   CMP_U64 (snd (avl_insert CMP_U64 (Nd Null 5 1 (Nd Null 7 0 Null)) 7)) 7 = 0"
  by (rule avl_insert_present_key [OF u64_cmp.cmp_order_axioms three_keys_valid, of 7 7])
    (simp_all add: CMP_U64_sign)

text \<open>
  C14. Removing the node that a search returned gives a tree that satisfies the invariant and
  whose sequence is the old one without the element of that key.
\<close>

theorem avl_remove_searched:
  assumes "cmp_order cmp" "avl_valid cmp t" "avl_search cmp t k = Some c"
  shows "avl_valid cmp (avl_remove c) \<and> inorder (avl_remove c) = filter (\<lambda>y. cmp y k \<noteq> 0) (inorder t)"
  using cmp_order.remove_found [OF assms] by simp

theorem avl_remove_searched_witness:
  "avl_valid CMP_U64 (avl_remove (Nd Null 5 1 (Nd Null 7 0 Null), [])) \<and>
   inorder (avl_remove (Nd Null 5 1 (Nd Null 7 0 Null), [])) = [7]"
proof -
  have *: "CMP_U64 5 5 = 0" "CMP_U64 7 5 \<noteq> 0" by (simp_all add: CMP_U64_sign)
  then have "avl_search CMP_U64 (Nd Null 5 1 (Nd Null 7 0 Null)) 5 = Some (Nd Null 5 1 (Nd Null 7 0 Null), [])"
    by (simp add: avl_search_def)
  from avl_remove_searched [OF u64_cmp.cmp_order_axioms three_keys_valid this] * show ?thesis by simp
qed

text \<open>
  C15. The three searches return what a scan of the sorted sequence returns: the exact match, the
  smallest element at or above the key, the greatest element at or below it.
\<close>

theorem avl_searches_scan:
  assumes "cmp_order cmp" "avl_valid cmp t"
  shows "map_option (el \<circ> fst) (avl_search cmp t k) = find (\<lambda>y. cmp y k = 0) (inorder t) \<and>
    map_option (el \<circ> fst) (avl_search_greater cmp t k) = find (\<lambda>y. cmp y k \<ge> 0) (inorder t) \<and>
    map_option (el \<circ> fst) (avl_search_smaller cmp t k) = find (\<lambda>y. cmp y k \<le> 0) (rev (inorder t))"
  using cmp_order.search_find [OF assms] cmp_order.search_greater_find [OF assms]
    cmp_order.search_smaller_find [OF assms] by blast

theorem avl_searches_scan_witness:
  "map_option (el \<circ> fst) (avl_search_greater CMP_U64 (Nd Null 5 1 (Nd Null 7 0 Null)) 6) = Some 7"
proof -
  have "CMP_U64 5 6 < 0" "CMP_U64 7 6 \<ge> 0"
    by (simp_all add: CMP_U64_sign CMP_U64_pos)
  then show ?thesis
    using avl_searches_scan [OF u64_cmp.cmp_order_axioms three_keys_valid, of 6] by simp
qed

text \<open>
  C16. A search visits at most twice the binary logarithm of the number of elements: a descent of
  length \<open>d\<close> needs at least \<open>2 ^ (d div 2) - 1\<close> elements, and a traversal from the first node
  by \<^verbatim>\<open>avl_next\<close> yields the whole sequence.
\<close>

theorem avl_descent_and_traversal:
  assumes "avl_ok t" "avl_descend cmp t k [] = (u, ps)"
  shows "2 ^ (length ps div 2) \<le> length (inorder t) + 1 \<and>
    avl_collect (length (inorder t)) (avl_first t) = inorder t"
proof
  have "length ps div 2 \<le> nat (ht t) div 2"
    using avl_descend_depth [OF assms(2)] by (intro div_le_mono) simp
  then have "(2::nat) ^ (length ps div 2) \<le> 2 ^ (nat (ht t) div 2)" by simp
  then show "2 ^ (length ps div 2) \<le> length (inorder t) + 1"
    using avl_size_bound [OF assms(1)] by linarith
qed (simp add: avl_collect_first)

theorem avl_descent_and_traversal_witness:
  "(2::nat) ^ (length [RF Null (5::u64) 1] div 2) \<le> length (inorder (Nd Null (5::u64) 1 (Nd Null 7 0 Null))) + 1 \<and>
   avl_collect (length (inorder (Nd Null (5::u64) 1 (Nd Null 7 0 Null))))
     (avl_first (Nd Null (5::u64) 1 (Nd Null 7 0 Null))) = inorder (Nd Null (5::u64) 1 (Nd Null 7 0 Null))"
  by (rule avl_descent_and_traversal [of _ CMP_U64 7 "Nd Null 7 0 Null"])
    (simp_all add: Let_def CMP_U64_sign CMP_U64_pos)

end
