(* ===== verification/Hash_Table.thy ===== *)
theory Hash_Table
  imports AVL_Order
begin

text \<open>
  The chained hash table of \<^verbatim>\<open>src/hash.cc\<close>, whose buckets are balanced trees (\<^verbatim>\<open>_HASH_TREE\<close>). The hash
  function and the comparison are fields of the table, as in the code; the locale
  \<open>hash_contract\<close> states what a user of the table promises about them. Under that contract the
  table is a finite map from keys to elements, scanning it visits every element once, and
  destroying it frees every element exactly once.
\<close>

section \<open>The table and its operations\<close>

record 'a hash =
  nbuckets :: nat
  buckets :: "'a avl list"
  hash_func :: "'a \<Rightarrow> u32"
  hcmp :: "'a \<Rightarrow> 'a \<Rightarrow> int"

definition hash_init :: "nat \<Rightarrow> ('a \<Rightarrow> u32) \<Rightarrow> ('a \<Rightarrow> 'a \<Rightarrow> int) \<Rightarrow> 'a hash" where
  "hash_init n hf cf = \<lparr>nbuckets = n, buckets = replicate n (root (avl_init ())),
     hash_func = hf, hcmp = cf\<rparr>"

definition hash_insert_at :: "'a hash \<Rightarrow> 'a \<Rightarrow> nat \<Rightarrow> 'a hash" where
  "hash_insert_at tb e b =
     tb\<lparr>buckets := (buckets tb)[b := fst (avl_insert (hcmp tb) (buckets tb ! b) e)]\<rparr>"

definition hash_insert :: "'a hash \<Rightarrow> 'a \<Rightarrow> 'a hash" where
  "hash_insert tb e = hash_insert_at tb e (unat (hash_func tb e))"

definition hash_insert_by_hash_val :: "'a hash \<Rightarrow> 'a \<Rightarrow> u32 \<Rightarrow> 'a hash" where
  "hash_insert_by_hash_val tb e v = hash_insert_at tb e (unat v mod nbuckets tb)"

definition hash_find_at :: "'a hash \<Rightarrow> 'a \<Rightarrow> nat \<Rightarrow> 'a option" where
  "hash_find_at tb e b = map_option (el \<circ> fst) (avl_search (hcmp tb) (buckets tb ! b) e)"

definition hash_find :: "'a hash \<Rightarrow> 'a \<Rightarrow> 'a option" where
  "hash_find tb e = hash_find_at tb e (unat (hash_func tb e))"

definition hash_find_by_hash_val :: "'a hash \<Rightarrow> 'a \<Rightarrow> u32 \<Rightarrow> 'a option" where
  "hash_find_by_hash_val tb e v = hash_find_at tb e (unat v mod nbuckets tb)"

text \<open>
  \<^verbatim>\<open>hash_scan\<close>: the check function returns a result to stop at. The loop over one bucket is
  given the number of its nodes as fuel, which a traversal cannot exceed.
\<close>

fun scan_bucket :: "('a \<Rightarrow> 'r option) \<Rightarrow> nat \<Rightarrow> ('a avl \<times> 'a apath) option \<Rightarrow> 'r option" where
  "scan_bucket check n None = None"
| "scan_bucket check 0 (Some c) = None"
| "scan_bucket check (Suc n) (Some c) =
     (case check (el (fst c)) of Some r \<Rightarrow> Some r | None \<Rightarrow> scan_bucket check n (avl_next c))"

fun scan_buckets :: "('a \<Rightarrow> 'r option) \<Rightarrow> 'a avl list \<Rightarrow> 'r option" where
  "scan_buckets check [] = None"
| "scan_buckets check (t # ts) =
     (case scan_bucket check (length (inorder t)) (avl_first t) of
        Some r \<Rightarrow> Some r | None \<Rightarrow> scan_buckets check ts)"

definition hash_scan :: "'a hash \<Rightarrow> ('a \<Rightarrow> 'r option) \<Rightarrow> 'r option" where
  "hash_scan tb check = scan_buckets check (buckets tb)"

definition hash_remove :: "'a hash \<Rightarrow> 'a \<Rightarrow> 'a hash \<times> 'a option" where
  "hash_remove tb e =
     (let b = unat (hash_func tb e) in
      case avl_search (hcmp tb) (buckets tb ! b) e of
        Some c \<Rightarrow> (tb\<lparr>buckets := (buckets tb)[b := avl_remove c]\<rparr>, Some (el (fst c)))
      | None \<Rightarrow> (tb, None))"

text \<open>
  \<^verbatim>\<open>hash_free_active\<close> holds a pointer to the next node while it removes the current one. The
  removal rearranges the tree but not the nodes, so the pointer is the element itself and
  \<open>locate\<close> finds where it now is.
\<close>

fun locate :: "'a \<Rightarrow> 'a avl \<Rightarrow> 'a apath \<Rightarrow> ('a avl \<times> 'a apath) option" where
  "locate x Null ps = None"
| "locate x (Nd l y b r) ps =
     (if y = x then Some (Nd l y b r, ps)
      else case locate x l (LF y b r # ps) of
             Some c \<Rightarrow> Some c | None \<Rightarrow> locate x r (RF l y b # ps))"

fun free_bucket :: "nat \<Rightarrow> 'a avl \<Rightarrow> 'a option \<Rightarrow> 'a avl \<times> 'a list" where
  "free_bucket n t None = (t, [])"
| "free_bucket 0 t (Some h) = (t, [])"
| "free_bucket (Suc n) t (Some h) =
     (case locate h t [] of
        None \<Rightarrow> (t, [])
      | Some c \<Rightarrow>
          (let node = map_option (el \<circ> fst) (avl_next c);
               (t', freed) = free_bucket n (avl_remove c) node
           in (t', h # freed)))"

definition hash_free_active :: "'a hash \<Rightarrow> 'a list" where
  "hash_free_active tb =
     concat (map (\<lambda>t. snd (free_bucket (length (inorder t)) t (map_option (el \<circ> fst) (avl_first t))))
       (buckets tb))"

section \<open>Contents and the invariant\<close>

definition hash_elems :: "'a hash \<Rightarrow> 'a list" where
  "hash_elems tb = concat (map inorder (buckets tb))"

definition hash_valid :: "'a hash \<Rightarrow> bool" where
  "hash_valid tb \<longleftrightarrow> length (buckets tb) = nbuckets tb \<and>
     (\<forall>i < nbuckets tb. avl_valid (hcmp tb) (buckets tb ! i) \<and>
        (\<forall>x \<in> set (inorder (buckets tb ! i)). unat (hash_func tb x) = i))"

fun first_some :: "('a \<Rightarrow> 'r option) \<Rightarrow> 'a list \<Rightarrow> 'r option" where
  "first_some f [] = None"
| "first_some f (x # xs) = (case f x of Some r \<Rightarrow> Some r | None \<Rightarrow> first_some f xs)"

lemma find_filter_irrelevant:
  "(\<And>y. P y \<Longrightarrow> Q y) \<Longrightarrow> find P (filter Q xs) = find P xs"
  by (induction xs) auto

lemma distinct_concat_nth:
  "(\<And>i. i < length xss \<Longrightarrow> distinct (xss ! i)) \<Longrightarrow>
   (\<And>i j. i < length xss \<Longrightarrow> j < length xss \<Longrightarrow> i \<noteq> j \<Longrightarrow> set (xss ! i) \<inter> set (xss ! j) = {}) \<Longrightarrow>
   distinct (concat xss)"
proof (induction xss)
  case (Cons xs xss)
  have "set xs \<inter> set (xss ! j) = {}" if "j < length xss" for j
    using that Cons.prems(2) [of 0 "Suc j"] by simp
  then have "set xs \<inter> set (concat xss) = {}" by (fastforce simp: in_set_conv_nth [of _ xss])
  moreover have "distinct (concat xss)"
    by (rule Cons.IH) (use Cons.prems(1) [of "Suc _"] Cons.prems(2) [of "Suc _" "Suc _"] in auto)
  ultimately show ?case using Cons.prems(1) [of 0] by simp
qed simp

lemma unat_neq: "(a::u32) \<noteq> b \<Longrightarrow> unat a \<noteq> unat b"
  by (metis unsigned_word_eqI)

lemma scan_bucket_collect: "scan_bucket check n c = first_some check (avl_collect n c)"
  by (induction check n c rule: scan_bucket.induct) (auto split: option.splits)

lemma first_some_append:
  "first_some f (xs @ ys) = (case first_some f xs of Some r \<Rightarrow> Some r | None \<Rightarrow> first_some f ys)"
  by (induction xs) (auto split: option.splits)

lemma scan_buckets_concat: "scan_buckets check ts = first_some check (concat (map inorder ts))"
  by (induction ts) (auto simp: scan_bucket_collect avl_collect_first first_some_append split: option.splits)

lemma locate_None: "locate x t ps = None \<longleftrightarrow> x \<notin> set (inorder t)"
  by (induction x t ps rule: locate.induct) (auto split: option.splits)

lemma locate_Some:
  "locate x t ps = Some (u, qs) \<Longrightarrow> u \<noteq> Null \<and> el u = x \<and> plug u qs = plug t ps"
  by (induction x t ps rule: locate.induct) (auto split: option.splits if_splits)

lemma locate_distinct:
  assumes "distinct (x # xs)" "inorder t = x # xs"
  obtains u qs where "locate x t [] = Some (u, qs)" "u \<noteq> Null" "el u = x" "plug u qs = t"
    "pre (u, qs) = []" "post (u, qs) = xs"
proof -
  obtain u qs where l: "locate x t [] = Some (u, qs)"
    using assms(2) locate_None [of x t "[]"] by fastforce
  note s = locate_Some [OF l]
  have io: "pre (u, qs) @ x # post (u, qs) = x # xs"
    using inorder_loc [of u qs] s assms(2) by simp
  have "ys = []" if "ys @ x # zs = x # xs" for ys zs
    using that assms(1) by (cases ys) auto
  from this [OF io] have "pre (u, qs) = []" .
  with io s l that show thesis by simp
qed

lemma inorder_remove_loc: "u \<noteq> Null \<Longrightarrow> inorder (avl_remove (u, ps)) = pre (u, ps) @ post (u, ps)"
  by (cases u) (simp_all add: inorder_avl_remove del: avl_remove.simps)

lemma free_bucket_all:
  "distinct (inorder t) \<Longrightarrow> length (inorder t) \<le> n \<Longrightarrow>
   free_bucket n t (case inorder t of [] \<Rightarrow> None | x # _ \<Rightarrow> Some x) = (Null, inorder t)"
proof (induction n arbitrary: t)
  case (Suc n)
  show ?case
  proof (cases "inorder t")
    case (Cons x xs)
    then obtain u qs where l: "locate x t [] = Some (u, qs)" "u \<noteq> Null" "el u = x" "plug u qs = t"
      "pre (u, qs) = []" "post (u, qs) = xs"
      using Suc.prems(1) locate_distinct [of x xs t] by metis
    have nx: "map_option (el \<circ> fst) (avl_next (u, qs)) = (case xs of [] \<Rightarrow> None | y # _ \<Rightarrow> Some y)"
      using avl_next_None [of u qs] avl_next_Some [of u qs] l
      by (cases "avl_next (u, qs)") (auto simp del: pre.simps post.simps avl_next.simps)
    have io: "inorder (avl_remove (u, qs)) = xs" using inorder_remove_loc [OF l(2)] l(5,6) by simp
    then have "free_bucket n (avl_remove (u, qs)) (case xs of [] \<Rightarrow> None | y # _ \<Rightarrow> Some y) = (Null, xs)"
      using Suc.IH [of "avl_remove (u, qs)"] Suc.prems Cons by simp
    with Cons l nx show ?thesis by (simp del: avl_next.simps avl_remove.simps)
  qed auto
qed auto

lemma hash_free_active_elems:
  assumes "\<forall>t \<in> set (buckets tb). distinct (inorder t)"
  shows "hash_free_active tb = hash_elems tb"
proof -
  have "snd (free_bucket (length (inorder t)) t (map_option (el \<circ> fst) (avl_first t))) = inorder t"
    if "t \<in> set (buckets tb)" for t
    using that assms free_bucket_all [of t "length (inorder t)"] by (simp add: avl_first_spec)
  then show ?thesis by (simp add: hash_free_active_def hash_elems_def cong: map_cong)
qed

text \<open>
  What a user promises: the comparison orders the elements, equal elements have the same hash,
  and the hash is a bucket of a table of \<open>n\<close> buckets.
\<close>

locale hash_contract = cmp_order cmp for cmp :: "'a \<Rightarrow> 'a \<Rightarrow> int" +
  fixes hf :: "'a \<Rightarrow> u32" and n :: nat
  assumes hash_bound: "unat (hf x) < n"
    and hash_cong: "cmp x y = 0 \<Longrightarrow> hf x = hf y"
begin

lemma eq_trans:
  assumes "cmp x y = 0" "cmp y z = 0"
  shows "cmp x z = 0"
proof -
  have "cmp x z \<le> 0" "cmp z x \<le> 0"
    using cmp_trans [of x y z] cmp_trans [of z y x] cmp_eq_sym [of x y] cmp_eq_sym [of y z] assms by simp_all
  then show ?thesis using cmp_anti [of x z] by linarith
qed

lemma eq_cong: "cmp x y = 0 \<Longrightarrow> cmp z x = 0 \<longleftrightarrow> cmp z y = 0"
  using eq_trans [of z x y] eq_trans [of z y x] cmp_eq_sym [of x y] by blast

lemma sorted_wrt_distinct: "sorted_wrt (\<lambda>a b. cmp a b < 0) xs \<Longrightarrow> distinct xs"
  by (induction xs) auto

lemma init_valid: "hash_valid (hash_init n hf cmp)"
  by (simp add: hash_valid_def hash_init_def avl_init_def avl_valid_def)

lemma bucket_valid:
  assumes "hash_valid tb" "nbuckets tb = n" "hcmp tb = cmp"
  shows "avl_valid cmp (buckets tb ! unat (hf x))"
  using assms hash_bound by (auto simp: hash_valid_def)

lemma find_spec:
  assumes "hash_valid tb" "nbuckets tb = n" "hcmp tb = cmp" "hash_func tb = hf"
  shows "hash_find tb k = find (\<lambda>y. cmp y k = 0) (inorder (buckets tb ! unat (hf k)))"
  using search_find [OF bucket_valid] assms by (simp add: hash_find_def hash_find_at_def)

lemma elem_bucket:
  assumes "hash_valid tb" "nbuckets tb = n" "hash_func tb = hf"
  shows "x \<in> set (hash_elems tb) \<longleftrightarrow> x \<in> set (inorder (buckets tb ! unat (hf x)))"
proof -
  have len: "length (buckets tb) = n" using assms by (simp add: hash_valid_def)
  have "x \<in> set (hash_elems tb) \<longleftrightarrow> (\<exists>i < n. x \<in> set (inorder (buckets tb ! i)))"
    by (auto simp: hash_elems_def set_conv_nth [of "buckets tb"] len)
  also have "\<dots> \<longleftrightarrow> x \<in> set (inorder (buckets tb ! unat (hf x)))"
    using assms hash_bound [of x] by (fastforce simp: hash_valid_def)
  finally show ?thesis .
qed

lemma insert_valid:
  assumes "hash_valid tb" "nbuckets tb = n" "hcmp tb = cmp" "hash_func tb = hf"
  shows "hash_valid (hash_insert tb e)"
proof -
  let ?b = "unat (hf e)" and ?t = "buckets tb ! unat (hf e)"
  have v: "avl_valid cmp ?t" by (rule bucket_valid [OF assms(1-3)])
  have "avl_valid cmp (fst (avl_insert cmp ?t e)) \<and>
      set (inorder (fst (avl_insert cmp ?t e))) \<subseteq> insert e (set (inorder ?t))"
  proof (cases "\<forall>y \<in> set (inorder ?t). cmp y e \<noteq> 0")
    case True
    then show ?thesis using insert_new [OF v] by auto
  next
    case False
    then show ?thesis using insert_dup [OF v] v by auto
  qed
  then show ?thesis
    using assms hash_bound [of e]
    by (auto simp: hash_valid_def hash_insert_def hash_insert_at_def nth_list_update)
qed

lemma insert_find:
  assumes "hash_valid tb" "nbuckets tb = n" "hcmp tb = cmp" "hash_func tb = hf"
  shows "hash_find (hash_insert tb e) k =
    (if cmp e k = 0 \<and> hash_find tb e = None then Some e else hash_find tb k)"
proof -
  let ?t = "buckets tb ! unat (hf e)" and ?t' = "fst (avl_insert cmp (buckets tb ! unat (hf e)) e)"
  have v: "avl_valid cmp ?t" by (rule bucket_valid [OF assms(1-3)])
  have tb': "hash_valid (hash_insert tb e)" "nbuckets (hash_insert tb e) = n"
    "hcmp (hash_insert tb e) = cmp" "hash_func (hash_insert tb e) = hf"
    using insert_valid [OF assms] assms by (simp_all add: hash_insert_def hash_insert_at_def)
  have b: "buckets (hash_insert tb e) ! unat (hf k) =
      (if hf e = hf k then ?t' else buckets tb ! unat (hf k))"
    using assms(1,2) hash_bound [of k] unat_neq [of "hf e" "hf k"]
    by (auto simp: hash_insert_def hash_insert_at_def hash_valid_def assms(3,4))
  note fe = find_spec [OF assms, of e] and fk = find_spec [OF assms, of k]
    and fk' = find_spec [OF tb', of k]
  show ?thesis
  proof (cases "hash_find tb e")
    case (Some y)
    then have "y \<in> set (inorder ?t)" "cmp y e = 0" using fe by (auto simp: find_Some_iff)
    then have "?t' = ?t" using insert_dup [OF v] by blast
    with fk fk' b Some show ?thesis by (cases "hf e = hf k") simp_all
  next
    case None
    then have new: "\<forall>y \<in> set (inorder ?t). cmp y e \<noteq> 0" using fe by (auto simp: find_None_iff)
    have io: "inorder ?t' = filter (\<lambda>y. cmp y e < 0) (inorder ?t) @ e # filter (\<lambda>y. cmp y e > 0) (inorder ?t)"
      using insert_new [OF v new] by simp
    have split: "inorder ?t = filter (\<lambda>y. cmp y e < 0) (inorder ?t) @ filter (\<lambda>y. cmp y e > 0) (inorder ?t)"
      using descend_None_split [OF v new] .
    show ?thesis
    proof (cases "cmp e k = 0")
      case True
      have "\<not> cmp y k = 0" if "cmp y e < 0" for y
        using cmp_less_trans [OF that, of k] True by simp
      then have "find (\<lambda>y. cmp y k = 0) (inorder ?t') = Some e"
        unfolding io using True by (intro find_split) auto
      then show ?thesis using fk' b hash_cong [OF True] None True by simp
    next
      case False
      then have "find (\<lambda>y. cmp y k = 0) (inorder ?t') = find (\<lambda>y. cmp y k = 0) (inorder ?t)"
        unfolding io by (subst find_skip) (simp_all only: split [symmetric] not_False_eq_True)
      with fk fk' b False show ?thesis by (cases "hf e = hf k") simp_all
    qed
  qed
qed

lemma remove_find:
  assumes "hash_valid tb" "nbuckets tb = n" "hcmp tb = cmp" "hash_func tb = hf"
  shows "hash_valid (fst (hash_remove tb e)) \<and>
    snd (hash_remove tb e) = hash_find tb e \<and>
    hash_find (fst (hash_remove tb e)) k = (if cmp e k = 0 then None else hash_find tb k)"
proof -
  let ?t = "buckets tb ! unat (hf e)"
  have v: "avl_valid cmp ?t" by (rule bucket_valid [OF assms(1-3)])
  note fe = find_spec [OF assms, of e] and fk = find_spec [OF assms, of k]
  show ?thesis
  proof (cases "avl_search cmp ?t e")
    case None
    then have "hash_find tb e = None" "hash_remove tb e = (tb, None)"
      by (simp_all add: hash_find_def hash_find_at_def hash_remove_def assms)
    moreover have "hash_find tb k = hash_find tb e" if "cmp e k = 0"
      using fe fk hash_cong [OF that] eq_cong [OF that] by simp
    ultimately show ?thesis using assms(1) by simp
  next
    case (Some c)
    let ?tb' = "fst (hash_remove tb e)"
    note r = remove_found [OF v Some]
    have tb': "buckets ?tb' = (buckets tb)[unat (hf e) := avl_remove c]" "nbuckets ?tb' = n"
      "hcmp ?tb' = cmp" "hash_func ?tb' = hf" "snd (hash_remove tb e) = hash_find tb e"
      using Some assms by (simp_all add: hash_remove_def hash_find_def hash_find_at_def Let_def)
    have val: "hash_valid ?tb'"
      using assms r tb' hash_bound [of e] by (auto simp: hash_valid_def nth_list_update)
    note fk' = find_spec [OF val tb'(2-4), of k]
    have b: "buckets ?tb' ! unat (hf k) = (if hf e = hf k then avl_remove c else buckets tb ! unat (hf k))"
      using assms(1,2) hash_bound [of k] unat_neq [of "hf e" "hf k"]
      by (auto simp: hash_valid_def tb'(1) assms(3,4))
    have "hash_find ?tb' k = (if cmp e k = 0 then None else hash_find tb k)"
    proof (cases "cmp e k = 0")
      case True
      then show ?thesis
        using fk' b r(2) hash_cong [OF True] eq_cong [OF True] by (auto simp: find_None_iff)
    next
      case False
      then have "find (\<lambda>y. cmp y k = 0) (filter (\<lambda>y. cmp y e \<noteq> 0) (inorder ?t)) =
          find (\<lambda>y. cmp y k = 0) (inorder ?t)"
        by (intro find_filter_irrelevant) (metis eq_cong cmp_eq_sym)
      with False fk fk' b r(2) show ?thesis by (cases "hf e = hf k") simp_all
    qed
    with val tb'(5) show ?thesis by simp
  qed
qed

lemma by_hash_val:
  assumes "nbuckets tb = n" "hash_func tb = hf" "unat (hf e) = unat v mod n"
  shows "hash_insert_by_hash_val tb e v = hash_insert tb e"
    "hash_find_by_hash_val tb e v = hash_find tb e"
  using assms by (simp_all add: hash_insert_by_hash_val_def hash_insert_def
      hash_find_by_hash_val_def hash_find_def)

lemma elems_distinct:
  assumes "hash_valid tb" "hcmp tb = cmp"
  shows "distinct (hash_elems tb)"
proof -
  have len: "length (buckets tb) = nbuckets tb" using assms by (simp add: hash_valid_def)
  have d: "distinct (inorder (buckets tb ! i))" if "i < nbuckets tb" for i
    using that assms sorted_wrt_distinct by (auto simp: hash_valid_def avl_valid_def)
  have "set (inorder (buckets tb ! i)) \<inter> set (inorder (buckets tb ! j)) = {}"
    if "i < nbuckets tb" "j < nbuckets tb" "i \<noteq> j" for i j
    using that assms unfolding hash_valid_def by (metis disjoint_iff)
  with d show ?thesis
    unfolding hash_elems_def using len by (intro distinct_concat_nth) auto
qed

lemma valid_distinct:
  assumes "hash_valid tb" "hcmp tb = cmp"
  shows "\<forall>t \<in> set (buckets tb). distinct (inorder t)"
proof
  fix t assume "t \<in> set (buckets tb)"
  then have "sorted_wrt (\<lambda>a b. cmp a b < 0) (inorder t)"
    using assms by (auto simp: hash_valid_def avl_valid_def in_set_conv_nth)
  then show "distinct (inorder t)"
    by (rule sorted_wrt_distinct)
qed

end

text \<open>
  The library's own modular hash of 64-bit keys with the branch-free comparison meets the
  contract, here for a table of 257 buckets.
\<close>

interpretation modular: hash_contract CMP_U64 "\<lambda>v. hash_uint_modular v 257" 257
proof
  fix x y :: u64
  have "unat (x mod 257) < 257" by (simp add: unat_mod)
  then show "unat (hash_uint_modular x 257) < 257"
    by (simp add: hash_uint_modular_def unsigned_ucast_eq unsigned_take_bit_eq take_bit_nat_eq_self)
  show "CMP_U64 x y = 0 \<Longrightarrow> hash_uint_modular x 257 = hash_uint_modular y 257"
    by (simp add: CMP_U64_sign)
qed

section \<open>Properties of the hash table\<close>

text \<open>
  C20. Insertion and lookup: after inserting an element, a lookup with an equal key returns the
  element that was already resident under that key if there was one and the new element
  otherwise, every other lookup is unchanged, and the table stays well formed.
\<close>

theorem hash_insert_then_find:
  assumes "hash_contract cmp hf n"
    and "hash_valid tb" "nbuckets tb = n" "hcmp tb = cmp" "hash_func tb = hf"
  shows "hash_valid (hash_insert tb e) \<and>
    hash_find (hash_insert tb e) k =
      (if cmp e k = 0 \<and> hash_find tb e = None then Some e else hash_find tb k)"
  using hash_contract.insert_valid [OF assms] hash_contract.insert_find [OF assms] by blast

abbreviation table257 :: "u64 hash" where
  "table257 \<equiv> hash_init 257 (\<lambda>v. hash_uint_modular v 257) CMP_U64"

theorem hash_insert_then_find_witness:
  "hash_find (hash_insert table257 1000) 1000 = Some 1000"
proof -
  have "hash_find table257 1000 = None"
    using modular.find_spec [OF modular.init_valid, of 1000] modular.hash_bound [of 1000]
    by (simp add: hash_init_def avl_init_def)
  then show ?thesis
    using hash_insert_then_find [OF modular.hash_contract_axioms modular.init_valid, of 1000 1000]
    by (simp add: hash_init_def CMP_U64_sign)
qed

text \<open>
  C21. Removal returns what a lookup of the key would have returned, and afterwards exactly the
  lookups with that key fail; the table stays well formed.
\<close>

theorem hash_remove_then_find:
  assumes "hash_contract cmp hf n"
    and "hash_valid tb" "nbuckets tb = n" "hcmp tb = cmp" "hash_func tb = hf"
  shows "hash_valid (fst (hash_remove tb e)) \<and> snd (hash_remove tb e) = hash_find tb e \<and>
    hash_find (fst (hash_remove tb e)) k = (if cmp e k = 0 then None else hash_find tb k)"
  by (rule hash_contract.remove_find [OF assms])

theorem hash_remove_then_find_witness:
  "hash_find (fst (hash_remove table257 7)) 7 = None"
  using hash_remove_then_find [OF modular.hash_contract_axioms modular.init_valid, of 7 7]
  by (simp add: hash_init_def CMP_U64_sign)

text \<open>
  C22. A scan with a check function returns the first result over all elements of all buckets, in
  bucket order and then key order, and destroying the table passes every element to the free
  function exactly once: the sequence of freed elements is the sequence of elements, without
  repetition, although every step rearranges the tree under the saved pointer to the next node.
\<close>

theorem hash_scan_and_free:
  assumes "hash_contract cmp hf n" "hash_valid tb" "hcmp tb = cmp"
  shows "hash_scan tb check = first_some check (hash_elems tb) \<and>
    hash_free_active tb = hash_elems tb \<and> distinct (hash_free_active tb)"
proof -
  note d = hash_contract.valid_distinct [OF assms]
  have "distinct (hash_elems tb)"
    by (rule hash_contract.elems_distinct [OF assms])
  then show ?thesis
    using hash_free_active_elems [OF d] by (simp add: hash_scan_def hash_elems_def scan_buckets_concat)
qed

theorem hash_scan_and_free_witness:
  "hash_free_active (hash_insert table257 1000) = hash_elems (hash_insert table257 1000)"
  using hash_scan_and_free [OF modular.hash_contract_axioms
      modular.insert_valid [OF modular.init_valid], of 1000 "\<lambda>_. None :: unit option"]
  by (simp add: hash_init_def hash_insert_def hash_insert_at_def)

end
