(* ===== verification/Checksum.thy ===== *)
theory Checksum
  imports Crc32
begin

unbundle bit_operations_syntax

text \<open>
  The checksum interface of \<^verbatim>\<open>src/checksum.cc\<close> and \<^verbatim>\<open>src/checksum.h\<close> in the build without the platform's
  CRC-32C (\<^verbatim>\<open>_CRC32C\<close> undefined): the fallback \<^verbatim>\<open>crc32c\<close> is an assertion failure, which is
  \<^const>\<open>None\<close> here. The theorems state that the optimised checksum is the polynomial's, that a
  stored checksum is accepted and that every corruption of one byte is rejected.
\<close>

datatype crc_mode_e = CRC_UNKNOWN | CRC32 | CRC32C

definition CRC_DEFAULT :: crc_mode_e where "CRC_DEFAULT = CRC32"

definition crc32c :: "byte list \<Rightarrow> nat \<Rightarrow> u32 \<Rightarrow> u32 option" where
  "crc32c buf buf_len pre = None"

definition get_checksum :: "byte list \<Rightarrow> nat \<Rightarrow> u32 \<Rightarrow> crc_mode_e \<Rightarrow> u32 option" where
  "get_checksum buf buf_len pre mode =
     (if mode = CRC32C then crc32c buf buf_len pre
      else if mode = CRC32 then Some (crc32_8 buf buf_len pre)
      else None)"

definition get_checksum_mode :: "byte list \<Rightarrow> nat \<Rightarrow> crc_mode_e \<Rightarrow> u32 option" where
  "get_checksum_mode buf buf_len mode = get_checksum buf buf_len 0 mode"

definition get_checksum_default :: "byte list \<Rightarrow> nat \<Rightarrow> u32 option" where
  "get_checksum_default buf buf_len = get_checksum buf buf_len 0 CRC_DEFAULT"

definition perform_integrity_check :: "byte list \<Rightarrow> nat \<Rightarrow> u32 \<Rightarrow> crc_mode_e \<Rightarrow> bool" where
  "perform_integrity_check buf buf_len checksum mode = (checksum = crc32_8 buf buf_len 0)"

definition detect_and_check_crc :: "byte list \<Rightarrow> nat \<Rightarrow> u32 \<Rightarrow> bool \<times> crc_mode_e" where
  "detect_and_check_crc buf buf_len checksum =
     (if perform_integrity_check buf buf_len checksum CRC32 then (True, CRC32)
      else (False, CRC_UNKNOWN))"

section \<open>Properties of the checksum\<close>

text \<open>
  C12. The slicing-by-eight routine computes the byte-at-a-time CRC, and each byte step is the
  eight-fold bit step of the polynomial, for every buffer, length and seed: the 2048 constants of
  the lookup tables are the right ones.
\<close>

theorem crc32_8_is_polynomial:
  assumes "len \<le> length data"
  shows "crc32_8 data len seed = crc32_1 data len seed \<and>
    crc32_8 data len seed =
      NOT (foldl (\<lambda>c b. (crc_bit ^^ 8) (c XOR ucast b)) (NOT seed) (take len data))"
proof -
  have "crc_step = (\<lambda>c b. (crc_bit ^^ 8) (c XOR ucast b))"
    by (intro ext) (simp only: crc_step_byte crc_byte_eq)
  then show ?thesis
    using assms by (simp add: crc32_8_def crc32_1_def crc_loop8_bytes crc_bytes_foldl)
qed

theorem crc32_8_is_polynomial_witness:
  "crc32_8 (replicate 9 1) 9 0 = crc32_1 (replicate 9 1) 9 0"
  using crc32_8_is_polynomial [of 9 "replicate 9 1" 0] by simp

text \<open>
  C25. A buffer passes the integrity check with the checksum computed for it, in every mode the
  check accepts; and after replacing one byte by a different one it no longer passes.
\<close>

theorem integrity_check_detects:
  assumes "len \<le> length buf"
  shows "(\<exists>c. get_checksum_default buf len = Some c \<and>
      perform_integrity_check buf len c mode \<and> detect_and_check_crc buf len c = (True, CRC32) \<and>
      (\<forall>i < len. \<forall>b. b \<noteq> buf ! i \<longrightarrow>
         \<not> perform_integrity_check (buf[i := b]) len c mode \<and>
         detect_and_check_crc (buf[i := b]) len c = (False, CRC_UNKNOWN)))"
proof -
  have "crc32_8 buf len 0 \<noteq> crc32_8 (buf[i := b]) len 0" if "i < len" "b \<noteq> buf ! i" for i b
    using crc_single_byte [OF assms that, of 0] by simp
  then show ?thesis
    by (simp add: get_checksum_default_def get_checksum_def CRC_DEFAULT_def
        perform_integrity_check_def detect_and_check_crc_def)
qed

theorem integrity_check_detects_witness:
  "\<exists>c. get_checksum_default [1, 2, 3] 3 = Some c \<and> perform_integrity_check [1, 2, 3] 3 c CRC32 \<and>
     \<not> perform_integrity_check ([1, 2, 3][1 := 7]) 3 c CRC32"
proof -
  obtain c where "get_checksum_default [1, 2, 3] 3 = Some c" "perform_integrity_check [1, 2, 3] 3 c CRC32"
    and c: "\<forall>i < 3. \<forall>b. b \<noteq> [1, 2, 3] ! i \<longrightarrow> \<not> perform_integrity_check ([1, 2, 3][i := b]) 3 c CRC32"
    using integrity_check_detects [of 3 "[1, 2, 3]" CRC32] by auto
  moreover have "\<not> perform_integrity_check ([1, 2, 3][1 := 7]) 3 c CRC32"
    by (rule c [rule_format]) simp_all
  ultimately show ?thesis by blast
qed

end
