(* ===== verification/Version.thy ===== *)
theory Version
  imports FDB_Prelude
begin

text \<open>
  The file format predicates of \<^verbatim>\<open>src/version.cc\<close>: which magic numbers are valid, which features a
  format has, and where its commit header keeps the two fields that moved between formats.
\<close>

section \<open>Magic numbers and format predicates\<close>

definition FILEMGR_MAGIC_000 :: u64 where "FILEMGR_MAGIC_000 = 0xdeadcafebeefbeef"
definition FILEMGR_MAGIC_001 :: u64 where "FILEMGR_MAGIC_001 = 0xdeadcafebeefc001"
definition FILEMGR_MAGIC_002 :: u64 where "FILEMGR_MAGIC_002 = 0xdeadcafebeefc002"
definition FILEMGR_LATEST_MAGIC :: u64 where "FILEMGR_LATEST_MAGIC = FILEMGR_MAGIC_002"

definition ver_get_latest_magic :: u64 where "ver_get_latest_magic = FILEMGR_MAGIC_002"

definition ver_is_valid_magic :: "u64 \<Rightarrow> bool" where
  "ver_is_valid_magic magic \<longleftrightarrow> magic = FILEMGR_MAGIC_000 \<or>
     (magic \<ge> FILEMGR_MAGIC_001 \<and> magic \<le> FILEMGR_LATEST_MAGIC)"

definition ver_is_magic_000 :: "u64 \<Rightarrow> bool" where
  "ver_is_magic_000 magic \<longleftrightarrow> magic = FILEMGR_MAGIC_000"

definition ver_is_atleast_magic_001 :: "u64 \<Rightarrow> bool" where
  "ver_is_atleast_magic_001 magic \<longleftrightarrow> magic \<ge> FILEMGR_MAGIC_001 \<and> magic \<le> FILEMGR_LATEST_MAGIC"

definition ver_staletree_support :: "u64 \<Rightarrow> bool" where
  "ver_staletree_support magic \<longleftrightarrow> magic \<ge> FILEMGR_MAGIC_002 \<and> magic \<le> FILEMGR_LATEST_MAGIC"

definition ver_non_consecutive_doc :: "u64 \<Rightarrow> bool" where
  "ver_non_consecutive_doc magic \<longleftrightarrow> magic \<ge> FILEMGR_MAGIC_002 \<and> magic \<le> FILEMGR_LATEST_MAGIC"

definition ver_superblock_support :: "u64 \<Rightarrow> bool" where
  "ver_superblock_support magic \<longleftrightarrow> magic \<ge> FILEMGR_MAGIC_002 \<and> magic \<le> FILEMGR_LATEST_MAGIC"

text \<open>\<^verbatim>\<open>(size_t) -1\<close> is the error value of the two offset functions.\<close>

definition ver_get_new_filename_off :: "u64 \<Rightarrow> u64" where
  "ver_get_new_filename_off magic =
     (if magic = FILEMGR_MAGIC_000 then 64
      else if magic = FILEMGR_MAGIC_001 then 72
      else if magic = FILEMGR_MAGIC_002 then 80 else - 1)"

definition ver_get_last_wal_flush_hdr_off :: "u64 \<Rightarrow> u64" where
  "ver_get_last_wal_flush_hdr_off magic =
     (if magic = FILEMGR_MAGIC_000 then 40
      else if magic = FILEMGR_MAGIC_001 then 48
      else if magic = FILEMGR_MAGIC_002 then 56 else - 1)"

definition ver_get_version_string :: "u64 \<Rightarrow> string" where
  "ver_get_version_string magic =
     (if magic = FILEMGR_MAGIC_000 then ''ForestDB v1.x format''
      else if magic = FILEMGR_MAGIC_001 then ''ForestDB v1.x format''
      else if magic = FILEMGR_MAGIC_002 then ''ForestDB v2.x format'' else ''unknown'')"

lemmas magic_defs = FILEMGR_MAGIC_000_def FILEMGR_MAGIC_001_def FILEMGR_MAGIC_002_def
  FILEMGR_LATEST_MAGIC_def

lemma magic_range:
  "m \<ge> FILEMGR_MAGIC_001 \<and> m \<le> FILEMGR_LATEST_MAGIC \<longleftrightarrow> m = FILEMGR_MAGIC_001 \<or> m = FILEMGR_MAGIC_002"
proof -
  have "uint m = 0xdeadcafebeefc001 \<or> uint m = 0xdeadcafebeefc002"
    if "0xdeadcafebeefc001 \<le> uint m" "uint m \<le> 0xdeadcafebeefc002" using that by linarith
  then show ?thesis
    by (auto simp: magic_defs word_le_def word_uint_eq_iff [of m])
qed

section \<open>Properties of the format predicates\<close>

text \<open>
  Exactly the three published magic numbers are valid. A magic number has its two header
  offsets and a version string exactly when it is valid; within the header the WAL flush field
  lies 24 bytes before the file name field; and the features of the latest format are present
  exactly for the latest magic number, which implies the features of the older one.
\<close>

theorem magic_classification:
  "(ver_is_valid_magic m \<longleftrightarrow> m \<in> {FILEMGR_MAGIC_000, FILEMGR_MAGIC_001, FILEMGR_MAGIC_002}) \<and>
   (ver_is_valid_magic m \<longleftrightarrow> ver_get_new_filename_off m \<noteq> - 1) \<and>
   (ver_is_valid_magic m \<longleftrightarrow> ver_get_last_wal_flush_hdr_off m + 24 = ver_get_new_filename_off m) \<and>
   (ver_is_valid_magic m \<longleftrightarrow> ver_get_version_string m \<noteq> ''unknown'') \<and>
   (ver_is_valid_magic m \<longleftrightarrow> ver_is_magic_000 m \<noteq> ver_is_atleast_magic_001 m) \<and>
   (ver_superblock_support m \<longleftrightarrow> m = ver_get_latest_magic) \<and>
   ver_staletree_support m = ver_superblock_support m \<and>
   ver_non_consecutive_doc m = ver_superblock_support m"
proof -
  have v: "ver_is_valid_magic m \<longleftrightarrow> m \<in> {FILEMGR_MAGIC_000, FILEMGR_MAGIC_001, FILEMGR_MAGIC_002}"
    by (auto simp: ver_is_valid_magic_def magic_range)
  have s: "ver_superblock_support m \<longleftrightarrow> m = FILEMGR_MAGIC_002"
    by (auto simp: ver_superblock_support_def FILEMGR_LATEST_MAGIC_def)
  have a: "ver_is_atleast_magic_001 m \<longleftrightarrow> m = FILEMGR_MAGIC_001 \<or> m = FILEMGR_MAGIC_002"
    by (simp add: ver_is_atleast_magic_001_def magic_range)
  have d: "FILEMGR_MAGIC_000 \<noteq> FILEMGR_MAGIC_001" "FILEMGR_MAGIC_000 \<noteq> FILEMGR_MAGIC_002"
    by (simp_all add: magic_defs)
  have r: "ver_staletree_support m = ver_superblock_support m" "ver_non_consecutive_doc m = ver_superblock_support m"
    by (simp_all add: ver_staletree_support_def ver_non_consecutive_doc_def ver_superblock_support_def)
  show ?thesis
    using d by (auto simp: v s a r ver_get_new_filename_off_def ver_get_last_wal_flush_hdr_off_def
        ver_get_version_string_def ver_is_magic_000_def ver_get_latest_magic_def)
qed

end
