(* ===== verification/Configuration.thy ===== *)
theory Configuration
  imports FDB_Prelude
begin

unbundle bit_operations_syntax

text \<open>
  The configuration of \<^verbatim>\<open>src/configuration.cc\<close>: the record \<^verbatim>\<open>fdb_config\<close>, its defaults and its
  validation. The number of processor cores, which the defaults ask the operating system for, is
  an argument. The defaults are shown to pass the validation on every machine, and the partition
  count is the smallest entry of the table of primes that is at least the number of cores.
\<close>

section \<open>Constants and records\<close>

definition FDB_BLOCKSIZE :: u32 where "FDB_BLOCKSIZE = 4096"
definition FDB_SEQTREE_NOT_USE :: byte where "FDB_SEQTREE_NOT_USE = 0"
definition FDB_SEQTREE_USE :: byte where "FDB_SEQTREE_USE = 1"
definition FDB_DRB_NONE :: byte where "FDB_DRB_NONE = 0"
definition FDB_DRB_ODIRECT :: byte where "FDB_DRB_ODIRECT = 1"
definition FDB_DRB_ASYNC :: byte where "FDB_DRB_ASYNC = 2"
definition FDB_DRB_ODIRECT_ASYNC :: byte where "FDB_DRB_ODIRECT_ASYNC = 3"
definition FDB_OPEN_FLAG_CREATE :: u32 where "FDB_OPEN_FLAG_CREATE = 1"
definition FDB_OPEN_FLAG_RDONLY :: u32 where "FDB_OPEN_FLAG_RDONLY = 2"
definition FDB_COMP_BUF_MINSIZE :: u32 where "FDB_COMP_BUF_MINSIZE = 67108864"
definition FDB_COMPACTION_MANUAL :: byte where "FDB_COMPACTION_MANUAL = 0"
definition FDB_DEFAULT_COMPACTION_THRESHOLD :: byte where "FDB_DEFAULT_COMPACTION_THRESHOLD = 30"
definition FDB_COMPACTOR_SLEEP_DURATION :: u64 where "FDB_COMPACTOR_SLEEP_DURATION = 28800"
definition DEFAULT_NUM_COMPACTOR_THREADS :: u64 where "DEFAULT_NUM_COMPACTOR_THREADS = 4"
definition MAX_NUM_COMPACTOR_THREADS :: u64 where "MAX_NUM_COMPACTOR_THREADS = 128"
definition DEFAULT_NUM_BGFLUSHER_THREADS :: u64 where "DEFAULT_NUM_BGFLUSHER_THREADS = 2"
definition MAX_NUM_BGFLUSHER_THREADS :: u64 where "MAX_NUM_BGFLUSHER_THREADS = 64"
definition MAX_NUM_WAL_PARTITIONS :: u16 where "MAX_NUM_WAL_PARTITIONS = 512"
definition MAX_NUM_BCACHE_PARTITIONS :: u16 where "MAX_NUM_BCACHE_PARTITIONS = 512"
definition SB_MIN_BLOCK_REUSING_FILESIZE :: u64 where "SB_MIN_BLOCK_REUSING_FILESIZE = 16777216"
definition FDB_ENCRYPTION_NONE :: int where "FDB_ENCRYPTION_NONE = 0"

record fdb_encryption_key =
  algorithm :: int
  key_bytes :: "byte list"

record fdb_config =
  chunksize :: u16
  blocksize :: u32
  buffercache_size :: u64
  wal_threshold :: u64
  wal_flush_before_commit :: bool
  auto_commit :: bool
  purging_interval :: u32
  seqtree_opt :: byte
  durability_opt :: byte
  cfg_flags :: u32
  compaction_buf_maxsize :: u32
  cleanup_cache_onclose :: bool
  compress_document_body :: bool
  compaction_mode :: byte
  compaction_threshold :: byte
  compaction_minimum_filesize :: u64
  compactor_sleep_duration :: u64
  multi_kv_instances :: bool
  prefetch_duration :: u64
  num_wal_partitions :: u16
  num_bcache_partitions :: u16
  compaction_cb :: "nat option"
  compaction_cb_mask :: u32
  compaction_cb_ctx :: "nat option"
  max_writer_lock_prob :: u64
  num_compactor_threads :: u64
  enable_background_compactor :: bool
  num_bgflusher_threads :: u64
  encryption_key :: fdb_encryption_key
  block_reusing_threshold :: u64
  min_block_reuse_filesize :: u64
  max_block_reusing_cycle :: u64
  num_keeping_headers :: u64
  breakpad_minidump_dir :: string
  log_msg_level :: u64
  do_not_move_to_compacted_file :: bool
  enable_reusable_block_reservation :: bool
  bulk_load_mode :: bool
  do_not_search_wal :: bool
  do_not_cache_doc_blocks :: bool
  num_blocks_readahead :: u32
  bottom_up_index_build :: bool

record fdb_kvs_config =
  create_if_missing :: bool
  custom_cmp :: "nat option"
  custom_cmp_param :: "nat option"

section \<open>Defaults\<close>

definition prime_size_table :: "int list" where
  "prime_size_table = [11, 31, 47, 73, 97, 109, 211, 313, 419, -1]"

text \<open>The search loop of \<^verbatim>\<open>get_default_config\<close>; it returns the index where it stops.\<close>

fun scan_primes :: "int list \<Rightarrow> int \<Rightarrow> nat \<Rightarrow> nat" where
  "scan_primes [] num_cores i = i"
| "scan_primes (p # ps) num_cores i =
     (if p > 0 \<and> p < num_cores then scan_primes ps num_cores (Suc i) else i)"

definition default_partitions :: "int \<Rightarrow> int" where
  "default_partitions num_cores =
     (let i = scan_primes prime_size_table num_cores 0 in
      if prime_size_table ! i = -1 then prime_size_table ! (i - 1) else prime_size_table ! i)"

definition get_default_config :: "int \<Rightarrow> fdb_config" where
  "get_default_config num_cores = \<lparr>
     chunksize = 8,
     blocksize = FDB_BLOCKSIZE,
     buffercache_size = 134217728,
     wal_threshold = 4096,
     wal_flush_before_commit = True,
     auto_commit = False,
     purging_interval = 0,
     seqtree_opt = FDB_SEQTREE_NOT_USE,
     durability_opt = FDB_DRB_NONE,
     cfg_flags = FDB_OPEN_FLAG_CREATE,
     compaction_buf_maxsize = FDB_COMP_BUF_MINSIZE,
     cleanup_cache_onclose = True,
     compress_document_body = False,
     compaction_mode = FDB_COMPACTION_MANUAL,
     compaction_threshold = FDB_DEFAULT_COMPACTION_THRESHOLD,
     compaction_minimum_filesize = 1048576,
     compactor_sleep_duration = FDB_COMPACTOR_SLEEP_DURATION,
     multi_kv_instances = True,
     prefetch_duration = 0,
     num_wal_partitions = of_int (default_partitions num_cores),
     num_bcache_partitions = of_int (default_partitions num_cores),
     compaction_cb = None,
     compaction_cb_mask = 0,
     compaction_cb_ctx = None,
     max_writer_lock_prob = 100,
     num_compactor_threads = DEFAULT_NUM_COMPACTOR_THREADS,
     enable_background_compactor = True,
     num_bgflusher_threads = DEFAULT_NUM_BGFLUSHER_THREADS,
     encryption_key = \<lparr>algorithm = FDB_ENCRYPTION_NONE, key_bytes = replicate 32 0\<rparr>,
     block_reusing_threshold = 65,
     min_block_reuse_filesize = SB_MIN_BLOCK_REUSING_FILESIZE,
     max_block_reusing_cycle = 0,
     num_keeping_headers = 5,
     breakpad_minidump_dir = ''.'',
     log_msg_level = 1,
     do_not_move_to_compacted_file = False,
     enable_reusable_block_reservation = False,
     bulk_load_mode = False,
     do_not_search_wal = False,
     do_not_cache_doc_blocks = False,
     num_blocks_readahead = 0,
     bottom_up_index_build = False\<rparr>"

definition get_default_kvs_config :: fdb_kvs_config where
  "get_default_kvs_config = \<lparr>create_if_missing = True, custom_cmp = None, custom_cmp_param = None\<rparr>"

section \<open>Validation\<close>

text \<open>The checks of \<^verbatim>\<open>validate_fdb_config\<close> in their order; \<^verbatim>\<open>sizeof(void *)\<close> is 8.\<close>

definition validate_fdb_config :: "fdb_config \<Rightarrow> bool" where
  "validate_fdb_config c =
     (if chunksize c < 4 \<or> chunksize c > 64 then False
      else if chunksize c < 8 then False
      else if blocksize c < 1024 \<or> blocksize c > 131072 then False
      else if seqtree_opt c \<noteq> FDB_SEQTREE_NOT_USE \<and> seqtree_opt c \<noteq> FDB_SEQTREE_USE then False
      else if durability_opt c \<noteq> FDB_DRB_NONE \<and> durability_opt c \<noteq> FDB_DRB_ODIRECT \<and>
        durability_opt c \<noteq> FDB_DRB_ASYNC \<and> durability_opt c \<noteq> FDB_DRB_ODIRECT_ASYNC then False
      else if cfg_flags c AND FDB_OPEN_FLAG_CREATE \<noteq> 0 \<and> cfg_flags c AND FDB_OPEN_FLAG_RDONLY \<noteq> 0 then False
      else if compaction_threshold c > 100 then False
      else if compactor_sleep_duration c = 0 then False
      else if num_wal_partitions c = 0 \<or> num_wal_partitions c > MAX_NUM_WAL_PARTITIONS then False
      else if num_bcache_partitions c = 0 \<or> num_bcache_partitions c > MAX_NUM_BCACHE_PARTITIONS then False
      else if max_writer_lock_prob c < 20 \<or> max_writer_lock_prob c > 100 then False
      else if num_compactor_threads c < 1 \<or> num_compactor_threads c > MAX_NUM_COMPACTOR_THREADS then False
      else if num_bgflusher_threads c > MAX_NUM_BGFLUSHER_THREADS then False
      else if num_keeping_headers c = 0 then False
      else if log_msg_level c > 6 then False
      else True)"

definition validate_fdb_kvs_config :: "fdb_kvs_config \<Rightarrow> bool" where
  "validate_fdb_kvs_config c = True"

lemmas config_consts = FDB_BLOCKSIZE_def FDB_SEQTREE_NOT_USE_def FDB_SEQTREE_USE_def FDB_DRB_NONE_def
  FDB_DRB_ODIRECT_def FDB_DRB_ASYNC_def FDB_DRB_ODIRECT_ASYNC_def FDB_OPEN_FLAG_CREATE_def
  FDB_OPEN_FLAG_RDONLY_def FDB_DEFAULT_COMPACTION_THRESHOLD_def FDB_COMPACTOR_SLEEP_DURATION_def
  DEFAULT_NUM_COMPACTOR_THREADS_def MAX_NUM_COMPACTOR_THREADS_def DEFAULT_NUM_BGFLUSHER_THREADS_def
  MAX_NUM_BGFLUSHER_THREADS_def MAX_NUM_WAL_PARTITIONS_def MAX_NUM_BCACHE_PARTITIONS_def

lemma default_partitions_eq:
  "default_partitions n =
     (if n \<le> 11 then 11 else if n \<le> 31 then 31 else if n \<le> 47 then 47 else if n \<le> 73 then 73
      else if n \<le> 97 then 97 else if n \<le> 109 then 109 else if n \<le> 211 then 211
      else if n \<le> 313 then 313 else 419)"
  by (simp add: default_partitions_def prime_size_table_def Let_def)

section \<open>Properties of the configuration\<close>

text \<open>
  The default configuration passes the validation whatever number of cores the operating
  system reports, and so does the default configuration of a KV store.
\<close>

theorem default_config_valid:
  "validate_fdb_config (get_default_config num_cores) \<and> validate_fdb_kvs_config get_default_kvs_config"
proof -
  have "default_partitions num_cores \<in> {11, 31, 47, 73, 97, 109, 211, 313, 419}"
    by (simp add: default_partitions_eq)
  then show ?thesis
    by (auto simp: validate_fdb_config_def get_default_config_def validate_fdb_kvs_config_def config_consts)
qed

text \<open>
  The number of WAL and block cache partitions is an entry of the prime table; it is at least
  the number of cores when the machine has at most 419 of them, and no smaller entry is.
\<close>

theorem default_partitions_least:
  "default_partitions n \<in> set prime_size_table \<and> default_partitions n > 0 \<and>
   (n \<le> 419 \<longrightarrow> n \<le> default_partitions n) \<and>
   (\<forall>p \<in> set prime_size_table. 0 < p \<and> p < default_partitions n \<longrightarrow> p < n)"
  by (simp add: default_partitions_eq prime_size_table_def)

theorem default_partitions_least_witness: "12 \<le> default_partitions 12 \<and> default_partitions 12 = 31"
  using default_partitions_least [of 12] by (simp add: default_partitions_eq)



end
