(* ===== verification/Bitmap.thy ===== *)
theory Bitmap
  imports FDB_Prelude
begin

unbundle bit_operations_syntax

text \<open>
  The block bitmap of \<^verbatim>\<open>src/superblock.cc\<close>: one bit per block, most significant bit of a byte first,
  where a set bit marks a block that may be reused. Setting and clearing a run of blocks works
  byte-wise with precomputed masks for the first and the last byte and three ways of filling the
  bytes between. Block numbers are natural numbers; the code's unsigned 64-bit sums \<^verbatim>\<open>bid + len\<close>
  stay below the number of bits of the array.
\<close>

section \<open>Masks and updates\<close>

definition mod8 :: "nat \<Rightarrow> nat" where "mod8 x = x mod 8"
definition div8 :: "nat \<Rightarrow> nat" where "div8 x = x div 8"
definition rd8 :: "nat \<Rightarrow> nat" where "rd8 x = x div 8 * 8"

text \<open>The two mask tables, as \<^verbatim>\<open>sb_bmp_mask_init\<close> fills them.\<close>

definition bmp_basic_mask :: "byte list" where
  "bmp_basic_mask = map (\<lambda>i. push_bit (7 - i) 1) [0..<8]"

definition bmp_2d_mask :: "byte list list" where
  "bmp_2d_mask = map (\<lambda>pos. map (\<lambda>len.
     if len \<noteq> 0 \<and> pos + len \<le> 8
     then foldl (\<lambda>m i. m OR bmp_basic_mask ! (pos + i)) 0 [0..<len] else 0) [0..<9]) [0..<8]"

definition is_bmp_set :: "buf \<Rightarrow> nat \<Rightarrow> bool" where
  "is_bmp_set bmp bid \<longleftrightarrow> bmp ! div8 bid AND bmp_basic_mask ! mod8 bid \<noteq> 0"

definition bmp_mask_byte :: "buf \<Rightarrow> nat \<Rightarrow> nat \<Rightarrow> bool \<Rightarrow> buf" where
  "bmp_mask_byte bmp pos len mode =
     (let m = bmp_2d_mask ! mod8 pos ! len; b = bmp ! div8 pos
      in bmp[div8 pos := (if mode then b OR m else b AND NOT m)])"

function bmp_fill_loop :: "buf \<Rightarrow> nat \<Rightarrow> nat \<Rightarrow> nat \<Rightarrow> byte \<Rightarrow> buf" where
  "bmp_fill_loop bmp mid_pos i mid_len m =
     (if i < mid_len then bmp_fill_loop (bmp[div8 (mid_pos + i) := m]) mid_pos (i + 8) mid_len m
      else bmp)"
  by pat_completeness auto
termination by (relation "measure (\<lambda>(_, _, i, n, _). n - i)") auto

declare bmp_fill_loop.simps [simp del]

definition sb_bmp_update :: "buf \<Rightarrow> nat \<Rightarrow> nat \<Rightarrow> bool \<Rightarrow> buf" where
  "sb_bmp_update bmp bid len mode =
     (let front_pos = bid;
          front_len0 = 8 - mod8 front_pos;
          (front_len, rear_pos, rear_len, mid_pos, mid_len) =
            (if front_len0 \<ge> len then (len, 0, 0, 0, 0)
             else (front_len0, rd8 (bid + len), mod8 (bid + len), bid + front_len0,
                   len - front_len0 - mod8 (bid + len)));
          bmp1 = (if front_len \<noteq> 0 then bmp_mask_byte bmp front_pos front_len mode else bmp);
          bmp2 = (if rear_len \<noteq> 0 then bmp_mask_byte bmp1 rear_pos rear_len mode else bmp1);
          m = (if mode then 0xff else 0)
      in if mid_len = 8 then bmp2[div8 mid_pos := m]
         else if mid_len < 64 then bmp_fill_loop bmp2 mid_pos 0 mid_len m
         else mem_set bmp2 (div8 mid_pos) m (div8 mid_len))"

definition sb_bmp_set :: "buf \<Rightarrow> nat \<Rightarrow> nat \<Rightarrow> buf" where
  "sb_bmp_set bmp bid len = sb_bmp_update bmp bid len True"

definition sb_bmp_clear :: "buf \<Rightarrow> nat \<Rightarrow> nat \<Rightarrow> buf" where
  "sb_bmp_clear bmp bid len = sb_bmp_update bmp bid len False"

section \<open>Bits\<close>

lemma basic_mask_nth: "i < 8 \<Longrightarrow> bmp_basic_mask ! i = push_bit (7 - i) 1"
  by (simp add: bmp_basic_mask_def)

lemma bit_basic_mask: "i < 8 \<Longrightarrow> k < 8 \<Longrightarrow> bit (bmp_basic_mask ! i) (7 - k) \<longleftrightarrow> i = k"
  unfolding basic_mask_nth bit_push_bit_iff bit_1_iff by auto

lemma byte_all_bits: "(\<And>k. k < 8 \<Longrightarrow> bit v (7 - k) = bit w (7 - k)) \<Longrightarrow> v = (w :: byte)"
proof (rule bit_word_eqI)
  fix n assume *: "\<And>k. k < 8 \<Longrightarrow> bit v (7 - k) = bit w (7 - k)" and "n < LENGTH(8)"
  then show "bit v n = bit w n" using *[of "7 - n"] by simp
qed

lemma is_bmp_set_bit: "is_bmp_set bmp b \<longleftrightarrow> bit (bmp ! (b div 8)) (7 - b mod 8)"
proof -
  let ?m = "bmp_basic_mask ! (b mod 8)"
  have e: "bit (x AND ?m) (7 - k) \<longleftrightarrow> k = b mod 8 \<and> bit x (7 - k)" if "k < 8" for x k
    using that bit_basic_mask [of "b mod 8" k] by (auto simp: bit_and_iff)
  have "x AND ?m \<noteq> 0 \<longleftrightarrow> bit x (7 - b mod 8)" for x
  proof
    assume "x AND ?m \<noteq> 0"
    then show "bit x (7 - b mod 8)" using e [of _ x] byte_all_bits [of "x AND ?m" 0] by auto
  next
    assume "bit x (7 - b mod 8)"
    then have "bit (x AND ?m) (7 - b mod 8)" using e [of "b mod 8" x] by simp
    then show "x AND ?m \<noteq> 0" by auto
  qed
  then show ?thesis by (simp add: is_bmp_set_def div8_def mod8_def)
qed

lemma bit_2d_mask:
  assumes "pos < 8" "0 < len" "pos + len \<le> 8" "k < 8"
  shows "bit (bmp_2d_mask ! pos ! len) (7 - k) \<longleftrightarrow> pos \<le> k \<and> k < pos + len"
proof -
  have "bit (foldl (\<lambda>m i. m OR bmp_basic_mask ! (pos + i)) 0 [0..<n]) (7 - k) \<longleftrightarrow> pos \<le> k \<and> k < pos + n"
    if "pos + n \<le> 8" for n
    using that
  proof (induction n)
    case (Suc n)
    then show ?case using assms(4) bit_basic_mask [of "pos + n" k] by (auto simp: bit_or_iff)
  qed simp
  with assms show ?thesis by (simp add: bmp_2d_mask_def)
qed

lemma length_mask_byte [simp]: "length (bmp_mask_byte bmp p l mode) = length bmp"
  by (simp add: bmp_mask_byte_def Let_def)

lemma mask_byte_range:
  assumes "p mod 8 + l \<le> 8" "0 < l" "b div 8 < length bmp"
  shows "is_bmp_set (bmp_mask_byte bmp p l mode) b \<longleftrightarrow>
    (if p \<le> b \<and> b < p + l then mode else is_bmp_set bmp b)"
proof (cases "b div 8 = p div 8")
  case True
  have "p \<le> b \<and> b < p + l \<longleftrightarrow> p mod 8 \<le> b mod 8 \<and> b mod 8 < p mod 8 + l"
    using True div_mult_mod_eq [of p 8] div_mult_mod_eq [of b 8] by linarith
  then show ?thesis
    using True assms bit_2d_mask [of "p mod 8" l "b mod 8"]
    by (auto simp: is_bmp_set_bit bmp_mask_byte_def Let_def div8_def mod8_def bit_or_iff bit_and_iff bit_not_iff)
next
  case False
  then have "\<not> (p \<le> b \<and> b < p + l)"
    using assms(1) div_mult_mod_eq [of p 8] div_mult_mod_eq [of b 8] by linarith
  with False show ?thesis by (auto simp: is_bmp_set_bit bmp_mask_byte_def Let_def div8_def)
qed

lemma fill_loop_nth:
  assumes "p mod 8 = 0" "i mod 8 = 0" "n mod 8 = 0"
  shows "length (bmp_fill_loop bmp p i n m) = length bmp \<and>
    (\<forall>j < length bmp. bmp_fill_loop bmp p i n m ! j =
      (if p + i \<le> 8 * j \<and> 8 * j < p + n then m else bmp ! j))"
  using assms
proof (induction bmp p i n m rule: bmp_fill_loop.induct)
  case (1 bmp p i n m)
  show ?case
  proof (cases "i < n")
    case True
    let ?bmp = "bmp[div8 (p + i) := m]"
    obtain a c where ac: "p = 8 * a" "i = 8 * c" using 1(2,3) by (auto simp: mod_eq_0_iff_dvd elim!: dvdE)
    then have d: "(p + i) div 8 = a + c" by simp
    have step: "bmp_fill_loop bmp p i n m = bmp_fill_loop ?bmp p (i + 8) n m"
      using True bmp_fill_loop.simps [of bmp p i n m] by simp
    have IH: "length (bmp_fill_loop ?bmp p (i + 8) n m) = length ?bmp"
      "\<forall>j < length ?bmp. bmp_fill_loop ?bmp p (i + 8) n m ! j =
        (if p + (i + 8) \<le> 8 * j \<and> 8 * j < p + n then m else ?bmp ! j)"
      using 1 True by auto
    have "bmp_fill_loop bmp p i n m ! j = (if p + i \<le> 8 * j \<and> 8 * j < p + n then m else bmp ! j)"
      if "j < length bmp" for j
    proof (cases "j = (p + i) div 8")
      case e: True
      then have "8 * j = p + i" using ac d by simp
      then show ?thesis using step IH(2) that e True by (simp add: div8_def)
    next
      case False
      then have "p + (i + 8) \<le> 8 * j \<longleftrightarrow> p + i \<le> 8 * j" using ac d by auto
      then show ?thesis using step IH(2) that False by (simp add: div8_def)
    qed
    then show ?thesis using step IH(1) by simp
  qed (use bmp_fill_loop.simps [of bmp p i n m] in auto)
qed

text \<open>The three ways of filling whole bytes agree.\<close>

definition bmp_fill_bytes :: "buf \<Rightarrow> nat \<Rightarrow> nat \<Rightarrow> byte \<Rightarrow> buf" where
  "bmp_fill_bytes bmp mid_pos mid_len m =
     (if mid_len = 8 then bmp[div8 mid_pos := m]
      else if mid_len < 64 then bmp_fill_loop bmp mid_pos 0 mid_len m
      else mem_set bmp (div8 mid_pos) m (div8 mid_len))"

lemma fill_bytes_nth:
  assumes "p mod 8 = 0" "n mod 8 = 0" "p + n \<le> 8 * length bmp"
  shows "length (bmp_fill_bytes bmp p n m) = length bmp \<and>
    (\<forall>j < length bmp. bmp_fill_bytes bmp p n m ! j =
      (if p \<le> 8 * j \<and> 8 * j < p + n then m else bmp ! j))"
proof -
  obtain a c where ac: "p = 8 * a" "n = 8 * c" using assms(1,2) by (auto simp: mod_eq_0_iff_dvd elim!: dvdE)
  have r: "p \<le> 8 * j \<and> 8 * j < p + n \<longleftrightarrow> a \<le> j \<and> j < a + c" for j using ac by auto
  consider "n = 8" | "n \<noteq> 8" "n < 64" | "64 \<le> n" by linarith
  then show ?thesis
  proof cases
    case 1
    then have "c = 1" using ac by simp
    with 1 ac show ?thesis unfolding r by (auto simp: bmp_fill_bytes_def nth_list_update div8_def)
  next
    case 2
    with fill_loop_nth [of p 0 n bmp m] assms show ?thesis by (simp add: bmp_fill_bytes_def)
  next
    case 3
    have "a + c \<le> length bmp" using assms ac by simp
    then have "mem_write bmp a (replicate c m) ! j = (if a \<le> j \<and> j < a + c then m else bmp ! j)"
      if "j < length bmp" for j
      using that nth_mem_write_in [of a "replicate c m" bmp j] nth_mem_write_out [of a "replicate c m" bmp j]
      by auto
    with 3 ac \<open>a + c \<le> length bmp\<close> show ?thesis
      unfolding r by (simp add: bmp_fill_bytes_def mem_set_def div8_def length_mem_write)
  qed
qed

lemma byte_in_run:
  fixes q :: nat
  assumes "8 * q \<le> b" "b < 8 * q + 8"
  shows "8 * a \<le> 8 * q \<and> 8 * q < 8 * a + 8 * c \<longleftrightarrow> 8 * a \<le> b \<and> b < 8 * a + 8 * c"
proof -
  have "8 * x \<le> b \<longleftrightarrow> x \<le> q" for x using assms by linarith
  from this [of a] this [of "a + c"] show ?thesis by (auto simp: not_le [symmetric])
qed

lemma run_split:
  fixes q :: nat
  assumes "s < 8" "r < 8" "8 * q + s + len = 8 * t + r" "\<not> len \<le> 8 - s"
  shows "8 * q + 8 + (len - (8 - s) - r) = 8 * t" "len - (8 - s) - r = 8 * (t - (q + 1))"
proof -
  have "q + 1 \<le> t" using assms by linarith
  then obtain d where "t = q + 1 + d" using le_Suc_ex by blast
  then show "8 * q + 8 + (len - (8 - s) - r) = 8 * t" "len - (8 - s) - r = 8 * (t - (q + 1))"
    using assms by linarith+
qed

lemma fill_bytes_range:
  assumes "p mod 8 = 0" "n mod 8 = 0" "p + n \<le> 8 * length bmp" "b div 8 < length bmp"
  shows "is_bmp_set (bmp_fill_bytes bmp p n (if mode then 0xff else 0)) b \<longleftrightarrow>
    (if p \<le> b \<and> b < p + n then mode else is_bmp_set bmp b)"
proof -
  obtain a c where ac: "p = 8 * a" "n = 8 * c" using assms(1,2) by (auto simp: mod_eq_0_iff_dvd elim!: dvdE)
  have r: "p \<le> 8 * (b div 8) \<and> 8 * (b div 8) < p + n \<longleftrightarrow> p \<le> b \<and> b < p + n"
    unfolding ac by (rule byte_in_run) simp_all
  have "bit (0xff :: byte) (7 - b mod 8)"
  proof -
    have "(0xff :: byte) = mask 8" by (simp add: mask_eq_exp_minus_1)
    then show ?thesis by (simp only: bit_mask_iff) simp
  qed
  with fill_bytes_nth [OF assms(1-3)] assms(4) r show ?thesis by (simp add: is_bmp_set_bit)
qed

lemma sb_bmp_update_range:
  assumes "bid + len \<le> 8 * length bmp"
  shows "length (sb_bmp_update bmp bid len mode) = length bmp \<and>
    (\<forall>b < 8 * length bmp. is_bmp_set (sb_bmp_update bmp bid len mode) b \<longleftrightarrow>
      (if bid \<le> b \<and> b < bid + len then mode else is_bmp_set bmp b))"
proof (cases "len \<le> 8 - bid mod 8")
  case True
  then have "sb_bmp_update bmp bid len mode =
      (if len = 0 then bmp else bmp_mask_byte bmp bid len mode)"
    by (simp add: sb_bmp_update_def Let_def mod8_def bmp_fill_loop.simps)
  then show ?thesis
    using True mask_byte_range [of bid len _ bmp mode] by (auto simp: less_mult_imp_div_less mult.commute)
next
  case False
  let ?f = "8 - bid mod 8" and ?r = "(bid + len) mod 8" and ?rp = "(bid + len) div 8 * 8"
  let ?n = "len - ?f - ?r" and ?m = "bid + ?f"
  let ?b1 = "bmp_mask_byte bmp bid ?f mode"
  let ?b2 = "if ?r \<noteq> 0 then bmp_mask_byte ?b1 ?rp ?r mode else ?b1"
  have u: "sb_bmp_update bmp bid len mode = bmp_fill_bytes ?b2 ?m ?n (if mode then 0xff else 0)"
    using False by (simp add: sb_bmp_update_def Let_def mod8_def rd8_def bmp_fill_bytes_def)
  have q: "bid = 8 * (bid div 8) + bid mod 8" "bid mod 8 < 8" by simp_all
  have t: "bid + len = 8 * ((bid + len) div 8) + ?r" "?r < 8" by simp_all
  have m: "?m = 8 * (bid div 8) + 8" using q by linarith
  have qt: "8 * (bid div 8) + bid mod 8 + len = 8 * ((bid + len) div 8) + ?r" using q t by simp
  note rs = run_split [OF q(2) t(2) qt False]
  have e: "?m + ?n = ?rp" "?rp + ?r = bid + len" "?n = 8 * ((bid + len) div 8 - (bid div 8 + 1))"
    unfolding m using rs by simp_all
  have mods: "?m mod 8 = 0" "?n mod 8 = 0" unfolding m e(3) by simp_all
  have len1: "length ?b2 = length bmp" by simp
  have len2: "?m + ?n \<le> 8 * length ?b2" unfolding len1 using e(1,2) assms by linarith
  have "is_bmp_set (sb_bmp_update bmp bid len mode) b \<longleftrightarrow>
      (if bid \<le> b \<and> b < bid + len then mode else is_bmp_set bmp b)" if b: "b div 8 < length bmp" for b
  proof -
    have 1: "is_bmp_set ?b1 b \<longleftrightarrow> (if bid \<le> b \<and> b < ?m then mode else is_bmp_set bmp b)"
      using q(2) b by (intro mask_byte_range) simp_all
    have 2: "is_bmp_set ?b2 b \<longleftrightarrow> (if ?rp \<le> b \<and> b < ?rp + ?r then mode else is_bmp_set ?b1 b)"
      using mask_byte_range [of ?rp ?r b ?b1 mode] b t(2) by auto
    have 3: "is_bmp_set (sb_bmp_update bmp bid len mode) b \<longleftrightarrow>
        (if ?m \<le> b \<and> b < ?m + ?n then mode else is_bmp_set ?b2 b)"
      unfolding u using fill_bytes_range [OF mods len2] b len1 by (simp del: if_split)
    show ?thesis unfolding 3 2 1 e(2) using e(1,2) by auto
  qed
  moreover have "length (sb_bmp_update bmp bid len mode) = length bmp"
    unfolding u using fill_bytes_nth [OF mods len2] len1 by simp
  ultimately show ?thesis by (auto simp: less_mult_imp_div_less mult.commute)
qed

section \<open>Properties of the bitmap\<close>

text \<open>
  C13. Setting (clearing) a run of blocks makes exactly the blocks of the run set (clear) and
  leaves every other block of the bitmap as it was, for every alignment and length of the run, so
  that the mask tables and the three ways of filling the middle bytes are right.
\<close>

theorem bmp_set_clear_run:
  assumes "bid + len \<le> 8 * length bmp" "b < 8 * length bmp"
  shows "(is_bmp_set (sb_bmp_set bmp bid len) b \<longleftrightarrow> bid \<le> b \<and> b < bid + len \<or> is_bmp_set bmp b) \<and>
    (is_bmp_set (sb_bmp_clear bmp bid len) b \<longleftrightarrow> \<not> (bid \<le> b \<and> b < bid + len) \<and> is_bmp_set bmp b)"
  using sb_bmp_update_range [OF assms(1), of True] sb_bmp_update_range [OF assms(1), of False] assms(2)
  by (auto simp: sb_bmp_set_def sb_bmp_clear_def)

theorem bmp_set_clear_run_witness:
  "is_bmp_set (sb_bmp_set (replicate 16 0) 5 100) 77 \<and> \<not> is_bmp_set (sb_bmp_clear (replicate 16 0) 5 100) 4"
proof -
  have "\<not> is_bmp_set (replicate 16 0) 4" by (simp add: is_bmp_set_def div8_def)
  with bmp_set_clear_run [of 5 100 "replicate 16 0" 77] bmp_set_clear_run [of 5 100 "replicate 16 0" 4]
  show ?thesis by simp
qed

end
