(* ===== verification/Bitmap_Index.thy ===== *)
theory Bitmap_Index
  imports Hash_Table Bitmap
begin

unbundle bit_operations_syntax

text \<open>
  The supplementary index over the block bitmap (\<^verbatim>\<open>struct bmp_idx_node\<close> in \<^verbatim>\<open>src/superblock.cc\<close>): a
  balanced tree of the numbers of the 256-block groups that contain reusable blocks, which the
  allocator uses to find the next such group without scanning. Node numbers are natural numbers
  below \<open>2 ^ 64\<close> and are compared as the code does, as unsigned 64-bit integers.
\<close>

section \<open>Index operations\<close>

definition bmp_idx_cmp :: "nat \<Rightarrow> nat \<Rightarrow> int" where
  "bmp_idx_cmp a b = CMP_U64 (of_nat a) (of_nat b)"

function add_bmp_idx_loop :: "nat avl \<Rightarrow> nat \<Rightarrow> nat \<Rightarrow> nat avl" where
  "add_bmp_idx_loop t cur stop_id =
     (if cur \<le> stop_id
      then add_bmp_idx_loop
             (case avl_search bmp_idx_cmp t cur of
                Some _ \<Rightarrow> t | None \<Rightarrow> fst (avl_insert bmp_idx_cmp t cur)) (Suc cur) stop_id
      else t)"
  by pat_completeness auto
termination by (relation "measure (\<lambda>(_, cur, stop_id). Suc stop_id - cur)") auto

declare add_bmp_idx_loop.simps [simp del]

definition add_bmp_idx :: "nat avl \<Rightarrow> nat \<Rightarrow> nat \<Rightarrow> nat avl" where
  "add_bmp_idx t bid count = add_bmp_idx_loop t (bid div 256) ((bid + count + (2 ^ 64 - 1)) mod 2 ^ 64 div 256)"

text \<open>\<^verbatim>\<open>_free_bmp_idx\<close> is the same walk-and-remove loop as the one that frees a hash bucket.\<close>

definition free_bmp_idx :: "nat avl \<Rightarrow> nat avl" where
  "free_bmp_idx t = fst (free_bucket (length (inorder t)) t (map_option (el \<circ> fst) (avl_first t)))"

text \<open>
  \<^verbatim>\<open>_construct_bmp_idx\<close>. Both loops move their variable past the current node and then increment
  it once more, as the \<^verbatim>\<open>for\<close> statement does, and the second one keeps the byte index in a
  \<^verbatim>\<open>uint8_t\<close>.
\<close>

definition bmp64_nonzero :: "buf \<Rightarrow> nat \<Rightarrow> bool" where
  "bmp64_nonzero bmp i \<longleftrightarrow> mem_word (mem_read bmp (8 * i) 8) \<noteq> (0 :: u64)"

function construct_groups :: "nat avl \<Rightarrow> buf \<Rightarrow> nat \<Rightarrow> nat \<Rightarrow> nat avl" where
  "construct_groups t bmp i n =
     (if i < n then
        (if bmp64_nonzero bmp i
         then construct_groups (fst (avl_insert bmp_idx_cmp t (i div 4))) bmp (Suc ((i div 4 + 1) * 4)) n
         else construct_groups t bmp (Suc i) n)
      else t)"
  by pat_completeness auto
termination by (relation "measure (\<lambda>(_, _, i, n). n - i)") auto

function construct_bits :: "nat avl \<Rightarrow> buf \<Rightarrow> nat \<Rightarrow> nat \<Rightarrow> nat avl" where
  "construct_bits t bmp i n =
     (if i < n then
        (if bmp ! (div8 i mod 256) AND bmp_basic_mask ! mod8 i \<noteq> 0
         then construct_bits (fst (avl_insert bmp_idx_cmp t (i div 256))) bmp (Suc ((i div 256 + 1) * 256)) n
         else construct_bits t bmp (Suc i) n)
      else t)"
  by pat_completeness auto
termination
proof (relation "measure (\<lambda>(_, _, i, n). n - i)")
  fix i n :: nat and t :: "nat avl" and bmp
  assume "i < n"
  have "i < (i div 256 + 1) * 256" by (simp add: dividend_less_times_div)
  with \<open>i < n\<close> show "((fst (avl_insert bmp_idx_cmp t (i div 256)), bmp, Suc ((i div 256 + 1) * 256), n), t, bmp, i, n)
    \<in> measure (\<lambda>(_, _, i, n). n - i)" by simp
qed auto

declare construct_groups.simps [simp del] construct_bits.simps [simp del]

definition BLK_NOT_FOUND :: nat where "BLK_NOT_FOUND = 2 ^ 64 - 1"

definition construct_bmp_idx :: "nat avl \<Rightarrow> buf \<Rightarrow> nat \<Rightarrow> nat \<Rightarrow> nat avl" where
  "construct_bmp_idx t bmp bmp_size start_bid0 =
     (let start_bid = (if start_bid0 = BLK_NOT_FOUND then 0 else start_bid0);
          t1 = construct_groups t bmp (start_bid div 64) (bmp_size div 64)
      in if bmp_size mod 64 \<noteq> 0 then
           (let start = bmp_size div 64 * 64;
                start' = (if start < start_bid then start_bid else start)
            in construct_bits t1 bmp start' bmp_size)
         else t1)"

section \<open>The index as a sorted set of node numbers\<close>

definition idx_valid :: "nat avl \<Rightarrow> bool" where
  "idx_valid t \<longleftrightarrow> avl_valid bmp_idx_cmp t \<and> (\<forall>x \<in> set (inorder t). x < 2 ^ 64)"

interpretation bmp_idx: cmp_order bmp_idx_cmp
  using u64_cmp.cmp_anti u64_cmp.cmp_trans by unfold_locales (auto simp: bmp_idx_cmp_def)

lemma bmp_idx_cmp_eq: "a < 2 ^ 64 \<Longrightarrow> b < 2 ^ 64 \<Longrightarrow> bmp_idx_cmp a b = 0 \<longleftrightarrow> a = b"
  by (auto simp: bmp_idx_cmp_def CMP_U64_sign word_of_nat_eq_iff take_bit_nat_eq_self)

lemma bmp_idx_cmp_less: "a < 2 ^ 64 \<Longrightarrow> b < 2 ^ 64 \<Longrightarrow> bmp_idx_cmp a b < 0 \<longleftrightarrow> a < b"
  by (auto simp: bmp_idx_cmp_def CMP_U64_sign word_of_nat_less_iff take_bit_nat_eq_self)

lemma idx_valid_Null [simp]: "idx_valid Null"
  by (simp add: idx_valid_def avl_valid_def)

lemma idx_search:
  assumes "idx_valid t" "k < 2 ^ 64"
  shows "avl_search bmp_idx_cmp t k = None \<longleftrightarrow> k \<notin> set (inorder t)"
  using assms bmp_idx.search_None [of t k] bmp_idx_cmp_eq by (fastforce simp: idx_valid_def)

lemma idx_insert:
  assumes "idx_valid t" "k < 2 ^ 64"
  shows "idx_valid (fst (avl_insert bmp_idx_cmp t k)) \<and>
    set (inorder (fst (avl_insert bmp_idx_cmp t k))) = insert k (set (inorder t))"
proof (cases "k \<in> set (inorder t)")
  case True
  then show ?thesis
    using assms bmp_idx.insert_dup [of t k k] by (auto simp: idx_valid_def)
next
  case False
  then have "\<forall>y \<in> set (inorder t). bmp_idx_cmp y k \<noteq> 0"
    using assms bmp_idx_cmp_eq by (fastforce simp: idx_valid_def)
  with assms bmp_idx.insert_new [of t k] bmp_idx.descend_None_split [of t k] show ?thesis
    by (auto simp: idx_valid_def)
qed

lemma idx_remove:
  assumes "idx_valid t" "k < 2 ^ 64" "avl_search bmp_idx_cmp t k = Some c"
  shows "idx_valid (avl_remove c) \<and> set (inorder (avl_remove c)) = set (inorder t) - {k}"
  using assms bmp_idx.remove_found [of t k c] bmp_idx_cmp_eq by (fastforce simp: idx_valid_def)

lemma idx_sorted:
  assumes "idx_valid t"
  shows "sorted_wrt (<) (inorder t)"
proof -
  have "sorted_wrt (\<lambda>a b. bmp_idx_cmp a b < 0) (inorder t)"
    using assms by (simp add: idx_valid_def avl_valid_def)
  then show ?thesis
    by (rule sorted_wrt_mono_rel [rotated]) (use assms bmp_idx_cmp_less in \<open>auto simp: idx_valid_def\<close>)
qed

lemma idx_first:
  assumes "idx_valid t"
  shows "map_option (el \<circ> fst) (avl_first t) =
    (if inorder t = [] then None else Some (Min (set (inorder t))))"
proof (cases "inorder t")
  case (Cons x xs)
  have "Min (set (x # xs)) = x"
    using idx_sorted [OF assms] Cons by (intro Min_eqI) (auto simp: less_imp_le)
  with Cons show ?thesis by (simp add: avl_first_spec)
qed (simp add: avl_first_spec)

lemma idx_distinct: "idx_valid t \<Longrightarrow> distinct (inorder t)"
  using idx_sorted strict_sorted_iff by blast

lemma free_bmp_idx_Null: "idx_valid t \<Longrightarrow> free_bmp_idx t = Null"
  using free_bucket_all [OF idx_distinct order.refl, of t] by (simp add: free_bmp_idx_def avl_first_spec)

lemma add_bmp_idx_loop_set:
  assumes "idx_valid t" "stop_id < 2 ^ 64"
  shows "idx_valid (add_bmp_idx_loop t cur stop_id) \<and>
    set (inorder (add_bmp_idx_loop t cur stop_id)) = set (inorder t) \<union> {cur..stop_id}"
  using assms
proof (induction t cur stop_id rule: add_bmp_idx_loop.induct)
  case (1 t cur stop_id)
  let ?t = "case avl_search bmp_idx_cmp t cur of Some _ \<Rightarrow> t | None \<Rightarrow> fst (avl_insert bmp_idx_cmp t cur)"
  show ?case
  proof (cases "cur \<le> stop_id")
    case True
    then have "idx_valid ?t \<and> set (inorder ?t) = insert cur (set (inorder t))"
      using 1(2,3) idx_insert [of t cur] idx_search [of t cur] by (auto split: option.splits)
    moreover have "{cur..stop_id} = insert cur {Suc cur..stop_id}" using True by auto
    ultimately show ?thesis
      using 1(1) [OF True] 1(3) True by (subst (1 2) add_bmp_idx_loop.simps) simp
  next
    case False
    then show ?thesis using 1(2) add_bmp_idx_loop.simps [of t cur stop_id] by simp
  qed
qed

lemma add_bmp_idx_set:
  assumes "idx_valid t" "0 < count" "bid + count \<le> 2 ^ 64"
  shows "idx_valid (add_bmp_idx t bid count) \<and>
    set (inorder (add_bmp_idx t bid count)) = set (inorder t) \<union> (\<lambda>b. b div 256) ` {bid..<bid + count}"
proof -
  have "(bid + count + (2 ^ 64 - 1)) mod 2 ^ 64 = bid + count - 1"
  proof -
    have "bid + count + (2 ^ 64 - 1) = (bid + count - 1) + 2 ^ 64" using assms by simp
    moreover have "bid + count - 1 < 2 ^ 64" using assms by simp
    ultimately show ?thesis by (simp only: mod_add_self2 mod_less)
  qed
  moreover have "(bid + count - 1) div 256 < 2 ^ 64" using assms by (intro le_less_trans [OF div_le_dividend]) simp
  moreover have "{bid div 256..(bid + count - 1) div 256} = (\<lambda>b. b div 256) ` {bid..<bid + count}"
  proof (intro equalityI subsetI)
    fix x assume x: "x \<in> {bid div 256..(bid + count - 1) div 256}"
    let ?b = "max bid (256 * x)"
    have "?b div 256 = x" using x by (auto simp: max_def) 
    moreover have "?b \<in> {bid..<bid + count}" using x assms(2) by auto
    ultimately show "x \<in> (\<lambda>b. b div 256) ` {bid..<bid + count}" by (metis imageI)
  qed (auto intro!: div_le_mono)
  ultimately show ?thesis
    using add_bmp_idx_loop_set [OF assms(1)] by (simp add: add_bmp_idx_def)
qed

section \<open>Rebuilding the index from a bitmap\<close>

lemma bmp64_nonzero_set:
  assumes "bmp64_nonzero bmp i" "8 * i + 8 \<le> length bmp"
  obtains b where "b div 64 = i" "is_bmp_set bmp b"
proof -
  let ?w = "mem_read bmp (8 * i) 8"
  obtain n where n: "n < 64" "bit (mem_word ?w :: u64) n"
    using assms(1) bit_eq_iff [of "mem_word ?w :: u64" 0] bit_imp_le_length
    by (fastforce simp: bmp64_nonzero_def)
  have l: "length ?w = 8" using assms(2) by (simp add: mem_read_def)
  define q m where "q = n div 8" and "m = n mod 8"
  have qm: "q < 8" "m < 8" using n(1) by (auto simp: q_def m_def)
  let ?b = "(8 * i + q) * 8 + (7 - m)"
  have "?w ! q = bmp ! (8 * i + q)" using qm(1) assms(2) by (simp add: mem_read_def)
  then have "bit (bmp ! (8 * i + q)) m" using n(2) unfolding bit_mem_word by (simp add: q_def m_def)
  moreover have "?b div 8 = 8 * i + q" "?b mod 8 = 7 - m" by (simp_all only: mod_mult_self3 div_mult_self3) simp_all
  moreover have "7 - (7 - m) = m" using qm(2) by simp
  ultimately have "is_bmp_set bmp ?b" by (simp only: is_bmp_set_bit)
  moreover have "?b div 64 = i"
  proof -
    have "?b = i * 64 + (8 * q + (7 - m))" "8 * q + (7 - m) < 64" using qm by auto
    then show ?thesis by simp
  qed
  ultimately show thesis using that by blast
qed

lemma construct_groups_sound:
  assumes "idx_valid t" "n < 2 ^ 64"
  shows "idx_valid (construct_groups t bmp i n) \<and>
    (\<forall>x \<in> set (inorder (construct_groups t bmp i n)).
       x \<in> set (inorder t) \<or> (\<exists>j < n. j div 4 = x \<and> bmp64_nonzero bmp j))"
  using assms
proof (induction t bmp i n rule: construct_groups.induct)
  case (1 t bmp i n)
  consider "i < n" "bmp64_nonzero bmp i" | "i < n" "\<not> bmp64_nonzero bmp i" | "\<not> i < n" by blast
  then show ?case
  proof cases
    case 1
    have "i div 4 < 2 ^ 64" using 1(1) "1.prems"(2) by (intro le_less_trans [OF div_le_dividend]) simp
    with idx_insert [of t "i div 4"] "1.prems"
    have t': "idx_valid (fst (avl_insert bmp_idx_cmp t (i div 4)))"
      "set (inorder (fst (avl_insert bmp_idx_cmp t (i div 4)))) = insert (i div 4) (set (inorder t))" by auto
    from "1.IH"(1) [OF 1 t'(1) "1.prems"(2)] 1 t'(2) show ?thesis
      by (subst (1 2) construct_groups.simps) auto
  next
    case 2
    with "1.IH"(2) [OF 2 "1.prems"] show ?thesis by (subst (1 2) construct_groups.simps) simp
  next
    case 3
    with "1.prems" show ?thesis by (subst (1 2) construct_groups.simps) simp
  qed
qed

lemma mem_word_zeros [simp]: "mem_word (replicate n 0) = 0"
  by (induction n) simp_all

lemma replicate_rec_8: "replicate 8 x = x # replicate 7 x"
  by (simp add: numeral_eq_Suc)

section \<open>Properties of the bitmap index\<close>

text \<open>
  C27. Registering a run of reusable blocks adds exactly the numbers of the 256-block groups that
  the run touches, keeps the index a valid ordered tree, and the first node of the index is the
  smallest group number; emptying the index leaves no node.
\<close>

theorem add_bmp_idx_groups:
  assumes "idx_valid t" "0 < count" "bid + count \<le> 2 ^ 64"
  shows "idx_valid (add_bmp_idx t bid count) \<and>
    set (inorder (add_bmp_idx t bid count)) = set (inorder t) \<union> (\<lambda>b. b div 256) ` {bid..<bid + count} \<and>
    map_option (el \<circ> fst) (avl_first (add_bmp_idx t bid count)) =
      Some (Min (set (inorder t) \<union> (\<lambda>b. b div 256) ` {bid..<bid + count})) \<and>
    free_bmp_idx (add_bmp_idx t bid count) = Null"
proof -
  note a = add_bmp_idx_set [OF assms]
  have "inorder (add_bmp_idx t bid count) \<noteq> []"
    using a assms(2) by (metis Un_empty atLeastLessThan_empty_iff image_is_empty less_add_same_cancel1 set_empty)
  with a show ?thesis by (simp add: idx_first free_bmp_idx_Null del: inorder_Nil)
qed

theorem add_bmp_idx_groups_witness:
  "set (inorder (add_bmp_idx Null 200 100)) = {0, 1}"
proof -
  have "(\<lambda>b. b div 256) ` {200..<300::nat} = {0, 1}"
  proof -
    have "1 \<in> (\<lambda>b. b div 256) ` {200..<300::nat}" by (rule rev_image_eqI [of 256]) simp_all
    moreover have "0 \<in> (\<lambda>b. b div 256) ` {200..<300::nat}" by (rule rev_image_eqI [of 200]) simp_all
    moreover have "b div 256 \<le> 1" if "b < 300" for b :: nat using that by linarith
    ultimately show ?thesis by fastforce
  qed
  then show ?thesis using add_bmp_idx_groups [of Null 100 200] by simp
qed



text \<open>
  C29. The reconstruction can miss groups that have reusable blocks. After it has registered a
  group it moves its loop variable to the first position of the next group and increments it once
  more, so a next group whose only set bits are in its first 64 blocks is lost; and the byte
  index of the remaining bits is kept in eight bits, so that bits from block 2048 on are looked up
  in the wrong byte.
\<close>

theorem construct_bmp_idx_misses:
  "(let bmp = (replicate 64 0)[0 := 0x80, 32 := 0x80] in
    is_bmp_set bmp 256 \<and> inorder (construct_bmp_idx Null bmp 512 0) = [0]) \<and>
   (let bmp = (replicate 257 0)[256 := 0x80] in
    is_bmp_set bmp 2048 \<and> inorder (construct_bits Null bmp 2048 2049) = [])"
proof -
  have 1: "is_bmp_set ((replicate 64 0)[0 := 0x80, 32 := 0x80]) 256"
    "is_bmp_set ((replicate 257 0)[256 := 0x80]) 2048"
    by (simp_all add: is_bmp_set_def div8_def mod8_def bmp_basic_mask_def)
  have 2: "inorder (construct_bits Null ((replicate 257 0)[256 := 0x80]) 2048 2049) = []"
    by (simp add: construct_bits.simps div8_def)
  let ?b = "(replicate 64 0)[0 := 0x80, 32 := 0x80] :: buf"
  have r: "mem_read ?b 0 8 = 128 # replicate 7 0" "mem_read ?b 40 8 = replicate 8 0"
    "mem_read ?b 48 8 = replicate 8 0" "mem_read ?b 56 8 = replicate 8 0"
    by (simp_all add: mem_read_def take_update_swap drop_update_swap replicate_rec_8
        list_update_beyond)
  have z: "bmp64_nonzero ?b 0" "\<not> bmp64_nonzero ?b 5" "\<not> bmp64_nonzero ?b 6" "\<not> bmp64_nonzero ?b 7"
    by (simp_all add: bmp64_nonzero_def r)
  have "construct_groups Null ?b 0 8 = construct_groups (Nd Null 0 0 Null) ?b 5 8"
    using z(1) by (subst construct_groups.simps) (simp add: avl_insert_def balance_tree.simps)
  also have "\<dots> = construct_groups (Nd Null 0 0 Null) ?b 6 8"
    using z(2) by (subst construct_groups.simps) simp
  also have "\<dots> = construct_groups (Nd Null 0 0 Null) ?b 7 8"
    using z(3) by (subst construct_groups.simps) simp
  also have "\<dots> = Nd Null 0 0 Null"
    using z(4) by (subst construct_groups.simps) (simp add: construct_groups.simps)
  finally have "construct_groups Null ?b 0 8 = Nd Null 0 0 Null" .
  then have "inorder (construct_bmp_idx Null ?b 512 0) = [0]"
    by (simp add: construct_bmp_idx_def Let_def BLK_NOT_FOUND_def)
  with 1 2 show ?thesis by (simp only: Let_def simp_thms)
qed

end
