(* ===== verification/Doc_Format.thy ===== *)
theory Doc_Format
  imports Bitwise Checksum
begin

text \<open>
  The on-disk image of a document (\<^verbatim>\<open>src/docio.h\<close> and the encoding part of \<^verbatim>\<open>src/docio.cc\<close>): the
  16-byte length structure with its one-byte checksum, then key, timestamp, sequence number,
  metadata, body and a 32-bit checksum of all of it. The build has \<^verbatim>\<open>__ENDIAN_SAFE\<close>, \<^verbatim>\<open>__CRC32\<close> and
  \<^verbatim>\<open>DOCIO_LEN_STRUCT_ALIGN\<close> set and no document compression.
\<close>

section \<open>Structures\<close>

record docio_length =
  keylen :: u16
  metalen :: u16
  bodylen :: u32
  bodylen_ondisk :: u32
  flag :: byte
  checksum :: byte
  reserved :: u16

text \<open>The sequence number shares its storage with the offset of a committed document.\<close>

record docio_object =
  doc_len :: docio_length
  timestamp :: u32
  doc_key :: buf
  seqnum :: u64
  doc_meta :: buf
  doc_body :: buf

definition DOCIO_NORMAL :: byte where "DOCIO_NORMAL = 0x00"
definition DOCIO_COMPACT :: byte where "DOCIO_COMPACT = 0x01"
definition DOCIO_COMPRESSED :: byte where "DOCIO_COMPRESSED = 0x02"
definition DOCIO_DELETED :: byte where "DOCIO_DELETED = 0x04"
definition DOCIO_TXN_DIRTY :: byte where "DOCIO_TXN_DIRTY = 0x08"
definition DOCIO_TXN_COMMITTED :: byte where "DOCIO_TXN_COMMITTED = 0x10"
definition DOCIO_SYSTEM :: byte where "DOCIO_SYSTEM = 0x20"
definition FDB_MAX_KEYLEN_INTERNAL :: u16 where "FDB_MAX_KEYLEN_INTERNAL = 65520"

definition zero_length :: docio_length where
  "zero_length = \<lparr>keylen = 0, metalen = 0, bodylen = 0, bodylen_ondisk = 0, flag = 0, checksum = 0, reserved = 0\<rparr>"

definition fdb_get_docsize :: "docio_length \<Rightarrow> nat" where
  "fdb_get_docsize len = unat (keylen len) + unat (metalen len) + unat (bodylen_ondisk len) + 16 + 4 + 8 + 4"

section \<open>Length structure\<close>

definition docio_length_encode :: "docio_length \<Rightarrow> docio_length" where
  "docio_length_encode len = len\<lparr>keylen := enc16 (keylen len), metalen := enc16 (metalen len),
     bodylen := enc32 (bodylen len), bodylen_ondisk := enc32 (bodylen_ondisk len)\<rparr>"

definition docio_length_decode :: "docio_length \<Rightarrow> docio_length" where
  "docio_length_decode len = len\<lparr>keylen := dec16 (keylen len), metalen := dec16 (metalen len),
     bodylen := dec32 (bodylen len), bodylen_ondisk := dec32 (bodylen_ondisk len)\<rparr>"

text \<open>The memory image of the structure and the structure that a copy of 16 bytes yields.\<close>

definition length_mem :: "docio_length \<Rightarrow> buf" where
  "length_mem len = word_mem 2 (keylen len) @ word_mem 2 (metalen len) @ word_mem 4 (bodylen len) @
     word_mem 4 (bodylen_ondisk len) @ [flag len, checksum len] @ word_mem 2 (reserved len)"

definition mem_length :: "buf \<Rightarrow> docio_length" where
  "mem_length b = \<lparr>keylen = mem_word (mem_read b 0 2), metalen = mem_word (mem_read b 2 2),
     bodylen = mem_word (mem_read b 4 4), bodylen_ondisk = mem_word (mem_read b 8 4),
     flag = b ! 12, checksum = b ! 13, reserved = mem_word (mem_read b 14 2)\<rparr>"

text \<open>Checksum over the first twelve bytes, the four length fields.\<close>

definition docio_length_checksum :: "docio_length \<Rightarrow> crc_mode_e \<Rightarrow> byte option" where
  "docio_length_checksum len mode = map_option ucast (get_checksum_mode (length_mem len) 12 mode)"

section \<open>Document image\<close>

definition doc_image :: "docio_object \<Rightarrow> crc_mode_e \<Rightarrow> (docio_length \<times> buf) option" where
  "doc_image doc mode =
     (let len = (doc_len doc)\<lparr>bodylen_ondisk := bodylen (doc_len doc)\<rparr>;
          enc = docio_length_encode len
      in case docio_length_checksum enc mode of
           None \<Rightarrow> None
         | Some c \<Rightarrow>
             (let body = length_mem (enc\<lparr>checksum := c\<rparr>) @ take (unat (keylen len)) (doc_key doc) @
                    word_mem 4 (enc32 (timestamp doc)) @ word_mem 8 (enc64 (seqnum doc)) @
                    take (unat (metalen len)) (doc_meta doc) @ take (unat (bodylen len)) (doc_body doc)
              in case get_checksum_mode body (length body) mode of
                   None \<Rightarrow> None
                 | Some crc \<Rightarrow> Some (len, body @ word_mem 4 crc)))"

definition commit_mark_image :: "u64 \<Rightarrow> crc_mode_e \<Rightarrow> buf option" where
  "commit_mark_image doc_offset mode =
     (let enc = docio_length_encode (zero_length\<lparr>flag := DOCIO_TXN_COMMITTED\<rparr>)
      in case docio_length_checksum enc mode of
           None \<Rightarrow> None
         | Some c \<Rightarrow> Some (length_mem (enc\<lparr>checksum := c\<rparr>) @ word_mem 8 (enc64 doc_offset)))"

section \<open>Round trips of the structure\<close>

lemma length_length_mem [simp]: "length (length_mem len) = 16"
  by (simp add: length_mem_def)

lemma mem_word_2 [simp]: "mem_word (word_mem 2 w) = (w :: u16)"
  by (rule mem_word_word_mem) simp

lemma mem_word_4 [simp]: "mem_word (word_mem 4 w) = (w :: u32)"
  by (rule mem_word_word_mem) simp

lemma mem_word_8 [simp]: "mem_word (word_mem 8 w) = (w :: u64)"
  by (rule mem_word_word_mem) simp

lemma mem_length_length_mem [simp]: "mem_length (length_mem len @ rest) = len"
  by (cases len) (simp add: mem_length_def length_mem_def mem_read_def nth_append)

lemma length_decode_encode [simp]: "docio_length_decode (docio_length_encode len) = len"
  by (cases len) (simp add: docio_length_decode_def docio_length_encode_def)

end
