(* ===== verification/Superblock.thy ===== *)
theory Superblock
  imports Bitmap_Index Version Configuration Doc_Format
begin

text \<open>
  The in-memory superblock of \<^verbatim>\<open>src/superblock.cc\<close> and \<^verbatim>\<open>src/superblock.h\<close>: the bitmap of reusable blocks
  with its allocation cursor, the reserved bitmap that replaces it, and the decisions when to
  reclaim. Integers are natural numbers; the few places where the code's unsigned arithmetic
  wraps are written out. What the superblock asks of the file manager is recorded as a sequence
  of calls. Values that the code obtains from other layers (the list of reusable blocks, the
  smallest live header, the live data size) are arguments.
\<close>

section \<open>State\<close>

datatype rsv_status = SB_RSV_VOID | SB_RSV_INITIALIZING | SB_RSV_WRITING | SB_RSV_READY

record sb_rsv_bmp =
  rsv_bmp_revnum :: nat
  rsv_bmp_size :: nat
  rsv_bmp :: "buf option"
  rsv_bmp_idx :: "nat avl"
  rsv_bmp_doc_offset :: "nat list option"
  rsv_bmp_docs :: "docio_length list"
  rsv_num_bmp_docs :: nat
  rsv_num_free_blocks :: nat
  rsv_cur_alloc_bid :: nat
  rsv_min_live_hdr_revnum :: nat
  rsv_min_live_hdr_bid :: nat
  status :: rsv_status

record superblock =
  num_sb :: nat
  revnum :: nat
  bmp_revnum :: nat
  bmp_size :: nat
  bmp :: "buf option"
  bmp_prev_size :: nat
  bmp_prev :: "buf option"
  bmp_idx :: "nat avl"
  bmp_doc_offset :: "nat list option"
  bmp_docs :: "docio_length list"
  num_bmp_docs :: nat
  num_init_free_blocks :: nat
  num_free_blocks :: nat
  rsv :: "sb_rsv_bmp option"
  cur_alloc_bid :: nat
  last_hdr_bid :: nat
  min_live_hdr_revnum :: nat
  min_live_hdr_bid :: nat
  last_hdr_revnum :: nat
  num_alloc :: nat

datatype file_status = FILE_NORMAL | FILE_COMPACT_OLD | FILE_COMPACT_NEW | FILE_CLOSED | FILE_REMOVED_PENDING

text \<open>
  The operating system's positioned write and read, which the file manager calls through
  \<^verbatim>\<open>file->ops\<close>: given the file contents they return the new contents, or the bytes read, with the
  call's result.
\<close>

record filemgr_ops =
  ops_pwrite :: "buf \<Rightarrow> buf \<Rightarrow> nat \<Rightarrow> buf \<times> int"
  ops_pread :: "buf \<Rightarrow> nat \<Rightarrow> nat \<Rightarrow> buf \<times> int"

text \<open>The behaviour that POSIX documents for calls that do not fail.\<close>

definition posix_pwrite :: "buf \<Rightarrow> buf \<Rightarrow> nat \<Rightarrow> buf \<times> int" where
  "posix_pwrite d src off =
     (mem_write (d @ replicate (off + length src - length d) 0) off src, int (length src))"

definition posix_pread :: "buf \<Rightarrow> nat \<Rightarrow> nat \<Rightarrow> buf \<times> int" where
  "posix_pread d off n = (mem_read d off n, int (length (mem_read d off n)))"

definition posix_ops :: filemgr_ops where
  "posix_ops = \<lparr>ops_pwrite = posix_pwrite, ops_pread = posix_pread\<rparr>"

text \<open>
  What the superblock, the document layer and the allocator use of \<^verbatim>\<open>struct filemgr\<close>, together with
  the file contents, and what they use of the key-value store handle.
\<close>

record filemgr =
  fm_sb :: "superblock option"
  fm_blocksize :: nat
  fm_pos :: nat
  fm_last_commit :: nat
  fm_last_writable_bmp_revnum :: nat
  fm_status :: file_status
  fm_block_reusing_threshold :: nat
  fm_num_keeping_headers :: nat
  fm_version :: u64
  fm_crc_mode :: crc_mode_e
  fm_ops :: filemgr_ops
  fm_data :: buf
  fm_stale_list :: "(nat \<times> nat) list option"

record fdb_kvs_handle =
  h_file :: filemgr
  h_config :: fdb_config
  h_last_hdr_bid :: nat
  h_cur_header_revnum :: nat

text \<open>The calls into the file manager and the stale block manager, in the order they are made.\<close>

datatype fm_call =
    Mark_stale nat nat
  | Add_stale_block nat nat
  | File_sync
  | Gather_stale_blocks nat

definition SB_MAX_BITMAP_DOC_SIZE :: nat where "SB_MAX_BITMAP_DOC_SIZE = 1048576"
definition SB_DEFAULT_NUM_SUPERBLOCKS :: nat where "SB_DEFAULT_NUM_SUPERBLOCKS = 4"
definition SB_SYNC_PERIOD :: nat where "SB_SYNC_PERIOD = 4194304"
definition SB_MIN_BLOCK_REUSING_FILESIZE :: nat where "SB_MIN_BLOCK_REUSING_FILESIZE = 16777216"
definition SB_PRE_RECLAIM_RATIO :: nat where "SB_PRE_RECLAIM_RATIO = 10"

definition sb_bmp_exists :: "superblock \<Rightarrow> bool" where
  "sb_bmp_exists sb \<longleftrightarrow> bmp_size sb \<noteq> 0"

definition bmp_size_to_num_docs :: "nat \<Rightarrow> nat" where
  "bmp_size_to_num_docs n =
     (if n \<noteq> 0 then (n + 8 * SB_MAX_BITMAP_DOC_SIZE - 1) div (8 * SB_MAX_BITMAP_DOC_SIZE) else 0)"

definition sb_init_state :: "nat \<Rightarrow> superblock" where
  "sb_init_state n = \<lparr>num_sb = n, revnum = 0, bmp_revnum = 0, bmp_size = 0, bmp = None,
     bmp_prev_size = 0, bmp_prev = None, bmp_idx = root (avl_init ()), bmp_doc_offset = None,
     bmp_docs = [], num_bmp_docs = 0, num_init_free_blocks = 0, num_free_blocks = 0, rsv = None,
     cur_alloc_bid = BLK_NOT_FOUND, last_hdr_bid = BLK_NOT_FOUND, min_live_hdr_revnum = 0,
     min_live_hdr_bid = BLK_NOT_FOUND, last_hdr_revnum = 0, num_alloc = 0\<rparr>"

section \<open>Switching to the reserved bitmap\<close>

definition stale_doc_calls :: "superblock \<Rightarrow> fm_call list" where
  "stale_doc_calls sb =
     (case bmp_doc_offset sb of
        None \<Rightarrow> []
      | Some offs \<Rightarrow> map (\<lambda>i. Mark_stale (offs ! i) (fdb_get_docsize (bmp_docs sb ! i))) [0..<num_bmp_docs sb])"

definition sb_switch_reserved_blocks :: "superblock \<Rightarrow> bool \<times> superblock \<times> fm_call list" where
  "sb_switch_reserved_blocks sb =
     (case rsv sb of
        None \<Rightarrow> (False, sb, [])
      | Some r \<Rightarrow>
          if status r \<noteq> SB_RSV_READY then (False, sb, [])
          else
            (True,
             sb\<lparr>bmp_prev := bmp sb, bmp_prev_size := bmp_size sb,
                bmp_revnum := rsv_bmp_revnum r, bmp_size := rsv_bmp_size r,
                bmp := rsv_bmp r, bmp_idx := rsv_bmp_idx r,
                bmp_doc_offset := rsv_bmp_doc_offset r, bmp_docs := rsv_bmp_docs r,
                num_bmp_docs := rsv_num_bmp_docs r,
                num_free_blocks := rsv_num_free_blocks r,
                num_init_free_blocks := rsv_num_free_blocks r,
                cur_alloc_bid := rsv_cur_alloc_bid r,
                min_live_hdr_revnum := rsv_min_live_hdr_revnum r,
                min_live_hdr_bid := rsv_min_live_hdr_bid r, rsv := None\<rparr>,
             stale_doc_calls sb @ [File_sync]))"

section \<open>Allocation\<close>

text \<open>The scan of one index node: the first set bit at or after an offset of the node.\<close>

function scan_node :: "buf \<Rightarrow> nat \<Rightarrow> nat \<Rightarrow> nat \<Rightarrow> nat option" where
  "scan_node b sz node_idx i =
     (if i < 256 then
        (let bi = div8 i + node_idx * 32; off = mod8 i in
         if bi * 8 + off \<ge> sz then None
         else if b ! bi AND bmp_basic_mask ! off \<noteq> 0 then Some (bi * 8 + off)
         else scan_node b sz node_idx (Suc i))
      else None)"
  by pat_completeness auto
termination by (relation "measure (\<lambda>(_, _, _, i). 256 - i)") auto

declare scan_node.simps [simp del]

text \<open>
  The \<^verbatim>\<open>do\<close> loop over index nodes: the next allocable block with the index left behind, or
  \<open>Some (None, t)\<close> when the index runs out. One round removes the current node from the index,
  so the number of index nodes plus one is enough fuel.
\<close>

fun alloc_next :: "nat \<Rightarrow> buf \<Rightarrow> nat \<Rightarrow> nat avl \<Rightarrow> nat \<Rightarrow> nat \<Rightarrow> (nat option \<times> nat avl) option" where
  "alloc_next 0 b sz t node_idx node_off = None"
| "alloc_next (Suc fuel) b sz t node_idx node_off =
     (case scan_node b sz node_idx node_off of
        Some bid \<Rightarrow> Some (Some bid, t)
      | None \<Rightarrow>
          (let t' = (case avl_search bmp_idx_cmp t node_idx of Some c \<Rightarrow> avl_remove c | None \<Rightarrow> t) in
           case avl_first t' of
             None \<Rightarrow> Some (None, t')
           | Some c \<Rightarrow> alloc_next fuel b sz t' (el (fst c)) 0))"

text \<open>The tail shared by the three exits that exhaust the bitmap.\<close>

definition sb_alloc_exhausted :: "superblock \<Rightarrow> superblock \<times> fm_call list" where
  "sb_alloc_exhausted sb =
     (let (switched, sb', calls) = sb_switch_reserved_blocks sb in
      if switched then (sb', calls) else (sb'\<lparr>cur_alloc_bid := BLK_NOT_FOUND\<rparr>, calls))"

definition sb_alloc_take :: "superblock \<Rightarrow> (nat \<times> superblock \<times> fm_call list) option" where
  "sb_alloc_take sb =
     (let ret = cur_alloc_bid sb; sb1 = sb\<lparr>num_free_blocks := num_free_blocks sb - 1\<rparr> in
      if num_free_blocks sb1 = 0 then
        (case sb_alloc_exhausted sb1 of (sb2, calls) \<Rightarrow> Some (ret, sb2, calls))
      else
        (case alloc_next (Suc (length (inorder (bmp_idx sb1)))) (the (bmp sb1)) (bmp_size sb1)
                (bmp_idx sb1) (ret div 256) (ret mod 256 + 1) of
           None \<Rightarrow> None
         | Some (Some bid, t) \<Rightarrow> Some (ret, sb1\<lparr>cur_alloc_bid := bid, bmp_idx := t\<rparr>, [])
         | Some (None, t) \<Rightarrow>
             (case sb_alloc_exhausted (sb1\<lparr>bmp_idx := t, num_free_blocks := 0\<rparr>) of
                (sb2, calls) \<Rightarrow> Some (ret, sb2, calls))))"

text \<open>
  \<^verbatim>\<open>sb_alloc_block\<close>. The jump back to the start happens at most once, because switching consumes
  the reserved bitmap. \<^const>\<open>None\<close> would be a loop that does not end.
\<close>

definition sb_alloc_block :: "superblock \<Rightarrow> (nat \<times> superblock \<times> fm_call list) option" where
  "sb_alloc_block sb0 =
     (let sb = sb0\<lparr>num_alloc := Suc (num_alloc sb0)\<rparr> in
      if \<not> sb_bmp_exists sb then Some (BLK_NOT_FOUND, sb, [])
      else if num_free_blocks sb = 0 then
        (case sb_switch_reserved_blocks sb of
           (False, sb1, calls) \<Rightarrow> Some (BLK_NOT_FOUND, sb1\<lparr>cur_alloc_bid := BLK_NOT_FOUND\<rparr>, calls)
         | (True, sb1, calls) \<Rightarrow>
             if \<not> sb_bmp_exists sb1 then Some (BLK_NOT_FOUND, sb1, calls)
             else if num_free_blocks sb1 = 0 then
               Some (BLK_NOT_FOUND, sb1\<lparr>cur_alloc_bid := BLK_NOT_FOUND\<rparr>, calls)
             else map_option (\<lambda>(ret, sb2, calls2). (ret, sb2, calls @ calls2)) (sb_alloc_take sb1))
      else sb_alloc_take sb)"

section \<open>Reclaiming\<close>

text \<open>
  The loop that enters a list of reusable runs (first block, number of blocks) into a bitmap and
  its index; \<open>i\<close> is the loop counter. It occurs in the same form for the current and for the
  reserved bitmap.
\<close>

fun fill_bitmap :: "nat \<Rightarrow> (nat \<times> nat) list \<Rightarrow> buf \<Rightarrow> nat \<Rightarrow> nat \<Rightarrow> nat avl \<Rightarrow> buf \<times> nat \<times> nat \<times> nat avl" where
  "fill_bitmap i [] b cur nfree t = (b, cur, nfree, t)"
| "fill_bitmap i ((bid, count) # bs) b cur nfree t =
     fill_bitmap (Suc i) bs (sb_bmp_set b bid count)
       (if i = 0 \<and> cur = BLK_NOT_FOUND then bid else cur) (nfree + count) (add_bmp_idx t bid count)"

text \<open>
  The smallest active header \<open>(revnum, bid)\<close> and the reusable runs are what
  \<^verbatim>\<open>fdb_get_smallest_active_header\<close> and \<^verbatim>\<open>fdb_get_reusable_block\<close> return. A failing assertion is \<^const>\<open>None\<close>.
\<close>

definition sb_reclaim_reusable_blocks ::
  "filemgr \<Rightarrow> superblock \<Rightarrow> nat \<times> nat \<Rightarrow> (nat \<times> nat) list \<Rightarrow> (bool \<times> superblock \<times> fm_call list) option" where
  "sb_reclaim_reusable_blocks file sb sheader blist =
     (if snd sheader = BLK_NOT_FOUND then Some (False, sb, [File_sync])
      else if blist = [] then Some (False, sb, [File_sync])
      else
        (let num_blocks = fm_pos file div fm_blocksize file in
         if num_blocks < SB_DEFAULT_NUM_SUPERBLOCKS then None
         else
           (let (new_bmp, cur, nfree, t) =
              fill_bitmap 0 blist (replicate ((num_blocks + 7) div 8) 0) (cur_alloc_bid sb)
                (num_free_blocks sb) (free_bmp_idx (bmp_idx sb))
            in Some (True,
                 sb\<lparr>bmp := Some new_bmp, bmp_idx := t, cur_alloc_bid := cur, num_free_blocks := nfree,
                    bmp_size := num_blocks, min_live_hdr_revnum := fst sheader,
                    min_live_hdr_bid := snd sheader, bmp_revnum := bmp_revnum sb + 1,
                    num_init_free_blocks := nfree\<rparr>, [File_sync]))))"

definition sb_reserve_next_reusable_blocks ::
  "filemgr \<Rightarrow> superblock \<Rightarrow> nat \<times> nat \<Rightarrow> (nat \<times> nat) list \<Rightarrow> bool \<times> superblock" where
  "sb_reserve_next_reusable_blocks file sb sheader blist =
     (if rsv sb \<noteq> None then (False, sb)
      else if snd sheader = BLK_NOT_FOUND then (False, sb)
      else if blist = [] then (False, sb)
      else
        (let num_blocks = fm_pos file div fm_blocksize file in
         if num_blocks = 0 then (True, sb)
         else
           (let (b, cur, nfree, t) =
              fill_bitmap 0 blist (replicate ((num_blocks + 7) div 8) 0) BLK_NOT_FOUND 0 (root (avl_init ()))
            in (True, sb\<lparr>rsv := Some \<lparr>rsv_bmp_revnum = bmp_revnum sb + 1, rsv_bmp_size = num_blocks,
                  rsv_bmp = Some b, rsv_bmp_idx = t, rsv_bmp_doc_offset = None, rsv_bmp_docs = [],
                  rsv_num_bmp_docs = 0, rsv_num_free_blocks = nfree, rsv_cur_alloc_bid = cur,
                  rsv_min_live_hdr_revnum = fst sheader, rsv_min_live_hdr_bid = snd sheader,
                  status = SB_RSV_INITIALIZING\<rparr>\<rparr>))))"

section \<open>Returning the remaining blocks\<close>

text \<open>The inner loop that drops index nodes up to \<open>node_id\<close>, and the cursor loop around it.\<close>

function skip_nodes :: "nat avl \<Rightarrow> nat \<Rightarrow> nat avl \<times> nat option" where
  "skip_nodes t node_id =
     (case avl_first t of
        None \<Rightarrow> (t, None)
      | Some c \<Rightarrow> if el (fst c) \<le> node_id then skip_nodes (avl_remove c) node_id else (t, Some (el (fst c))))"
  by pat_completeness auto
termination by (relation "measure (\<lambda>(t, _). length (inorder t))") (auto dest: avl_first_remove)

declare skip_nodes.simps [simp del]

lemma skip_nodes_greater: "skip_nodes t n = (t', Some k) \<Longrightarrow> n < k"
  by (induction t n rule: skip_nodes.induct) (subst (asm) skip_nodes.simps, auto split: option.splits if_splits)

function return_scan :: "buf \<Rightarrow> nat \<Rightarrow> nat avl \<Rightarrow> nat \<Rightarrow> nat list \<times> nat avl" where
  "return_scan b sz t cur =
     (if cur < sz then
        (let here = (if is_bmp_set b cur then [cur] else []) in
         if cur mod 256 = 0 \<and> cur > 0 then
           (let node_id = cur div 256;
                t1 = (case avl_search bmp_idx_cmp t (node_id - 1) of Some c \<Rightarrow> avl_remove c | None \<Rightarrow> t)
            in case skip_nodes t1 node_id of
                 (t2, Some k) \<Rightarrow> (case return_scan b sz t2 (Suc (k * 256)) of (bs, t3) \<Rightarrow> (here @ bs, t3))
               | (t2, None) \<Rightarrow> (here, t2))
         else (case return_scan b sz t (Suc cur) of (bs, t3) \<Rightarrow> (here @ bs, t3)))
      else ([], t))"
  by pat_completeness auto
termination
proof (relation "measure (\<lambda>(_, sz, _, cur). sz - cur)", goal_cases)
  case (2 b sz t cur here node_id t1 t2 y k)
  then have "cur div 256 < k" using skip_nodes_greater [of t1 node_id t2 k] by simp
  then have "cur < k * 256" by (simp add: div_less_iff_less_mult)
  with 2(1) show ?case by simp
qed auto

declare return_scan.simps [simp del]

definition sb_return_reusable_blocks :: "fdb_kvs_handle \<Rightarrow> fdb_kvs_handle \<times> fm_call list" where
  "sb_return_reusable_blocks handle =
     (case fm_sb (h_file handle) of
        None \<Rightarrow> (handle, [])
      | Some sb \<Rightarrow>
          (let (bs, t) = return_scan (the (bmp sb)) (bmp_size sb) (bmp_idx sb) (cur_alloc_bid sb);
               sb1 = sb\<lparr>bmp_idx := t, num_free_blocks := 0, cur_alloc_bid := BLK_NOT_FOUND\<rparr>;
               (rs, sb2) =
                 (case rsv sb1 of
                    None \<Rightarrow> ([], sb1)
                  | Some r \<Rightarrow>
                      if status r = SB_RSV_READY
                      then (fst (return_scan (the (rsv_bmp r)) (rsv_bmp_size r) (rsv_bmp_idx r) (rsv_cur_alloc_bid r)),
                            sb1\<lparr>rsv := None\<rparr>)
                      else ([], sb1))
           in (handle\<lparr>h_file := (h_file handle)\<lparr>fm_sb := Some sb2\<rparr>\<rparr>,
               map (\<lambda>b. Add_stale_block b 1) (bs @ rs) @ [Gather_stale_blocks (h_cur_header_revnum handle + 1)])))"

section \<open>Writability and reuse decisions\<close>

definition sb_bmp_is_writable :: "filemgr \<Rightarrow> superblock \<Rightarrow> nat \<Rightarrow> bool" where
  "sb_bmp_is_writable file sb bid =
     (if bid < num_sb sb then True
      else
        (let last_commit = fm_last_commit file div fm_blocksize file;
             b = the (bmp sb)
         in if bmp_revnum sb = fm_last_writable_bmp_revnum file then
              (if bid < bmp_size sb
               then is_bmp_set b bid \<and> bid < cur_alloc_bid sb \<and> bid \<ge> last_commit
               else bid \<ge> last_commit)
            else
              (bid \<ge> last_commit \<and>
                (case bmp_prev sb of
                   Some prev \<Rightarrow>
                     (bid < bmp_prev_size sb \<and> is_bmp_set prev bid) \<or>
                     (bid < bmp_size sb \<and> is_bmp_set b bid) \<or>
                     bid \<ge> bmp_size sb
                 | None \<Rightarrow> True)) \<or>
              (bid < bmp_size sb \<and> bid < cur_alloc_bid sb \<and> is_bmp_set b bid)))"

datatype sb_decision_t = SBD_NONE | SBD_RECLAIM | SBD_RESERVE | SBD_SWITCH

definition sb_check_block_reusing :: "fdb_kvs_handle \<Rightarrow> nat \<Rightarrow> sb_decision_t" where
  "sb_check_block_reusing handle live_datasize =
     (let file = h_file handle; config = h_config handle; filesize = fm_pos file;
          threshold = fm_block_reusing_threshold file
      in case fm_sb file of
           None \<Rightarrow> SBD_NONE
         | Some sb \<Rightarrow>
             if fm_status file \<noteq> FILE_NORMAL then SBD_NONE
             else if threshold = 0 \<or> threshold \<ge> 100 then SBD_NONE
             else if filesize < unat (min_block_reuse_filesize config) then SBD_NONE
             else if h_cur_header_revnum handle \<le> min_live_hdr_revnum sb + fm_num_keeping_headers file then SBD_NONE
             else if filesize = 0 \<or> live_datasize = 0 \<or> live_datasize > filesize then SBD_NONE
             else if (filesize - live_datasize) * 100 div filesize \<le> threshold then SBD_NONE
             else if \<not> sb_bmp_exists sb then SBD_RECLAIM
             else if max_block_reusing_cycle config \<noteq> 0 \<and> bmp_revnum sb \<ge> unat (max_block_reusing_cycle config)
             then SBD_NONE
             else if num_free_blocks sb = 0 then (if rsv sb \<noteq> None then SBD_SWITCH else SBD_RECLAIM)
             else if enable_reusable_block_reservation config \<and>
                     num_free_blocks sb * 100 < num_init_free_blocks sb * SB_PRE_RECLAIM_RATIO \<and>
                     num_init_free_blocks sb * fm_blocksize file > SB_MIN_BLOCK_REUSING_FILESIZE
             then SBD_RESERVE
             else SBD_NONE)"

section \<open>Header bookkeeping\<close>

definition sb_check_sync_period :: "fdb_kvs_handle \<Rightarrow> bool" where
  "sb_check_sync_period handle \<longleftrightarrow>
     (case fm_sb (h_file handle) of
        None \<Rightarrow> False
      | Some sb \<Rightarrow> num_alloc sb * fm_blocksize (h_file handle) > SB_SYNC_PERIOD)"

definition sb_update_header :: "fdb_kvs_handle \<Rightarrow> bool \<times> fdb_kvs_handle" where
  "sb_update_header handle =
     (case fm_sb (h_file handle) of
        None \<Rightarrow> (False, handle)
      | Some sb \<Rightarrow>
          if last_hdr_bid sb \<noteq> h_last_hdr_bid handle \<and> last_hdr_revnum sb < h_cur_header_revnum handle
          then (let sb1 = sb\<lparr>last_hdr_bid := h_last_hdr_bid handle, last_hdr_revnum := h_cur_header_revnum handle\<rparr>;
                    sb2 = (if fm_last_writable_bmp_revnum (h_file handle) = bmp_revnum sb1
                           then sb1\<lparr>bmp_prev := None\<rparr> else sb1)
                in (True, handle\<lparr>h_file := (h_file handle)\<lparr>fm_sb := Some sb2\<rparr>\<rparr>))
          else (False, handle))"

definition sb_reset_num_alloc :: "fdb_kvs_handle \<Rightarrow> fdb_kvs_handle" where
  "sb_reset_num_alloc handle =
     handle\<lparr>h_file := (h_file handle)\<lparr>fm_sb := map_option (\<lambda>sb. sb\<lparr>num_alloc := 0\<rparr>) (fm_sb (h_file handle))\<rparr>\<rparr>"

definition sb_get_bmp_revnum :: "filemgr \<Rightarrow> nat" where
  "sb_get_bmp_revnum file = (case fm_sb file of Some sb \<Rightarrow> bmp_revnum sb | None \<Rightarrow> 0)"

definition sb_get_min_live_revnum :: "filemgr \<Rightarrow> nat" where
  "sb_get_min_live_revnum file = (case fm_sb file of Some sb \<Rightarrow> min_live_hdr_revnum sb | None \<Rightarrow> 0)"

definition sb_get_num_free_blocks :: "filemgr \<Rightarrow> nat" where
  "sb_get_num_free_blocks file = (case fm_sb file of Some sb \<Rightarrow> num_free_blocks sb | None \<Rightarrow> 0)"

definition sb_get_default_config :: nat where
  "sb_get_default_config = SB_DEFAULT_NUM_SUPERBLOCKS"

end
