(* ===== verification/Block_Alloc.thy ===== *)
theory Block_Alloc
  imports Superblock
begin

text \<open>
  Correctness of the block allocator of \<^verbatim>\<open>src/superblock.cc\<close>: the invariant that ties the bitmap, its
  index, the cursor and the counter together, the refinement of an abstract allocator of block
  sets, what a reclaimed or reserved bitmap contains, and which blocks are writable.
\<close>

section \<open>The allocator's invariant\<close>

text \<open>
  A pool is a bitmap of a given size with its index, cursor and counter. The blocks still to be
  handed out are the set bits at or after the cursor; the invariant ties the counter, the cursor
  and the index to that set. The current and a ready reserved bitmap are both pools.
\<close>

definition pending :: "buf option \<Rightarrow> nat \<Rightarrow> nat \<Rightarrow> nat set" where
  "pending b sz cur = {x. cur \<le> x \<and> x < sz \<and> is_bmp_set (the b) x}"

definition pool_inv :: "buf option \<Rightarrow> nat \<Rightarrow> nat avl \<Rightarrow> nat \<Rightarrow> nat \<Rightarrow> bool" where
  "pool_inv b sz t cur nfree \<longleftrightarrow> idx_valid t \<and> sz < BLK_NOT_FOUND \<and> nfree = card (pending b sz cur) \<and>
     (if nfree = 0 then cur = BLK_NOT_FOUND
      else cur \<in> pending b sz cur \<and>
        (\<lambda>x. x div 256) ` pending b sz cur \<subseteq> set (inorder t) \<and>
        (\<forall>k \<in> set (inorder t). cur div 256 \<le> k))"

definition remaining :: "superblock \<Rightarrow> nat set" where
  "remaining sb = pending (bmp sb) (bmp_size sb) (cur_alloc_bid sb)"

definition rsv_blocks :: "sb_rsv_bmp \<Rightarrow> nat set" where
  "rsv_blocks r = pending (rsv_bmp r) (rsv_bmp_size r) (rsv_cur_alloc_bid r)"

definition rsv_inv :: "sb_rsv_bmp \<Rightarrow> bool" where
  "rsv_inv r \<longleftrightarrow> pool_inv (rsv_bmp r) (rsv_bmp_size r) (rsv_bmp_idx r) (rsv_cur_alloc_bid r) (rsv_num_free_blocks r)"

definition sb_inv :: "superblock \<Rightarrow> bool" where
  "sb_inv sb \<longleftrightarrow> pool_inv (bmp sb) (bmp_size sb) (bmp_idx sb) (cur_alloc_bid sb) (num_free_blocks sb) \<and>
     (\<forall>r. rsv sb = Some r \<longrightarrow> rsv_inv r \<and> sb_bmp_exists sb)"

lemma finite_pending [simp]: "finite (pending b sz cur)"
  by (rule finite_subset [of _ "{..<sz}"]) (auto simp: pending_def)

lemma scan_node_step:
  "i < 256 \<Longrightarrow> scan_node b sz k i =
    (if k * 256 + i \<ge> sz then None
     else if is_bmp_set b (k * 256 + i) then Some (k * 256 + i) else scan_node b sz k (Suc i))"
proof -
  have "(i div 8 + k * 32) * 8 + i mod 8 = k * 256 + i"
    using div_mult_mod_eq [of i 8] by (simp add: algebra_simps)
  moreover have "(k * 256 + i) div 8 = i div 8 + k * 32" "(k * 256 + i) mod 8 = i mod 8"
    using div_mult_self1 [of 8 i "k * 32"] mod_mult_self1 [of i "k * 32" 8] by (simp_all add: algebra_simps)
  ultimately show "i < 256 \<Longrightarrow> ?thesis"
    by (simp add: scan_node.simps [of b sz k i] Let_def is_bmp_set_def div8_def mod8_def)
qed

lemma scan_node_spec:
  assumes "i \<le> 256"
  shows "case scan_node b sz k i of
      Some x \<Rightarrow> k * 256 + i \<le> x \<and> x < (k + 1) * 256 \<and> x < sz \<and> is_bmp_set b x \<and>
        (\<forall>y. k * 256 + i \<le> y \<and> y < x \<longrightarrow> \<not> is_bmp_set b y)
    | None \<Rightarrow> \<forall>y. k * 256 + i \<le> y \<and> y < (k + 1) * 256 \<and> y < sz \<longrightarrow> \<not> is_bmp_set b y"
  using assms
proof (induction "256 - i" arbitrary: i)
  case 0
  then have "i = 256" by simp
  then show ?case using scan_node.simps [of b sz k 256] by auto
next
  case (Suc n)
  then have i: "i < 256" "n = 256 - Suc i" "Suc i \<le> 256" by simp_all
  have split: "k * 256 + i \<le> y \<longleftrightarrow> y = k * 256 + i \<or> k * 256 + Suc i \<le> y" for y by auto
  show ?case
  proof (cases "k * 256 + i < sz \<and> \<not> is_bmp_set b (k * 256 + i)")
    case True
    with Suc(1) [OF i(2,3)] show ?thesis
      by (subst (1) scan_node_step [OF i(1)]) (auto simp: split split: option.splits)
  next
    case False
    with i(1) show ?thesis by (subst (1) scan_node_step [OF i(1)]) auto
  qed
qed

lemma idx_drop:
  assumes "idx_valid t" "k < 2 ^ 64"
  defines "t' \<equiv> case avl_search bmp_idx_cmp t k of Some c \<Rightarrow> avl_remove c | None \<Rightarrow> t"
  shows "idx_valid t'" "set (inorder t') = set (inorder t) - {k}"
  using idx_remove [OF assms(1,2)] idx_search [OF assms(1,2)] assms(1)
  unfolding t'_def by (auto split: option.splits)

lemma alloc_next_spec:
  assumes "idx_valid t" "node < 2 ^ 64" "off \<le> 256" "card (set (inorder t) - {node}) < fuel"
    "(\<lambda>x. x div 256) ` pending (Some b) sz (node * 256 + off) \<subseteq> set (inorder t)" "\<forall>k \<in> set (inorder t). node \<le> k"
  shows "\<exists>r t'. alloc_next fuel b sz t node off = Some (r, t') \<and> idx_valid t' \<and>
    (case r of None \<Rightarrow> pending (Some b) sz (node * 256 + off) = {}
     | Some x \<Rightarrow> x \<in> pending (Some b) sz (node * 256 + off) \<and> (\<forall>y \<in> pending (Some b) sz (node * 256 + off). x \<le> y) \<and>
         (\<lambda>x. x div 256) ` pending (Some b) sz (node * 256 + off) \<subseteq> set (inorder t') \<and> (\<forall>k \<in> set (inorder t'). x div 256 \<le> k))"
  using assms
proof (induction fuel arbitrary: t node off)
  case (Suc fuel)
  show ?case
  proof (cases "scan_node b sz node off")
    case (Some x)
    then have x: "node * 256 + off \<le> x" "x < (node + 1) * 256" "x < sz" "is_bmp_set b x"
      "\<And>y. node * 256 + off \<le> y \<Longrightarrow> y < x \<Longrightarrow> \<not> is_bmp_set b y"
      using scan_node_spec [where b = b and sz = sz and k = node, OF Suc.prems(3)] by auto
    then have "x div 256 = node" by (intro div_nat_eqI) auto
    moreover have "\<forall>y \<in> pending (Some b) sz (node * 256 + off). x \<le> y" using x(5) by (auto simp: pending_def) (metis not_less)
    ultimately show ?thesis using Some x Suc.prems by (auto simp: pending_def)
  next
    case None
    let ?t = "case avl_search bmp_idx_cmp t node of Some c \<Rightarrow> avl_remove c | None \<Rightarrow> t"
    note t = idx_drop [OF Suc.prems(1,2)]
    have none: "\<forall>y. node * 256 + off \<le> y \<and> y < (node + 1) * 256 \<and> y < sz \<longrightarrow> \<not> is_bmp_set b y"
      using scan_node_spec [where b = b and sz = sz and k = node, OF Suc.prems(3)] None by simp
    then have beyond: "pending (Some b) sz (node * 256 + off) = pending (Some b) sz ((node + 1) * 256)" using Suc.prems(3) by (auto simp: pending_def not_less[symmetric])
    then have gr: "(\<lambda>x. x div 256) ` pending (Some b) sz (node * 256 + off) \<subseteq> set (inorder ?t)"
      using Suc.prems(5) t(2) by (fastforce simp: pending_def)
    show ?thesis
    proof (cases "avl_first ?t")
      case None
      then have "inorder ?t = []" using avl_first_spec [of ?t] by (simp split: list.splits)
      with gr have "pending (Some b) sz (node * 256 + off) = {}" by auto
      with None \<open>scan_node b sz node off = None\<close> t(1) show ?thesis by simp
    next
      case (Some c)
      let ?k = "el (fst c)"
      have k: "inorder ?t = ?k # inorder (avl_remove c)" using Some by (rule avl_first_remove)
      have lt: "\<forall>j \<in> set (inorder ?t). ?k \<le> j" using idx_sorted [OF t(1)] unfolding k by auto
      have mem: "?k \<in> set (inorder ?t)" unfolding k by simp
      then have kn: "node < ?k" "?k < 2 ^ 64" using t Suc.prems(1,6) by (auto simp: idx_valid_def le_neq_implies_less)
      have c: "card (set (inorder ?t) - {?k}) < fuel"
        using mem Suc.prems(4) unfolding t(2) by (metis card_Suc_Diff1 finite_set finite_Diff Suc_less_eq)
      have eq: "pending (Some b) sz (node * 256 + off) = pending (Some b) sz (?k * 256)"
      proof -
        have "?k * 256 \<le> y" if "y \<in> pending (Some b) sz (node * 256 + off)" for y
        proof -
          have "?k \<le> y div 256" using that gr lt by auto
          then show ?thesis by (simp add: less_eq_div_iff_mult_less_eq)
        qed
        moreover have "node * 256 + off \<le> ?k * 256" using kn(1) Suc.prems(3) by simp
        ultimately show ?thesis by (auto simp: pending_def)
      qed
      from Suc.IH [OF t(1) kn(2) _ c, of 0, unfolded add_0_right] gr lt Some \<open>scan_node b sz node off = None\<close>
      show ?thesis unfolding eq by simp
    qed
  qed
qed simp

declare alloc_next.simps [simp del]

lemma pending_cursor: "x \<in> pending b sz cur \<Longrightarrow> pending b sz cur - {cur} = pending b sz (Suc cur)"
  by (auto simp: pending_def)

lemma pending_Suc_blk: "sz < BLK_NOT_FOUND \<Longrightarrow> pending b sz BLK_NOT_FOUND = {}"
  by (auto simp: pending_def)

lemma pending_the: "pending (Some (the b)) sz cur = pending b sz cur"
  by (simp add: pending_def)

lemma pool_next:
  assumes inv: "pool_inv b sz t cur nfree" and "1 < nfree"
  shows "\<exists>x t'. alloc_next (Suc (length (inorder t))) (the b) sz t (cur div 256) (cur mod 256 + 1) = Some (Some x, t') \<and>
    pool_inv b sz t' x (nfree - 1) \<and> pending b sz x = pending b sz cur - {cur}"
proof -
  let ?P = "pending b sz"
  have cur: "cur \<in> ?P cur" and t: "idx_valid t" and sz: "sz < BLK_NOT_FOUND" and n: "nfree = card (?P cur)"
    and gr: "(\<lambda>x. x div 256) ` ?P cur \<subseteq> set (inorder t)" and lo: "\<forall>k \<in> set (inorder t). cur div 256 \<le> k"
    using assms by (auto simp: pool_inv_def)
  have arg: "cur div 256 * 256 + (cur mod 256 + 1) = Suc cur" by simp
  have P: "?P (Suc cur) = ?P cur - {cur}" using cur by (rule pending_cursor [symmetric])
  have card: "card (?P (Suc cur)) = nfree - 1" using cur n unfolding P by simp
  have "cur div 256 < 2 ^ 64"
    using cur sz by (auto simp: pending_def BLK_NOT_FOUND_def intro: le_less_trans [OF div_le_dividend])
  moreover have "card (set (inorder t) - {cur div 256}) < Suc (length (inorder t))"
    by (meson card_Diff1_le card_length le_imp_less_Suc le_trans)
  moreover have "(\<lambda>x. x div 256) ` ?P (Suc cur) \<subseteq> set (inorder t)" using gr P by blast
  moreover have "cur mod 256 + 1 \<le> 256" using mod_less_divisor [of 256 cur] by linarith
  ultimately obtain r t' where r: "alloc_next (Suc (length (inorder t))) (the b) sz t (cur div 256) (cur mod 256 + 1) = Some (r, t')"
    "idx_valid t'" "case r of None \<Rightarrow> ?P (Suc cur) = {}
     | Some x \<Rightarrow> x \<in> ?P (Suc cur) \<and> (\<forall>y \<in> ?P (Suc cur). x \<le> y) \<and>
         (\<lambda>x. x div 256) ` ?P (Suc cur) \<subseteq> set (inorder t') \<and> (\<forall>k \<in> set (inorder t'). x div 256 \<le> k)"
    using alloc_next_spec [of t "cur div 256" "cur mod 256 + 1" _ "the b" sz] t lo unfolding arg pending_the by blast
  have "?P (Suc cur) \<noteq> {}" using card assms(2) by (metis card.empty not_less_zero zero_less_diff)
  then obtain x where x: "r = Some x" "x \<in> ?P (Suc cur)" "\<forall>y \<in> ?P (Suc cur). x \<le> y"
    using r(3) by (auto split: option.splits)
  then have "?P x = ?P (Suc cur)" by (auto simp: pending_def)
  with x r card P sz assms(2) show ?thesis by (auto simp: pool_inv_def)
qed

section \<open>Refinement of an abstract allocator\<close>

text \<open>
  Abstractly an allocator owns a current set of blocks and perhaps a next one; it hands out the
  smallest block of the current set and moves on to the next set as soon as the current one is
  empty.
\<close>

type_synonym pools = "nat set \<times> nat set option"

definition refill :: "pools \<Rightarrow> pools" where
  "refill p = (if fst p = {} then (case snd p of Some M \<Rightarrow> (M, None) | None \<Rightarrow> p) else p)"

definition pool_alloc :: "pools \<Rightarrow> nat option \<times> pools" where
  "pool_alloc p = (let q = refill p in
     if fst q = {} then (None, q) else (Some (Min (fst q)), refill (fst q - {Min (fst q)}, snd q)))"

definition ready_rsv :: "superblock \<Rightarrow> sb_rsv_bmp option" where
  "ready_rsv sb = (case rsv sb of Some r \<Rightarrow> if status r = SB_RSV_READY then Some r else None | None \<Rightarrow> None)"

definition sb_pools :: "superblock \<Rightarrow> pools" where
  "sb_pools sb = (remaining sb, map_option rsv_blocks (ready_rsv sb))"

lemma pool_Min:
  assumes "pool_inv b sz t cur nfree" "nfree \<noteq> 0"
  shows "Min (pending b sz cur) = cur"
  using assms by (intro Min_eqI) (auto simp: pool_inv_def, auto simp: pending_def)

lemma pool_empty: "pool_inv b sz t cur nfree \<Longrightarrow> pending b sz cur = {} \<longleftrightarrow> nfree = 0"
  by (metis card_eq_0_iff finite_pending pool_inv_def)

lemma switch_none: "ready_rsv sb = None \<Longrightarrow> sb_switch_reserved_blocks sb = (False, sb, [])"
  by (auto simp: sb_switch_reserved_blocks_def ready_rsv_def split: option.splits if_splits)

lemma switch_ready:
  assumes "ready_rsv sb = Some r" "rsv_inv r"
  shows "\<exists>sb' calls. sb_switch_reserved_blocks sb = (True, sb', calls) \<and> sb_inv sb' \<and>
    sb_pools sb' = (rsv_blocks r, None) \<and> num_free_blocks sb' = rsv_num_free_blocks r \<and>
    bmp_size sb' = rsv_bmp_size r \<and> rsv sb' = None"
  using assms
  by (auto simp: sb_switch_reserved_blocks_def ready_rsv_def sb_pools_def remaining_def rsv_blocks_def sb_inv_def
      rsv_inv_def split: option.splits if_splits)

lemma ready_rsv_inv: "sb_inv sb \<Longrightarrow> ready_rsv sb = Some r \<Longrightarrow> rsv_inv r"
  by (auto simp: sb_inv_def ready_rsv_def split: option.splits if_splits)

text \<open>Only the reserved bitmap matters for what an exhausted bitmap turns into.\<close>

lemma alloc_exhausted_pools:
  assumes rsv: "\<And>r. rsv sb = Some r \<Longrightarrow> rsv_inv r \<and> sb_bmp_exists sb" and "num_free_blocks sb = 0" "idx_valid (bmp_idx sb)"
    and sz: "bmp_size sb < BLK_NOT_FOUND"
  shows "\<exists>sb' calls. sb_alloc_exhausted sb = (sb', calls) \<and> sb_inv sb' \<and>
    sb_pools sb' = refill ({}, map_option rsv_blocks (ready_rsv sb))"
proof (cases "ready_rsv sb")
  case None
  have "ready_rsv (sb\<lparr>cur_alloc_bid := BLK_NOT_FOUND\<rparr>) = None" using None by (simp add: ready_rsv_def)
  with None assms show ?thesis
    by (auto simp: sb_alloc_exhausted_def switch_none sb_inv_def pool_inv_def pending_Suc_blk sb_pools_def refill_def
        remaining_def sb_bmp_exists_def)
next
  case (Some r)
  then have "rsv_inv r" using rsv by (auto simp: ready_rsv_def split: option.splits if_splits)
  from switch_ready [OF Some this] Some show ?thesis
    by (auto simp: sb_alloc_exhausted_def refill_def)
qed

lemma alloc_take_pools:
  assumes "sb_inv sb" "num_free_blocks sb \<noteq> 0"
  shows "\<exists>sb' calls. sb_alloc_take sb = Some (Min (remaining sb), sb', calls) \<and> sb_inv sb' \<and>
    sb_pools sb' = refill (remaining sb - {Min (remaining sb)}, map_option rsv_blocks (ready_rsv sb))"
proof -
  let ?R = "remaining sb" and ?n = "num_free_blocks sb"
  have inv: "pool_inv (bmp sb) (bmp_size sb) (bmp_idx sb) (cur_alloc_bid sb) ?n"
    and rsv: "\<And>r. rsv sb = Some r \<Longrightarrow> rsv_inv r \<and> sb_bmp_exists sb" using assms(1) by (auto simp: sb_inv_def)
  have cur: "Min ?R = cur_alloc_bid sb" using pool_Min [OF inv assms(2)] by (simp add: remaining_def)
  have card: "card (?R - {Min ?R}) = ?n - 1" using inv assms(2) cur by (auto simp: pool_inv_def remaining_def)
  show ?thesis
  proof (cases "?n = 1")
    case True
    let ?sb = "sb\<lparr>num_free_blocks := 0\<rparr>"
    have e: "?R - {Min ?R} = {}" using card True by (metis finite_pending finite_Diff card_eq_0_iff diff_self_eq_0 remaining_def)
    obtain sb' calls where "sb_alloc_exhausted ?sb = (sb', calls)" "sb_inv sb'"
      "sb_pools sb' = refill ({}, map_option rsv_blocks (ready_rsv ?sb))"
      using alloc_exhausted_pools [of ?sb] inv rsv by (auto simp: pool_inv_def sb_bmp_exists_def)
    moreover have "ready_rsv ?sb = ready_rsv sb" by (simp add: ready_rsv_def)
    moreover have "sb_alloc_take sb = (case sb_alloc_exhausted ?sb of (sb2, calls) \<Rightarrow> Some (cur_alloc_bid sb, sb2, calls))"
      using True by (simp add: sb_alloc_take_def Let_def)
    ultimately show ?thesis unfolding e unfolding cur by simp
  next
    case False
    have n: "1 < ?n" using assms(2) False by linarith
    obtain x t where x: "alloc_next (Suc (length (inorder (bmp_idx sb)))) (the (bmp sb)) (bmp_size sb) (bmp_idx sb)
        (cur_alloc_bid sb div 256) (cur_alloc_bid sb mod 256 + 1) = Some (Some x, t)"
      "pool_inv (bmp sb) (bmp_size sb) t x (?n - 1)"
      "pending (bmp sb) (bmp_size sb) x = pending (bmp sb) (bmp_size sb) (cur_alloc_bid sb) - {cur_alloc_bid sb}"
      using pool_next [OF inv n] by (elim exE conjE)
    let ?sb = "sb\<lparr>num_free_blocks := ?n - 1, cur_alloc_bid := x, bmp_idx := t\<rparr>"
    have "?R - {Min ?R} \<noteq> {}" using card n by (metis card.empty not_less_zero zero_less_diff)
    moreover have "sb_alloc_take sb = Some (cur_alloc_bid sb, ?sb, [])"
      using False assms(2) x(1) by (simp add: sb_alloc_take_def Let_def)
    moreover have "sb_inv ?sb" using x(2) rsv by (simp add: sb_inv_def sb_bmp_exists_def)
    ultimately show ?thesis using x(3) cur
      by (simp add: sb_pools_def remaining_def refill_def ready_rsv_def)
  qed
qed

lemma num_alloc_irrelevant:
  "sb_inv (sb\<lparr>num_alloc := n\<rparr>) = sb_inv sb" "sb_pools (sb\<lparr>num_alloc := n\<rparr>) = sb_pools sb"
  "remaining (sb\<lparr>num_alloc := n\<rparr>) = remaining sb" "ready_rsv (sb\<lparr>num_alloc := n\<rparr>) = ready_rsv sb"
  by (simp_all add: sb_inv_def sb_pools_def remaining_def ready_rsv_def sb_bmp_exists_def)

lemma sb_remaining_empty: "sb_inv sb \<Longrightarrow> remaining sb = {} \<longleftrightarrow> num_free_blocks sb = 0"
  unfolding remaining_def sb_inv_def by (blast dest: pool_empty)

definition bid_of :: "nat option \<Rightarrow> nat" where
  "bid_of r = (case r of Some b \<Rightarrow> b | None \<Rightarrow> BLK_NOT_FOUND)"

lemma alloc_take_spec:
  assumes "sb_inv sb" "num_free_blocks sb \<noteq> 0"
  shows "\<exists>sb' calls. sb_alloc_take sb = Some (bid_of (fst (pool_alloc (sb_pools sb))), sb', calls) \<and>
    sb_inv sb' \<and> sb_pools sb' = snd (pool_alloc (sb_pools sb))"
proof -
  have "remaining sb \<noteq> {}" using assms sb_remaining_empty [of sb] by simp
  then have "pool_alloc (sb_pools sb) = (Some (Min (remaining sb)),
      refill (remaining sb - {Min (remaining sb)}, map_option rsv_blocks (ready_rsv sb)))"
    by (simp add: pool_alloc_def sb_pools_def refill_def)
  with alloc_take_pools [OF assms] show ?thesis by (simp add: bid_of_def)
qed

lemma alloc_block_spec:
  assumes "sb_inv sb0"
  shows "\<exists>sb' calls. sb_alloc_block sb0 = Some (bid_of (fst (pool_alloc (sb_pools sb0))), sb', calls) \<and>
    sb_inv sb' \<and> sb_pools sb' = snd (pool_alloc (sb_pools sb0))"
proof -
  define sb where "sb = sb0\<lparr>num_alloc := Suc (num_alloc sb0)\<rparr>"
  have inv: "sb_inv sb" and P: "sb_pools sb0 = sb_pools sb" using assms by (simp_all add: sb_def num_alloc_irrelevant)
  note alloc = sb_alloc_block_def [of sb0, folded sb_def, unfolded Let_def]
  show ?thesis
  proof (cases "num_free_blocks sb = 0")
    case False
    then have "remaining sb \<noteq> {}" using sb_remaining_empty [OF inv] by simp
    then have "sb_bmp_exists sb" by (auto simp: remaining_def pending_def sb_bmp_exists_def)
    with False alloc_take_spec [OF inv False] show ?thesis unfolding P alloc by simp
  next
    case True
    then have e: "remaining sb = {}" using sb_remaining_empty [OF inv] by simp
    show ?thesis
    proof (cases "ready_rsv sb")
      case None
      have "sb_inv (sb\<lparr>cur_alloc_bid := BLK_NOT_FOUND\<rparr>)"
        using inv True by (auto simp: sb_inv_def pool_inv_def pending_Suc_blk sb_bmp_exists_def)
      moreover have "sb_pools (sb\<lparr>cur_alloc_bid := BLK_NOT_FOUND\<rparr>) = ({}, None)"
        using inv None by (auto simp: sb_pools_def remaining_def sb_inv_def pool_inv_def pending_Suc_blk ready_rsv_def)
      moreover have "pool_alloc (sb_pools sb) = (None, {}, None)" using e None
        by (simp add: sb_pools_def pool_alloc_def refill_def)
      moreover have "sb_pools sb = ({}, None)" using e None by (simp add: sb_pools_def)
      ultimately show ?thesis using True inv None unfolding P alloc by (simp add: switch_none bid_of_def)
    next
      case (Some r)
      then have ex: "sb_bmp_exists sb" using inv by (auto simp: sb_inv_def ready_rsv_def split: option.splits if_splits)
      from switch_ready [OF Some ready_rsv_inv [OF inv Some]] obtain sb1 calls where
        s: "sb_switch_reserved_blocks sb = (True, sb1, calls)" "sb_inv sb1" "sb_pools sb1 = (rsv_blocks r, None)"
        "rsv sb1 = None" by blast
      then have R: "remaining sb1 = rsv_blocks r" by (simp add: sb_pools_def)
      have pa: "pool_alloc (sb_pools sb) = pool_alloc (sb_pools sb1)"
        using e Some s(3) by (simp add: sb_pools_def pool_alloc_def refill_def)
      show ?thesis
      proof (cases "num_free_blocks sb1 = 0")
        case True
        then have "rsv_blocks r = {}" using sb_remaining_empty [OF s(2)] R by simp
        moreover have "sb1\<lparr>cur_alloc_bid := BLK_NOT_FOUND\<rparr> = sb1"
        proof -
          have "cur_alloc_bid sb1 = BLK_NOT_FOUND" using s(2) True by (simp add: sb_inv_def pool_inv_def)
          then show ?thesis by (cases sb1) simp
        qed
        ultimately show ?thesis using \<open>num_free_blocks sb = 0\<close> True ex s unfolding P alloc pa
          by (simp add: pool_alloc_def refill_def bid_of_def)
      next
        case False
        then have "sb_bmp_exists sb1"
          using sb_remaining_empty [OF s(2)] by (auto simp: remaining_def pending_def sb_bmp_exists_def)
        moreover obtain sb' calls' where
          "sb_alloc_take sb1 = Some (bid_of (fst (pool_alloc (sb_pools sb1))), sb', calls')"
          "sb_inv sb'" "sb_pools sb' = snd (pool_alloc (sb_pools sb1))"
          using alloc_take_spec [OF s(2) False] by blast
        ultimately show ?thesis
          using \<open>num_free_blocks sb = 0\<close> False ex s(1) unfolding P alloc pa by simp
      qed
    qed
  qed
qed

section \<open>Clients of the allocator\<close>

text \<open>
  What a caller may rely on: each allocation acts on the pools as the abstract allocator does.
  The lemmas about sequences of allocations need nothing else.
\<close>

primrec iter_alloc :: "('s \<Rightarrow> nat \<times> 's) \<Rightarrow> nat \<Rightarrow> 's \<Rightarrow> nat list \<times> 's" where
  "iter_alloc f 0 s = ([], s)"
| "iter_alloc f (Suc n) s = (case f s of (r, s1) \<Rightarrow> case iter_alloc f n s1 of (rs, s2) \<Rightarrow> (r # rs, s2))"

locale block_source =
  fixes alloc :: "'s \<Rightarrow> nat \<times> 's" and inv :: "'s \<Rightarrow> bool" and pools :: "'s \<Rightarrow> pools"
  assumes alloc_keeps: "inv s \<Longrightarrow> inv (snd (alloc s))"
    and alloc_result: "inv s \<Longrightarrow> fst (alloc s) = bid_of (fst (pool_alloc (pools s)))"
    and alloc_pools: "inv s \<Longrightarrow> pools (snd (alloc s)) = snd (pool_alloc (pools s))"
    and pool_finite: "inv s \<Longrightarrow> finite (fst (pools s))"
begin

lemma iter_keeps: "inv s \<Longrightarrow> inv (snd (iter_alloc alloc n s))"
proof (induction n arbitrary: s)
  case (Suc n)
  then show ?case using Suc.IH [OF alloc_keeps] by (simp add: split_beta)
qed simp

lemma iter_ascending:
  assumes "inv s" "n \<le> card (fst (pools s))"
  shows "fst (iter_alloc alloc n s) = take n (sorted_list_of_set (fst (pools s)))"
  using assms
proof (induction n arbitrary: s)
  case (Suc n)
  let ?P = "fst (pools s)" and ?s = "snd (alloc s)"
  have P: "?P \<noteq> {}" "finite ?P" using Suc.prems pool_finite by auto
  then have r: "pool_alloc (pools s) = (Some (Min ?P), refill (?P - {Min ?P}, snd (pools s)))"
    by (simp add: pool_alloc_def refill_def Let_def)
  have "fst (iter_alloc alloc n ?s) = take n (sorted_list_of_set (?P - {Min ?P}))"
  proof (cases n)
    case (Suc m)
    have c: "card (?P - {Min ?P}) = card ?P - 1" using P by simp
    then have "0 < card (?P - {Min ?P})" using Suc.prems(2) Suc by simp
    then have "?P - {Min ?P} \<noteq> {}" by (metis card.empty less_irrefl)
    then have "fst (pools ?s) = ?P - {Min ?P}"
      using alloc_pools [OF Suc.prems(1)] r by (simp add: refill_def)
    with Suc.IH [OF alloc_keeps [OF Suc.prems(1)]] c Suc.prems(2) show ?thesis by simp
  qed simp
  moreover have "fst (alloc s) = Min ?P" using alloc_result [OF Suc.prems(1)] r by (simp add: bid_of_def)
  ultimately show ?case using P by (simp add: split_beta sorted_list_of_set_nonempty)
qed simp

lemma iter_exhausts:
  assumes "inv s" "snd (pools s) = None"
  shows "pools (snd (iter_alloc alloc (card (fst (pools s))) s)) = ({}, None)"
  using assms
proof (induction "card (fst (pools s))" arbitrary: s)
  case 0
  then show ?case using pool_finite [of s] by (cases "pools s") simp
next
  case (Suc n)
  let ?P = "fst (pools s)" and ?s = "snd (alloc s)"
  have P: "?P \<noteq> {}" "finite ?P" using Suc.hyps(2) Suc.prems pool_finite by auto
  then have "pool_alloc (pools s) = (Some (Min ?P), ?P - {Min ?P}, None)"
    using Suc.prems(2) by (simp add: pool_alloc_def refill_def Let_def)
  then have p: "pools ?s = (?P - {Min ?P}, None)" using alloc_pools [OF Suc.prems(1)] by simp
  have n: "n = card (fst (pools ?s))" using Suc.hyps(2) P p by simp
  from Suc.hyps(1) [OF n alloc_keeps [OF Suc.prems(1)]] p n show ?case
    unfolding Suc.hyps(2) [symmetric] by (simp add: split_beta)
qed

lemma exhausted_not_found:
  assumes "inv s" "pools s = ({}, None)"
  shows "fst (alloc s) = BLK_NOT_FOUND \<and> pools (snd (alloc s)) = ({}, None)"
  using alloc_result [OF assms(1)] alloc_pools [OF assms(1)] assms(2)
  by (simp add: pool_alloc_def refill_def bid_of_def)

end

definition alloc_step :: "superblock \<Rightarrow> nat \<times> superblock" where
  "alloc_step sb = (case sb_alloc_block sb of Some (ret, sb', _) \<Rightarrow> (ret, sb') | None \<Rightarrow> (BLK_NOT_FOUND, sb))"

interpretation bmp_pool: block_source alloc_step sb_inv sb_pools
proof
  fix sb assume "sb_inv sb"
  from alloc_block_spec [OF this] obtain sb' calls where
    a: "sb_alloc_block sb = Some (bid_of (fst (pool_alloc (sb_pools sb))), sb', calls)" "sb_inv sb'"
    "sb_pools sb' = snd (pool_alloc (sb_pools sb))" by blast
  then show "sb_inv (snd (alloc_step sb))" "fst (alloc_step sb) = bid_of (fst (pool_alloc (sb_pools sb)))"
    "sb_pools (snd (alloc_step sb)) = snd (pool_alloc (sb_pools sb))" by (simp_all add: alloc_step_def)
qed (simp add: sb_pools_def remaining_def)

section \<open>A reclaimed bitmap is a pool\<close>

definition runs_ok :: "nat \<Rightarrow> (nat \<times> nat) list \<Rightarrow> bool" where
  "runs_ok n bs \<longleftrightarrow> sorted_wrt (\<lambda>r s. fst r + snd r \<le> fst s) bs \<and> (\<forall>r \<in> set bs. 0 < snd r \<and> fst r + snd r \<le> n)"

definition run_blocks :: "(nat \<times> nat) list \<Rightarrow> nat set" where
  "run_blocks bs = (\<Union>r \<in> set bs. {fst r..<fst r + snd r})"

lemma run_blocks_simps [simp]:
  "run_blocks [] = {}" "run_blocks ((b, c) # bs) = {b..<b + c} \<union> run_blocks bs"
  by (simp_all add: run_blocks_def)

lemma runs_ok_Cons:
  "runs_ok n ((b, c) # bs) \<longleftrightarrow> runs_ok n bs \<and> 0 < c \<and> b + c \<le> n \<and> (\<forall>x \<in> run_blocks bs. b + c \<le> x)"
proof -
  have "(\<forall>s \<in> set bs. b + c \<le> fst s) \<longleftrightarrow> (\<forall>x \<in> run_blocks bs. b + c \<le> x)" if "\<forall>s \<in> set bs. 0 < snd s"
    using that by (force simp: run_blocks_def)
  then show ?thesis by (auto simp: runs_ok_def)
qed

lemma run_blocks_card: "runs_ok n bs \<Longrightarrow> finite (run_blocks bs) \<and> card (run_blocks bs) = sum_list (map snd bs)"
proof (induction bs)
  case (Cons r bs)
  obtain b c where r: "r = (b, c)" by (cases r)
  with Cons have "{b..<b + c} \<inter> run_blocks bs = {}" by (fastforce simp: runs_ok_Cons)
  with Cons r show ?case by (simp add: runs_ok_Cons card_Un_disjoint)
qed simp

lemma run_blocks_bound: "runs_ok n bs \<Longrightarrow> x \<in> run_blocks bs \<Longrightarrow> x < n"
  by (force simp: runs_ok_def run_blocks_def)

lemma run_blocks_hd: "runs_ok n bs \<Longrightarrow> bs \<noteq> [] \<Longrightarrow> fst (hd bs) \<in> run_blocks bs \<and> (\<forall>x \<in> run_blocks bs. fst (hd bs) \<le> x)"
  by (cases bs) (fastforce simp: runs_ok_Cons)+

lemma fill_bitmap_spec:
  assumes "runs_ok sz bs" "sz \<le> 8 * length b" "sz < 2 ^ 64" "idx_valid t"
  shows "case fill_bitmap i bs b cur nfree t of (b', cur', nfree', t') \<Rightarrow>
    length b' = length b \<and> (\<forall>x < sz. is_bmp_set b' x \<longleftrightarrow> x \<in> run_blocks bs \<or> is_bmp_set b x) \<and>
    cur' = (if i = 0 \<and> cur = BLK_NOT_FOUND \<and> bs \<noteq> [] then fst (hd bs) else cur) \<and>
    nfree' = nfree + sum_list (map snd bs) \<and> idx_valid t' \<and>
    set (inorder t') = set (inorder t) \<union> (\<lambda>x. x div 256) ` run_blocks bs"
  using assms
proof (induction i bs b cur nfree t rule: fill_bitmap.induct)
  case (2 i bid count bs b cur nfree t)
  have ok: "runs_ok sz bs" "0 < count" "bid + count \<le> sz" using 2(2) by (auto simp: runs_ok_Cons)
  have up: "length (sb_bmp_set b bid count) = length b"
    "\<forall>x < sz. is_bmp_set (sb_bmp_set b bid count) x \<longleftrightarrow> bid \<le> x \<and> x < bid + count \<or> is_bmp_set b x"
    using sb_bmp_update_range [of bid count b True] ok(3) 2(3) by (auto simp: sb_bmp_set_def)
  have ix: "idx_valid (add_bmp_idx t bid count)"
    "set (inorder (add_bmp_idx t bid count)) = set (inorder t) \<union> (\<lambda>b. b div 256) ` {bid..<bid + count}"
    using add_bmp_idx_set [OF 2(5) ok(2)] ok(3) 2(4) by auto
  have "sz \<le> 8 * length (sb_bmp_set b bid count)" using 2(3) up(1) by simp
  from 2(1) [OF ok(1) this 2(4) ix(1)] up ix(2) show ?case
    by (auto split: prod.splits simp: image_Un)
qed simp

lemma is_bmp_set_zero: "x < 8 * n \<Longrightarrow> \<not> is_bmp_set (replicate n 0) x"
  by (simp add: is_bmp_set_def div8_def less_mult_imp_div_less mult.commute)

lemma fill_bitmap_pool:
  assumes "runs_ok sz bs" "bs \<noteq> []" "sz < BLK_NOT_FOUND"
    and f: "fill_bitmap 0 bs (replicate ((sz + 7) div 8) 0) BLK_NOT_FOUND 0 Null = (b, cur, nfree, t)"
  shows "pool_inv (Some b) sz t cur nfree \<and> pending (Some b) sz cur = run_blocks bs"
proof -
  let ?n = "(sz + 7) div 8"
  have sz: "sz \<le> 8 * ?n" "sz < 2 ^ 64" using assms(3) by (auto simp: BLK_NOT_FOUND_def)
  have F: "\<forall>x < sz. is_bmp_set b x \<longleftrightarrow> x \<in> run_blocks bs" "cur = fst (hd bs)" "nfree = sum_list (map snd bs)"
    "idx_valid t" "set (inorder t) = (\<lambda>x. x div 256) ` run_blocks bs"
    using fill_bitmap_spec [OF assms(1) _ sz(2) idx_valid_Null, of "replicate ?n 0" 0 BLK_NOT_FOUND 0] f sz(1) assms(2)
      is_bmp_set_zero [of _ ?n] by (auto split: prod.splits)
  note hd = run_blocks_hd [OF assms(1,2)]
  have P: "pending (Some b) sz cur = run_blocks bs"
    using F(1,2) hd run_blocks_bound [OF assms(1)] by (auto simp: pending_def)
  moreover have "nfree = card (run_blocks bs)" using run_blocks_card [OF assms(1)] F(3) by simp
  moreover have "nfree \<noteq> 0" using assms(1,2) F(3) by (cases bs) (auto simp: runs_ok_Cons)
  ultimately show ?thesis using F(2,4,5) hd assms(3) unfolding pool_inv_def P by (auto intro: div_le_mono)
qed

lemma reclaim_pool:
  assumes "sb_inv sb" "num_free_blocks sb = 0" "snd sheader \<noteq> BLK_NOT_FOUND"
    and n: "SB_DEFAULT_NUM_SUPERBLOCKS \<le> fm_pos file div fm_blocksize file" "fm_pos file div fm_blocksize file < BLK_NOT_FOUND"
    and bs: "runs_ok (fm_pos file div fm_blocksize file) blist" "blist \<noteq> []"
  shows "\<exists>sb'. sb_reclaim_reusable_blocks file sb sheader blist = Some (True, sb', [File_sync]) \<and>
    sb_inv sb' \<and> remaining sb' = run_blocks blist \<and> num_free_blocks sb' = card (run_blocks blist) \<and>
    num_init_free_blocks sb' = num_free_blocks sb' \<and> bmp_revnum sb' = bmp_revnum sb + 1 \<and>
    (min_live_hdr_revnum sb', min_live_hdr_bid sb') = sheader \<and> rsv sb' = rsv sb"
proof -
  let ?n = "fm_pos file div fm_blocksize file"
  have t: "free_bmp_idx (bmp_idx sb) = Null" using assms(1) by (auto simp: sb_inv_def pool_inv_def intro: free_bmp_idx_Null)
  have cur: "cur_alloc_bid sb = BLK_NOT_FOUND" using assms(1,2) by (simp add: sb_inv_def pool_inv_def)
  obtain b c nf t' where f: "fill_bitmap 0 blist (replicate ((?n + 7) div 8) 0) BLK_NOT_FOUND 0 Null = (b, c, nf, t')"
    by (metis prod_cases4)
  note pool = fill_bitmap_pool [OF bs n(2) f]
  let ?sb = "sb\<lparr>bmp := Some b, bmp_idx := t', cur_alloc_bid := c, num_free_blocks := nf, bmp_size := ?n,
    min_live_hdr_revnum := fst sheader, min_live_hdr_bid := snd sheader, bmp_revnum := bmp_revnum sb + 1,
    num_init_free_blocks := nf\<rparr>"
  have "sb_reclaim_reusable_blocks file sb sheader blist = Some (True, ?sb, [File_sync])"
    using assms(2,3) n(1) bs(2) f t cur by (simp add: sb_reclaim_reusable_blocks_def Let_def)
  moreover have "sb_inv ?sb"
    using pool assms(1) n(1) by (auto simp: sb_inv_def sb_bmp_exists_def SB_DEFAULT_NUM_SUPERBLOCKS_def)
  moreover have "remaining ?sb = run_blocks blist" using pool by (simp add: remaining_def)
  moreover have "nf = card (run_blocks blist)" using pool unfolding pool_inv_def by metis
  ultimately show ?thesis by simp
qed

lemma sb_init_inv: "sb_inv (sb_init_state n)"
  by (simp add: sb_init_state_def sb_inv_def pool_inv_def pending_def BLK_NOT_FOUND_def avl_init_def)

section \<open>Writable blocks\<close>

text \<open>How one allocation moves the cursor, or else replaces the bitmap and keeps the old one.\<close>

lemma switch_cases:
  "sb_switch_reserved_blocks sb = (sw, sb', calls) \<Longrightarrow>
    (if sw then \<exists>r. rsv sb = Some r \<and> bmp_revnum sb' = rsv_bmp_revnum r \<and> bmp_prev sb' = bmp sb \<and>
        bmp_prev_size sb' = bmp_size sb \<and> num_sb sb' = num_sb sb
     else sb' = sb)"
  by (auto simp: sb_switch_reserved_blocks_def split: option.splits if_splits)

definition same_bitmap :: "superblock \<Rightarrow> superblock \<Rightarrow> bool" where
  "same_bitmap sb sb' \<longleftrightarrow> bmp sb' = bmp sb \<and> bmp_size sb' = bmp_size sb \<and> bmp_revnum sb' = bmp_revnum sb \<and>
     num_sb sb' = num_sb sb"

definition replaced_bitmap :: "superblock \<Rightarrow> superblock \<Rightarrow> bool" where
  "replaced_bitmap sb sb' \<longleftrightarrow> bmp_prev sb' = bmp sb \<and> bmp_prev_size sb' = bmp_size sb \<and> num_sb sb' = num_sb sb \<and>
     (\<exists>r. rsv sb = Some r \<and> bmp_revnum sb' = rsv_bmp_revnum r)"

lemma alloc_exhausted_cases:
  assumes "sb_alloc_exhausted sb = (sb', calls)"
  shows "same_bitmap sb sb' \<and> cur_alloc_bid sb' = BLK_NOT_FOUND \<or> replaced_bitmap sb sb'"
proof -
  obtain sw sb1 cs where s: "sb_switch_reserved_blocks sb = (sw, sb1, cs)" by (metis prod_cases3)
  from switch_cases [OF s] s assms show ?thesis
    by (cases sw) (auto simp: sb_alloc_exhausted_def same_bitmap_def replaced_bitmap_def)
qed

lemma alloc_take_cases:
  assumes inv: "sb_inv sb" and nf: "num_free_blocks sb \<noteq> 0" and a: "sb_alloc_take sb = Some (ret, sb', calls)"
  shows "ret = cur_alloc_bid sb \<and> (same_bitmap sb sb' \<and> ret < cur_alloc_bid sb' \<or> replaced_bitmap sb sb')"
proof -
  have pool: "pool_inv (bmp sb) (bmp_size sb) (bmp_idx sb) (cur_alloc_bid sb) (num_free_blocks sb)"
    using inv by (simp add: sb_inv_def)
  then have lt: "cur_alloc_bid sb < BLK_NOT_FOUND" using nf by (auto simp: pool_inv_def pending_def)
  let ?sb = "sb\<lparr>num_free_blocks := num_free_blocks sb - 1\<rparr>"
  show ?thesis
  proof (cases "num_free_blocks sb = 1")
    case True
    with a have "ret = cur_alloc_bid sb" "sb_alloc_exhausted ?sb = (sb', calls)"
      by (auto simp: sb_alloc_take_def Let_def split: prod.splits)
    with alloc_exhausted_cases [of ?sb] lt show ?thesis by (auto simp: same_bitmap_def replaced_bitmap_def)
  next
    case False
    with nf have "1 < num_free_blocks sb" by linarith
    from pool_next [OF pool this] obtain x t where
      x: "alloc_next (Suc (length (inorder (bmp_idx sb)))) (the (bmp sb)) (bmp_size sb) (bmp_idx sb)
        (cur_alloc_bid sb div 256) (cur_alloc_bid sb mod 256 + 1) = Some (Some x, t)"
      "pool_inv (bmp sb) (bmp_size sb) t x (num_free_blocks sb - 1)"
      "pending (bmp sb) (bmp_size sb) x = pending (bmp sb) (bmp_size sb) (cur_alloc_bid sb) - {cur_alloc_bid sb}"
      by blast
    have "x \<in> pending (bmp sb) (bmp_size sb) x" using x(2) \<open>1 < num_free_blocks sb\<close> by (simp add: pool_inv_def)
    then have "cur_alloc_bid sb < x" unfolding x(3) by (auto simp: pending_def)
    with False nf a x(1) show ?thesis by (auto simp: sb_alloc_take_def Let_def same_bitmap_def)
  qed
qed

lemma alloc_block_cases:
  assumes inv: "sb_inv sb" and R: "remaining sb \<noteq> {}" and a: "sb_alloc_block sb = Some (ret, sb', calls)"
  shows "ret = cur_alloc_bid sb \<and> ret \<in> remaining sb \<and>
    (same_bitmap sb sb' \<and> ret < cur_alloc_bid sb' \<or> replaced_bitmap sb sb')"
proof -
  let ?sb = "sb\<lparr>num_alloc := Suc (num_alloc sb)\<rparr>"
  have nf: "num_free_blocks sb \<noteq> 0" using R sb_remaining_empty [OF inv] by simp
  have "sb_bmp_exists ?sb" using R by (auto simp: remaining_def pending_def sb_bmp_exists_def)
  then have "sb_alloc_take ?sb = Some (ret, sb', calls)" using a nf by (simp add: sb_alloc_block_def Let_def)
  from alloc_take_cases [OF _ _ this] inv nf num_alloc_irrelevant(1) [of "Suc (num_alloc sb)" sb]
  have "ret = cur_alloc_bid sb" "same_bitmap sb sb' \<and> ret < cur_alloc_bid sb' \<or> replaced_bitmap sb sb'"
    by (auto simp: same_bitmap_def replaced_bitmap_def)
  moreover have "cur_alloc_bid sb \<in> remaining sb" using inv nf by (auto simp: sb_inv_def pool_inv_def remaining_def)
  ultimately show ?thesis by simp
qed

section \<open>Properties of the block allocator\<close>

text \<open>
  C8. Allocating a block refines the abstract allocator: the loops end, the result is the block
  the abstract allocator hands out (or the not-found number), the new state represents the
  abstract successor, and the invariant is kept.
\<close>

theorem sb_alloc_refines:
  assumes "sb_inv sb"
  shows "\<exists>sb' calls. sb_alloc_block sb = Some (bid_of (fst (pool_alloc (sb_pools sb))), sb', calls) \<and>
    sb_inv sb' \<and> sb_pools sb' = snd (pool_alloc (sb_pools sb))"
  using assms by (rule alloc_block_spec)

theorem sb_alloc_refines_witness:
  "\<exists>sb' calls. sb_alloc_block (sb_init_state 4) = Some (BLK_NOT_FOUND, sb', calls) \<and> sb_inv sb'"
proof -
  have "sb_pools (sb_init_state 4) = ({}, None)"
    by (simp add: sb_pools_def remaining_def pending_def sb_init_state_def ready_rsv_def)
  then have "pool_alloc (sb_pools (sb_init_state 4)) = (None, {}, None)" by (simp add: pool_alloc_def refill_def)
  with sb_alloc_refines [OF sb_init_inv [of 4]] show ?thesis by (auto simp: bid_of_def)
qed

text \<open>
  C30. A bitmap hands out every one of its remaining blocks exactly once and in ascending order;
  when no reserved bitmap is ready, the allocation after the last one finds no block.
\<close>

theorem sb_alloc_ascending:
  assumes "sb_inv sb" "n \<le> card (remaining sb)"
  shows "fst (iter_alloc alloc_step n sb) = take n (sorted_list_of_set (remaining sb)) \<and>
    (ready_rsv sb = None \<longrightarrow>
      fst (alloc_step (snd (iter_alloc alloc_step (card (remaining sb)) sb))) = BLK_NOT_FOUND)"
proof -
  have R: "remaining sb = fst (sb_pools sb)" by (simp add: sb_pools_def)
  have "fst (alloc_step (snd (iter_alloc alloc_step (card (remaining sb)) sb))) = BLK_NOT_FOUND" if "ready_rsv sb = None"
  proof -
    have "snd (sb_pools sb) = None" using that by (simp add: sb_pools_def)
    from bmp_pool.exhausted_not_found [OF bmp_pool.iter_keeps [OF assms(1)] bmp_pool.iter_exhausts [OF assms(1) this]]
    show ?thesis unfolding R by simp
  qed
  with bmp_pool.iter_ascending [of sb n] assms show ?thesis unfolding R by simp
qed

text \<open>A file of sixteen blocks without a superblock, for the examples.\<close>

definition small_file :: filemgr where
  "small_file = \<lparr>fm_sb = None, fm_blocksize = 4096, fm_pos = 65536, fm_last_commit = 0,
     fm_last_writable_bmp_revnum = 1, fm_status = FILE_NORMAL, fm_block_reusing_threshold = 65,
     fm_num_keeping_headers = 5, fm_version = ver_get_latest_magic, fm_crc_mode = CRC32, fm_ops = posix_ops, fm_data = [],
     fm_stale_list = Some []\<rparr>"

definition small_runs :: "(nat \<times> nat) list" where "small_runs = [(5, 2), (9, 1)]"

lemma small_runs_ok: "runs_ok 16 small_runs" "small_runs \<noteq> []" "run_blocks small_runs = {5, 6, 9}"
  by (auto simp: runs_ok_def small_runs_def)

lemma small_reclaim:
  "\<exists>sb'. sb_reclaim_reusable_blocks small_file (sb_init_state 4) (3, 7) small_runs = Some (True, sb', [File_sync]) \<and>
    sb_inv sb' \<and> remaining sb' = {5, 6, 9} \<and> bmp_revnum sb' = 1 \<and> rsv sb' = None"
  using reclaim_pool [OF sb_init_inv [of 4], of "(3, 7)" small_file small_runs] small_runs_ok
  by (auto simp: sb_init_state_def BLK_NOT_FOUND_def small_file_def SB_DEFAULT_NUM_SUPERBLOCKS_def)

theorem sb_alloc_ascending_witness:
  "\<exists>sb'. sb_reclaim_reusable_blocks small_file (sb_init_state 4) (3, 7) small_runs = Some (True, sb', [File_sync]) \<and>
    fst (iter_alloc alloc_step 3 sb') = [5, 6, 9]"
proof -
  obtain sb' where "sb_reclaim_reusable_blocks small_file (sb_init_state 4) (3, 7) small_runs = Some (True, sb', [File_sync])"
    "sb_inv sb'" "remaining sb' = {5, 6, 9}" using small_reclaim by blast
  with sb_alloc_ascending [of sb' 3] show ?thesis by simp
qed

text \<open>
  C31. Reclaiming with a list of disjoint ascending runs of blocks inside the file turns an exhausted
  superblock into one whose remaining blocks are exactly the blocks of the runs, with matching
  counters, the next bitmap revision and the given oldest header; the invariant holds again.
\<close>

theorem sb_reclaim_establishes:
  assumes "sb_inv sb" "num_free_blocks sb = 0" "snd sheader \<noteq> BLK_NOT_FOUND"
    "SB_DEFAULT_NUM_SUPERBLOCKS \<le> fm_pos file div fm_blocksize file" "fm_pos file div fm_blocksize file < BLK_NOT_FOUND"
    "runs_ok (fm_pos file div fm_blocksize file) blist" "blist \<noteq> []"
  shows "\<exists>sb'. sb_reclaim_reusable_blocks file sb sheader blist = Some (True, sb', [File_sync]) \<and>
    sb_inv sb' \<and> remaining sb' = run_blocks blist \<and> num_free_blocks sb' = card (run_blocks blist) \<and>
    num_init_free_blocks sb' = num_free_blocks sb' \<and> bmp_revnum sb' = bmp_revnum sb + 1 \<and>
    (min_live_hdr_revnum sb', min_live_hdr_bid sb') = sheader \<and> rsv sb' = rsv sb"
  using assms by (rule reclaim_pool)

theorem sb_reclaim_establishes_witness:
  "\<exists>sb'. sb_reclaim_reusable_blocks small_file (sb_init_state 4) (3, 7) small_runs = Some (True, sb', [File_sync]) \<and>
    remaining sb' = {5, 6, 9}"
  using sb_reclaim_establishes [OF sb_init_inv [of 4], of "(3, 7)" small_file small_runs] small_runs_ok
  by (auto simp: sb_init_state_def BLK_NOT_FOUND_def small_file_def SB_DEFAULT_NUM_SUPERBLOCKS_def)

text \<open>
  C32. A block just handed out by the allocator is writable, also when handing it out exhausted the
  bitmap and switched to the reserved one. While the bitmap is the one of the last commit, a block
  that the allocator has yet to hand out and a block before the last commit position are not
  writable, apart from the superblocks themselves.
\<close>

theorem sb_writable_blocks:
  assumes "sb_inv sb" "fm_last_writable_bmp_revnum file = bmp_revnum sb"
  shows "(fm_last_commit file div fm_blocksize file \<le> cur_alloc_bid sb \<and> remaining sb \<noteq> {} \<and>
      (\<forall>r. rsv sb = Some r \<longrightarrow> rsv_bmp_revnum r \<noteq> bmp_revnum sb) \<and>
      sb_alloc_block sb = Some (ret, sb', calls) \<longrightarrow> sb_bmp_is_writable file sb' ret) \<and>
    (num_sb sb \<le> bid \<and> (bid \<in> remaining sb \<or> bid < fm_last_commit file div fm_blocksize file) \<longrightarrow>
      \<not> sb_bmp_is_writable file sb bid)"
proof (intro conjI impI)
  assume p: "fm_last_commit file div fm_blocksize file \<le> cur_alloc_bid sb \<and> remaining sb \<noteq> {} \<and>
      (\<forall>r. rsv sb = Some r \<longrightarrow> rsv_bmp_revnum r \<noteq> bmp_revnum sb) \<and> sb_alloc_block sb = Some (ret, sb', calls)"
  note c = alloc_block_cases [OF assms(1), of ret sb' calls]
  from c p have ret: "ret = cur_alloc_bid sb" "is_bmp_set (the (bmp sb)) ret" "ret < bmp_size sb"
    by (auto simp: remaining_def pending_def)
  from c p consider "same_bitmap sb sb'" "ret < cur_alloc_bid sb'" | "replaced_bitmap sb sb'" by blast
  then show "sb_bmp_is_writable file sb' ret"
  proof cases
    case 1
    with ret p assms(2) show ?thesis by (simp add: sb_bmp_is_writable_def same_bitmap_def Let_def)
  next
    case 2
    with ret p assms(2) show ?thesis
      by (auto simp: sb_bmp_is_writable_def replaced_bitmap_def Let_def split: option.splits)
  qed
qed (use assms(2) in \<open>auto simp: sb_bmp_is_writable_def remaining_def pending_def Let_def\<close>)

theorem sb_writable_blocks_witness:
  "\<exists>sb sb' calls. sb_alloc_block sb = Some (5, sb', calls) \<and> sb_bmp_is_writable small_file sb' 5 \<and>
    (num_sb sb \<le> 6 \<longrightarrow> \<not> sb_bmp_is_writable small_file sb 6)"
proof -
  obtain sb where sb: "sb_inv sb" "remaining sb = {5, 6, 9}" "bmp_revnum sb = 1" "rsv sb = None" using small_reclaim by blast
  then have "fst (pool_alloc (sb_pools sb)) = Some 5" by (simp add: sb_pools_def pool_alloc_def refill_def Let_def)
  with alloc_block_spec [OF sb(1)] obtain sb' calls where a: "sb_alloc_block sb = Some (5, sb', calls)"
    by (auto simp: bid_of_def)
  from sb_writable_blocks [OF sb(1), of small_file 5 sb' calls 6] sb a show ?thesis
    by (auto simp: small_file_def)
qed

section \<open>Decisions\<close>


definition small_config :: fdb_config where
  "small_config = (get_default_config 4)\<lparr>min_block_reuse_filesize := 0\<rparr>"

definition small_handle :: fdb_kvs_handle where
  "small_handle = \<lparr>h_file = small_file\<lparr>fm_sb := Some (sb_init_state 4)\<rparr>, h_config = small_config,
     h_last_hdr_bid = 12, h_cur_header_revnum = 7\<rparr>"


section \<open>Returning blocks\<close>

lemma idx_remove_first:
  assumes "idx_valid t" "avl_first t = Some c"
  shows "idx_valid (avl_remove c)"
proof -
  obtain u ps where c: "c = (u, ps)" by (cases c)
  then have u: "u \<noteq> Null" "plug u ps = t"
    using assms(2) avl_first_from_Some [of t "[]" u ps] by (auto simp: avl_first_def)
  with assms(1) have "avl_valid bmp_idx_cmp (avl_remove c)"
    using bmp_idx.remove_loc(1) [of u ps] c by (simp add: idx_valid_def)
  with avl_first_remove [OF assms(2)] assms(1) show ?thesis by (simp add: idx_valid_def)
qed

lemma skip_nodes_valid: "idx_valid t \<Longrightarrow> idx_valid (fst (skip_nodes t n))"
proof (induction t n rule: skip_nodes.induct)
  case (1 t n)
  then show ?case
    by (cases "avl_first t") (auto simp: skip_nodes.simps [of t n] dest: idx_remove_first)
qed

lemma skip_nodes_all: "(\<forall>k \<in> set (inorder t). k \<le> n) \<Longrightarrow> snd (skip_nodes t n) = None"
proof (induction t n rule: skip_nodes.induct)
  case (1 t n)
  then show ?case
    by (cases "avl_first t") (auto simp: skip_nodes.simps [of t n] dest: avl_first_remove)
qed

lemma return_scan_spec:
  assumes "idx_valid t" "sz < 2 ^ 64"
  shows "case return_scan b sz t cur of (bs, t') \<Rightarrow>
    sorted_wrt (<) bs \<and> set bs \<subseteq> pending (Some b) sz cur \<and> idx_valid t'"
  using assms
proof (induction b sz t cur rule: return_scan.induct)
  case (1 b sz t cur)
  let ?here = "if is_bmp_set b cur then [cur] else []"
  have add: "sorted_wrt (<) (?here @ bs) \<and> set (?here @ bs) \<subseteq> pending (Some b) sz cur"
    if "sorted_wrt (<) bs" "set bs \<subseteq> pending (Some b) sz next" "cur < next" "cur < sz" for bs "next"
    using that by (auto simp: pending_def)
  consider "\<not> cur < sz" | "cur < sz" "\<not> (cur mod 256 = 0 \<and> cur > 0)"
    | "cur < sz" "cur mod 256 = 0 \<and> cur > 0" by metis
  then show ?case
  proof cases
    case 1
    then show ?thesis using "1.prems" return_scan.simps [of b sz t cur] by simp
  next
    case 2
    with "1.IH"(2) [OF 2(1) refl 2(2) "1.prems"] add [of "fst (return_scan b sz t (Suc cur))" "Suc cur"]
    show ?thesis by (subst return_scan.simps) (auto simp: Let_def split: prod.splits)
  next
    case 3
    let ?t = "case avl_search bmp_idx_cmp t (cur div 256 - 1) of Some c \<Rightarrow> avl_remove c | None \<Rightarrow> t"
    have "cur div 256 - 1 < 2 ^ 64" using 3(1) "1.prems"(2) by (metis diff_le_self div_le_dividend le_less_trans less_trans)
    then have v: "idx_valid ?t" using idx_drop(1) [OF "1.prems"(1)] by blast
    obtain t2 k where s: "skip_nodes ?t (cur div 256) = (t2, k)" by (metis surj_pair)
    then have v2: "idx_valid t2" using skip_nodes_valid [OF v, of "cur div 256"] by simp
    show ?thesis
    proof (cases k)
      case None
      with s 3 v2 add [of "[]" "Suc cur"] show ?thesis
        by (subst return_scan.simps) (simp add: Let_def)
    next
      case (Some j)
      then have "cur < Suc (j * 256)"
        using skip_nodes_greater [of ?t "cur div 256" t2 j] s by (simp add: div_less_iff_less_mult less_Suc_eq)
      moreover from "1.IH"(1) [OF 3(1) refl 3(2) refl refl s [symmetric] Some v2 "1.prems"(2)]
      have "case return_scan b sz t2 (Suc (j * 256)) of (bs, t') \<Rightarrow>
        sorted_wrt (<) bs \<and> set bs \<subseteq> pending (Some b) sz (Suc (j * 256)) \<and> idx_valid t'" .
      ultimately show ?thesis using s 3 Some add [of "fst (return_scan b sz t2 (Suc (j * 256)))" "Suc (j * 256)"]
        by (subst return_scan.simps) (auto simp: Let_def split: prod.splits)
    qed
  qed
qed



text \<open>
  C35. The scan that returns the remaining blocks skips reusable ones: of the blocks 255 to 259, all
  set in the bitmap and all covered by the index, it reports only 255 and 256, because on reaching
  block 256 it drops the index node of the group that it is in.
\<close>

theorem sb_return_misses:
  "\<exists>b t. idx_valid t \<and> pending (Some b) 260 255 = {255, 256, 257, 258, 259} \<and>
    (\<lambda>x. x div 256) ` pending (Some b) 260 255 \<subseteq> set (inorder t) \<and> fst (return_scan b 260 t 255) = [255, 256]"
proof -
  let ?b = "sb_bmp_set (replicate 33 0) 255 5" and ?t = "add_bmp_idx Null 255 5"
  have b: "is_bmp_set ?b x \<longleftrightarrow> 255 \<le> x \<and> x < 260" if "x < 264" for x
    using that sb_bmp_update_range [of 255 5 "replicate 33 0" True] is_bmp_set_zero [of x 33]
    by (simp add: sb_bmp_set_def)
  then have P: "pending (Some ?b) 260 255 = {255, 256, 257, 258, 259}" by (auto simp: pending_def)
  have r: "{255..<255 + 5::nat} = {255, 256, 257, 258, 259}" by auto
  have t: "idx_valid ?t" "set (inorder ?t) = {0, 1}"
    using add_bmp_idx_set [of Null 5 255, unfolded r] by auto
  let ?t1 = "case avl_search bmp_idx_cmp ?t 0 of Some c \<Rightarrow> avl_remove c | None \<Rightarrow> ?t"
  have "snd (skip_nodes ?t1 1) = None" using idx_drop(2) [OF t(1), of 0] t(2) by (intro skip_nodes_all) auto
  then have "fst (return_scan ?b 260 ?t 256) = [256]"
    using b [of 256] by (subst return_scan.simps) (auto simp: Let_def split: prod.splits option.splits)
  then have "fst (return_scan ?b 260 ?t 255) = [255, 256]"
    using b [of 255] by (subst return_scan.simps) (auto simp: Let_def split: prod.splits)
  with t P show ?thesis by (intro exI [of _ ?b] exI [of _ ?t]) auto
qed

section \<open>Header bookkeeping\<close>



end
