(* ===== verification/File_Manager.thy ===== *)
theory File_Manager
  imports Block_Alloc
begin

text \<open>
  The parts of \<^verbatim>\<open>src/filemgr.cc\<close> below the document layer: block allocation, writability, block reads
  and writes, and the list of stale regions. Modelled is the configuration without a block cache
  (\<^verbatim>\<open>global_config.ncacheblock = 0\<close>) and without encryption, in which every access goes to the file;
  locks and log messages are left out. A status is the code of \<^verbatim>\<open>fdb_errors.h\<close>, an error of the
  operating system layer is its negative result.
\<close>

section \<open>Status codes and markers\<close>

definition FDB_RESULT_SUCCESS :: int where "FDB_RESULT_SUCCESS = 0"
definition FDB_RESULT_WRITE_FAIL :: int where "FDB_RESULT_WRITE_FAIL = -4"
definition FDB_RESULT_READ_FAIL :: int where "FDB_RESULT_READ_FAIL = -5"
definition FDB_RESULT_CHECKSUM_ERROR :: int where "FDB_RESULT_CHECKSUM_ERROR = -15"
definition FDB_RESULT_FILE_CORRUPTION :: int where "FDB_RESULT_FILE_CORRUPTION = -16"

definition BLK_MARKER_BNODE :: byte where "BLK_MARKER_BNODE = 0xff"
definition BLK_MARKER_DBHEADER :: byte where "BLK_MARKER_DBHEADER = 0xee"
definition BLK_MARKER_DOC :: byte where "BLK_MARKER_DOC = 0xdd"
definition BLK_MARKER_SB :: byte where "BLK_MARKER_SB = 0xcc"
definition BLK_MARKER_SIZE :: nat where "BLK_MARKER_SIZE = 1"
definition DOCBLK_META_SIZE :: nat where "DOCBLK_META_SIZE = 16"
definition BTREE_CRC_OFFSET :: nat where "BTREE_CRC_OFFSET = 8"
definition BTREE_CRC_FIELD_LEN :: nat where "BTREE_CRC_FIELD_LEN = 8"

record docblk_meta =
  next_bid :: u64
  sb_bmp_revnum_hash :: u16
  marker :: byte

definition meta_mem :: "docblk_meta \<Rightarrow> buf" where
  "meta_mem m = word_mem 8 (next_bid m) @ word_mem 2 (sb_bmp_revnum_hash m) @ replicate 5 0 @ [marker m]"

definition mem_meta :: "buf \<Rightarrow> docblk_meta" where
  "mem_meta b = \<lparr>next_bid = mem_word (mem_read b 0 8), sb_bmp_revnum_hash = mem_word (mem_read b 8 2), marker = b ! 15\<rparr>"

section \<open>Reading and writing blocks\<close>

definition filemgr_read_block :: "filemgr \<Rightarrow> nat \<Rightarrow> buf \<times> int" where
  "filemgr_read_block file bid = ops_pread (fm_ops file) (fm_data file) (fm_blocksize file * bid) (fm_blocksize file)"

text \<open>The check overwrites the checksum field of a tree node; the new buffer is the second component.\<close>

definition filemgr_crc32_check :: "filemgr \<Rightarrow> buf \<Rightarrow> int \<times> buf" where
  "filemgr_crc32_check file b =
     (if b ! (fm_blocksize file - 1) = BLK_MARKER_BNODE then
        (let crc_file = dec32 (mem_word (mem_read b BTREE_CRC_OFFSET 4));
             b' = mem_set b BTREE_CRC_OFFSET 0xff BTREE_CRC_FIELD_LEN
         in if perform_integrity_check b' (fm_blocksize file) crc_file (fm_crc_mode file)
            then (FDB_RESULT_SUCCESS, b') else (FDB_RESULT_CHECKSUM_ERROR, b'))
      else (FDB_RESULT_SUCCESS, b))"

definition filemgr_read :: "filemgr \<Rightarrow> nat \<Rightarrow> bool \<Rightarrow> int + buf" where
  "filemgr_read file bid read_on_cache_miss =
     (if bid * fm_blocksize file \<ge> fm_pos file then Inl FDB_RESULT_READ_FAIL
      else if \<not> read_on_cache_miss then Inl FDB_RESULT_READ_FAIL
      else case filemgr_read_block file bid of (b, r) \<Rightarrow>
        if r \<noteq> int (fm_blocksize file) then Inl (if r < 0 then r else FDB_RESULT_READ_FAIL)
        else case filemgr_crc32_check file b of (st, b') \<Rightarrow>
          if st \<noteq> FDB_RESULT_SUCCESS then Inl st else Inr b')"

definition filemgr_is_writable :: "filemgr \<Rightarrow> nat \<Rightarrow> bool" where
  "filemgr_is_writable file bid =
     (case fm_sb file of
        Some sb \<Rightarrow>
          if sb_bmp_exists sb then sb_bmp_is_writable file sb bid
          else bid * fm_blocksize file < fm_pos file \<and> bid * fm_blocksize file \<ge> fm_last_commit file
      | None \<Rightarrow> bid * fm_blocksize file < fm_pos file \<and> bid * fm_blocksize file \<ge> fm_last_commit file)"

text \<open>The guards of \<^verbatim>\<open>filemgr_write_offset\<close>, then the write itself.\<close>

definition write_permitted :: "filemgr \<Rightarrow> nat \<Rightarrow> nat \<Rightarrow> bool" where
  "write_permitted file bid pos =
     (case fm_sb file of
        Some sb \<Rightarrow>
          if sb_bmp_exists sb then sb_bmp_is_writable file sb bid
          else \<not> (pos < fm_last_commit file \<and> pos \<ge> num_sb sb * fm_blocksize file)
      | None \<Rightarrow> \<not> pos < fm_last_commit file)"

definition bnode_with_crc :: "filemgr \<Rightarrow> buf \<Rightarrow> buf option" where
  "bnode_with_crc file b =
     (if b ! (fm_blocksize file - 1) = BLK_MARKER_BNODE then
        (let b' = mem_set b BTREE_CRC_OFFSET 0xff BTREE_CRC_FIELD_LEN
         in map_option (\<lambda>crc. mem_write b' BTREE_CRC_OFFSET (word_mem 4 (enc32 crc)))
              (get_checksum_mode b' (fm_blocksize file) (fm_crc_mode file)))
      else Some b)"

text \<open>
  \<^const>\<open>None\<close> is a checksum mode that the build does not support. The code changes the caller's
  buffer when it fills in the checksum; callers do not look at it again.
\<close>

definition filemgr_write_offset :: "filemgr \<Rightarrow> nat \<Rightarrow> nat \<Rightarrow> buf \<Rightarrow> (int \<times> filemgr) option" where
  "filemgr_write_offset file bid offset src =
     (let pos = bid * fm_blocksize file + offset; len = length src in
      if offset + len > fm_blocksize file then Some (FDB_RESULT_WRITE_FAIL, file)
      else if \<not> write_permitted file bid pos then Some (FDB_RESULT_WRITE_FAIL, file)
      else case (if len = fm_blocksize file then bnode_with_crc file src else Some src) of
             None \<Rightarrow> None
           | Some b \<Rightarrow>
               (case ops_pwrite (fm_ops file) (fm_data file) b pos of (d, r) \<Rightarrow>
                  if r \<noteq> int len then Some (if r < 0 then r else FDB_RESULT_WRITE_FAIL, file\<lparr>fm_data := d\<rparr>)
                  else Some (FDB_RESULT_SUCCESS, file\<lparr>fm_data := d\<rparr>)))"

definition filemgr_write :: "filemgr \<Rightarrow> nat \<Rightarrow> buf \<Rightarrow> (int \<times> filemgr) option" where
  "filemgr_write file bid src = filemgr_write_offset file bid 0 src"

section \<open>Stale regions\<close>

text \<open>A stale item has a 64-bit position and a 32-bit length.\<close>

definition filemgr_add_stale_block :: "filemgr \<Rightarrow> nat \<Rightarrow> nat \<Rightarrow> filemgr" where
  "filemgr_add_stale_block file pos len =
     (case fm_stale_list file of
        None \<Rightarrow> file
      | Some items \<Rightarrow>
          if items \<noteq> [] \<and> fst (last items) + snd (last items) = pos
          then file\<lparr>fm_stale_list := Some (butlast items @ [(fst (last items), (snd (last items) + len) mod 2 ^ 32)])\<rparr>
          else file\<lparr>fm_stale_list := Some (items @ [(pos, len mod 2 ^ 32)])\<rparr>)"

definition filemgr_actual_stale_length :: "filemgr \<Rightarrow> nat \<Rightarrow> nat \<Rightarrow> nat" where
  "filemgr_actual_stale_length file offset len =
     (let start_bid = offset div fm_blocksize file;
          end_bid = (offset + len) div fm_blocksize file;
          actual_len = len + (end_bid - start_bid)
      in if (offset + actual_len) mod fm_blocksize file = fm_blocksize file - 1 then actual_len + 1 else actual_len)"

text \<open>
  The loop of \<^verbatim>\<open>filemgr_actual_stale_regions\<close> over the blocks of a document. \<open>None\<close> stands for the use
  of a buffer that a failed read left uninitialised, and for running out of fuel; each round but
  the first consumes a whole block, so the length plus two rounds are enough.
\<close>

fun stale_region_loop :: "nat \<Rightarrow> filemgr \<Rightarrow> nat \<Rightarrow> nat \<Rightarrow> nat \<Rightarrow> (nat \<times> nat) list option" where
  "stale_region_loop 0 file cur_bid cur_pos left = None"
| "stale_region_loop (Suc fuel) file cur_bid cur_pos left =
     (if left = 0 then Some []
      else
        (let real = fm_blocksize file; blk = real - DOCBLK_META_SIZE; pos = cur_bid * real + cur_pos in
         if cur_pos \<le> blk \<and> blk - cur_pos \<le> left then
           (let left' = left - (blk - cur_pos) in
            if left' = 0 then Some [(pos, real - cur_pos)]
            else case filemgr_read file cur_bid True of
                   Inl _ \<Rightarrow> None
                 | Inr b \<Rightarrow>
                     map_option ((#) (pos, real - cur_pos))
                       (stale_region_loop fuel file (unat (dec64 (next_bid (mem_meta (drop blk b))))) 0 left'))
         else Some [(pos, left)]))"

definition filemgr_actual_stale_regions :: "filemgr \<Rightarrow> nat \<Rightarrow> nat \<Rightarrow> (nat \<times> nat) list option" where
  "filemgr_actual_stale_regions file offset len =
     (if ver_non_consecutive_doc (fm_version file)
      then stale_region_loop (len + 2) file (offset div fm_blocksize file) (offset mod fm_blocksize file) len
      else Some [(offset, filemgr_actual_stale_length file offset len)])"

definition filemgr_mark_stale :: "filemgr \<Rightarrow> nat \<Rightarrow> nat \<Rightarrow> filemgr option" where
  "filemgr_mark_stale file offset len =
     (if fm_stale_list file \<noteq> None \<and> len \<noteq> 0
      then map_option (foldl (\<lambda>f r. filemgr_add_stale_block f (fst r) (snd r)) file)
             (filemgr_actual_stale_regions file offset len)
      else Some file)"

section \<open>Allocation\<close>

text \<open>
  The calls that switching bitmaps makes, executed on the file; a sync writes back a cache that is
  not there.
\<close>

fun apply_calls :: "fm_call list \<Rightarrow> filemgr \<Rightarrow> filemgr option" where
  "apply_calls [] file = Some file"
| "apply_calls (Mark_stale off len # cs) file =
     (case filemgr_mark_stale file off len of None \<Rightarrow> None | Some file' \<Rightarrow> apply_calls cs file')"
| "apply_calls (Add_stale_block pos len # cs) file = apply_calls cs (filemgr_add_stale_block file pos len)"
| "apply_calls (File_sync # cs) file = apply_calls cs file"
| "apply_calls (Gather_stale_blocks rev_no # cs) file = apply_calls cs file"

definition alloc_from_sb :: "filemgr \<Rightarrow> (nat \<times> filemgr) option" where
  "alloc_from_sb file =
     (case fm_sb file of
        Some sb \<Rightarrow>
          if fm_status file = FILE_NORMAL then
            (case sb_alloc_block sb of
               None \<Rightarrow> None
             | Some (bid, sb', calls) \<Rightarrow>
                 map_option (\<lambda>f. (bid, f\<lparr>fm_sb := Some sb'\<rparr>)) (apply_calls calls file))
          else Some (BLK_NOT_FOUND, file)
      | None \<Rightarrow> Some (BLK_NOT_FOUND, file))"

text \<open>Without a cache the last byte of the new block is written, which extends the file.\<close>

definition touch :: "filemgr \<Rightarrow> nat \<Rightarrow> filemgr" where
  "touch file off = file\<lparr>fm_data := fst (ops_pwrite (fm_ops file) (fm_data file) [0] off)\<rparr>"

definition filemgr_alloc :: "filemgr \<Rightarrow> (nat \<times> filemgr) option" where
  "filemgr_alloc file =
     (case alloc_from_sb file of
        None \<Rightarrow> None
      | Some (bid0, file1) \<Rightarrow>
          (let (bid, file2) =
             (if bid0 = BLK_NOT_FOUND
              then (fm_pos file1 div fm_blocksize file1, file1\<lparr>fm_pos := fm_pos file1 + fm_blocksize file1\<rparr>)
              else (bid0, file1))
           in Some (bid, touch file2 ((bid + 1) * fm_blocksize file2 - 1))))"

definition filemgr_alloc_multiple :: "filemgr \<Rightarrow> nat \<Rightarrow> nat \<times> nat \<times> filemgr" where
  "filemgr_alloc_multiple file nblock =
     (let b = fm_pos file div fm_blocksize file;
          file1 = file\<lparr>fm_pos := fm_pos file + fm_blocksize file * nblock\<rparr>
      in (b, b + nblock - 1, touch file1 (fm_pos file1 - 1)))"

definition filemgr_alloc_multiple_cond :: "filemgr \<Rightarrow> nat \<Rightarrow> nat \<Rightarrow> nat \<times> nat \<times> nat \<times> filemgr" where
  "filemgr_alloc_multiple_cond file nextbid nblock =
     (let bid = fm_pos file div fm_blocksize file in
      if bid = nextbid
      then (let file1 = file\<lparr>fm_pos := fm_pos file + fm_blocksize file * nblock\<rparr>
            in (bid, bid, bid + nblock - 1, touch file1 (fm_pos file1)))
      else (bid, BLK_NOT_FOUND, BLK_NOT_FOUND, file))"

section \<open>Block contents\<close>

text \<open>
  A file is sound for block access when the operating system layer behaves, positions are whole
  blocks and the allocated part of the file exists.
\<close>

definition file_ok :: "filemgr \<Rightarrow> bool" where
  "file_ok file \<longleftrightarrow> fm_ops file = posix_ops \<and> DOCBLK_META_SIZE < fm_blocksize file \<and>
     fm_pos file mod fm_blocksize file = 0 \<and> length (fm_data file) = fm_pos file"

definition block :: "filemgr \<Rightarrow> nat \<Rightarrow> buf" where
  "block file bid = mem_read (fm_data file) (bid * fm_blocksize file) (fm_blocksize file)"

lemma block_inside:
  assumes "file_ok file" "bid * fm_blocksize file < fm_pos file"
  shows "bid * fm_blocksize file + fm_blocksize file \<le> length (fm_data file)"
proof -
  have bs: "0 < fm_blocksize file" "fm_pos file mod fm_blocksize file = 0" "length (fm_data file) = fm_pos file"
    using assms(1) by (auto simp: file_ok_def)
  then obtain n where n: "fm_pos file = n * fm_blocksize file" by (metis mod_0_imp_dvd dvd_def mult.commute)
  then have "bid < n" using assms(2) bs(1) by simp
  then have "(bid + 1) * fm_blocksize file \<le> n * fm_blocksize file" by (intro mult_le_mono1) simp
  with n bs show ?thesis by simp
qed

lemma length_block:
  "file_ok file \<Longrightarrow> bid * fm_blocksize file < fm_pos file \<Longrightarrow> length (block file bid) = fm_blocksize file"
  using block_inside length_mem_read [of "bid * fm_blocksize file" "fm_blocksize file" "fm_data file"]
  by (simp add: block_def)

lemma read_block:
  assumes "file_ok file" "bid * fm_blocksize file < fm_pos file"
  shows "filemgr_read_block file bid = (block file bid, int (fm_blocksize file))"
  using assms length_block [OF assms]
  by (simp add: filemgr_read_block_def file_ok_def posix_ops_def posix_pread_def block_def mult.commute)

lemma read_plain:
  assumes "file_ok file" "bid * fm_blocksize file < fm_pos file"
    "block file bid ! (fm_blocksize file - 1) \<noteq> BLK_MARKER_BNODE"
  shows "filemgr_read file bid True = Inr (block file bid)"
  using assms read_block [OF assms(1,2)] by (simp add: filemgr_read_def filemgr_crc32_check_def not_le)

lemma block_write:
  assumes ok: "file_ok file" and bid: "bid * fm_blocksize file < fm_pos file"
    and off: "off + length src \<le> fm_blocksize file"
  defines "f' \<equiv> file\<lparr>fm_data := fst (ops_pwrite (fm_ops file) (fm_data file) src (bid * fm_blocksize file + off))\<rparr>"
  shows "file_ok f'" "block f' bid = mem_write (block file bid) off src"
    "\<And>other. other \<noteq> bid \<Longrightarrow> other * fm_blocksize file < fm_pos file \<Longrightarrow> block f' other = block file other"
    "snd (ops_pwrite (fm_ops file) (fm_data file) src (bid * fm_blocksize file + off)) = int (length src)"
proof -
  let ?bs = "fm_blocksize file" and ?d = "fm_data file" and ?p = "bid * fm_blocksize file + off"
  have in1: "bid * ?bs + ?bs \<le> length ?d" using block_inside [OF ok bid] .
  then have inside: "?p + length src \<le> length ?d" using off by simp
  have w: "ops_pwrite (fm_ops file) ?d src ?p = (mem_write ?d ?p src, int (length src))"
    using ok inside by (simp add: file_ok_def posix_ops_def posix_pwrite_def)
  then show "snd (ops_pwrite (fm_ops file) ?d src ?p) = int (length src)" by simp
  have f': "f' = file\<lparr>fm_data := mem_write ?d ?p src\<rparr>" by (simp add: f'_def w)
  show "file_ok f'" using ok length_mem_write [OF inside] by (simp add: file_ok_def f')
  show "block f' bid = mem_write (block file bid) off src"
    unfolding f' block_def using mem_read_write_inside [OF in1 off] by simp
  fix other assume o: "other \<noteq> bid" "other * ?bs < fm_pos file"
  have "other * ?bs + ?bs \<le> bid * ?bs \<or> bid * ?bs + ?bs \<le> other * ?bs"
    using o(1) by (metis add.commute linorder_neqE_nat mult_Suc mult_le_mono1 Suc_leI)
  then show "block f' other = block file other"
    using inside off unfolding f' block_def by (auto simp: mem_simps)
qed

section \<open>Tree node checksums\<close>

definition crc_blank :: "buf \<Rightarrow> buf" where
  "crc_blank b = mem_set b BTREE_CRC_OFFSET 0xff BTREE_CRC_FIELD_LEN"

lemma length_crc_blank [simp]: "16 \<le> length b \<Longrightarrow> length (crc_blank b) = length b"
  by (simp add: crc_blank_def mem_set_def mem_write_def BTREE_CRC_OFFSET_def BTREE_CRC_FIELD_LEN_def)

lemma nth_crc_blank: "16 \<le> length b \<Longrightarrow> i < length b \<Longrightarrow> crc_blank b ! i = (if 8 \<le> i \<and> i < 16 then 0xff else b ! i)"
  by (auto simp: crc_blank_def mem_set_def mem_write_def BTREE_CRC_OFFSET_def BTREE_CRC_FIELD_LEN_def nth_append)

lemma crc_blank_eqI:
  assumes "16 \<le> length b" "length b' = length b" "\<And>i. i < length b \<Longrightarrow> i < 8 \<or> 16 \<le> i \<Longrightarrow> b' ! i = b ! i"
  shows "crc_blank b' = crc_blank b"
  using assms by (intro nth_equalityI) (auto simp: nth_crc_blank)

definition bnode_image :: "buf \<Rightarrow> buf" where
  "bnode_image b = mem_write (crc_blank b) BTREE_CRC_OFFSET (word_mem 4 (enc32 (crc32_8 (crc_blank b) (length b) 0)))"

lemma length_bnode_image [simp]: "16 \<le> length b \<Longrightarrow> length (bnode_image b) = length b"
  by (simp add: bnode_image_def BTREE_CRC_OFFSET_def mem_simps)

lemma nth_bnode_image: "16 \<le> length b \<Longrightarrow> i < length b \<Longrightarrow> i < 8 \<or> 16 \<le> i \<Longrightarrow> bnode_image b ! i = b ! i"
  by (auto simp: bnode_image_def mem_simps BTREE_CRC_OFFSET_def nth_crc_blank)

lemma last_bnode_image: "16 < length b \<Longrightarrow> bnode_image b ! (length b - 1) = b ! (length b - 1)"
  by (rule nth_bnode_image) auto

lemma crc_blank_bnode_image: "16 \<le> length b \<Longrightarrow> crc_blank (bnode_image b) = crc_blank b"
  by (rule crc_blank_eqI) (auto simp: nth_bnode_image)

lemma crc_field_bnode_image:
  "16 \<le> length b \<Longrightarrow> dec32 (mem_word (mem_read (bnode_image b) BTREE_CRC_OFFSET 4)) = crc32_8 (crc_blank b) (length b) 0"
  by (simp add: bnode_image_def BTREE_CRC_OFFSET_def mem_simps)

text \<open>What a whole-block write stores, and what reading it back yields.\<close>

definition stored_image :: "buf \<Rightarrow> buf" where
  "stored_image b = (if b ! (length b - 1) = BLK_MARKER_BNODE then bnode_image b else b)"

definition read_image :: "buf \<Rightarrow> buf" where
  "read_image b = (if b ! (length b - 1) = BLK_MARKER_BNODE then crc_blank b else b)"

lemma bnode_with_crc_image:
  "fm_crc_mode file = CRC32 \<Longrightarrow> length b = fm_blocksize file \<Longrightarrow> bnode_with_crc file b = Some (stored_image b)"
  by (simp add: bnode_with_crc_def stored_image_def bnode_image_def crc_blank_def get_checksum_mode_def get_checksum_def Let_def)

lemma last_stored_image: "16 < length b \<Longrightarrow> stored_image b ! (length b - 1) = b ! (length b - 1)"
  using last_bnode_image [of b] by (simp add: stored_image_def)

lemma length_stored_image [simp]: "16 < length b \<Longrightarrow> length (stored_image b) = length b"
  by (simp add: stored_image_def)

lemma crc_check_image:
  assumes "16 < length b" "length b = fm_blocksize file"
  shows "filemgr_crc32_check file (stored_image b) = (FDB_RESULT_SUCCESS, read_image b)"
proof (cases "b ! (length b - 1) = BLK_MARKER_BNODE")
  case True
  then have "stored_image b = bnode_image b" "read_image b = crc_blank b" by (simp_all add: stored_image_def read_image_def)
  moreover have "mem_set (bnode_image b) BTREE_CRC_OFFSET 255 BTREE_CRC_FIELD_LEN = crc_blank b"
    using crc_blank_bnode_image [of b] assms(1) by (simp add: crc_blank_def)
  moreover have "bnode_image b ! (length b - 1) = BLK_MARKER_BNODE"
    using True assms(1) last_bnode_image [of b] by simp
  ultimately show ?thesis using assms crc_field_bnode_image [of b]
    by (simp add: filemgr_crc32_check_def perform_integrity_check_def Let_def)
next
  case False
  with assms show ?thesis by (simp add: filemgr_crc32_check_def stored_image_def read_image_def)
qed

lemma crc_check_corrupt:
  assumes "16 < length b" "length b = fm_blocksize file" "b ! (length b - 1) = BLK_MARKER_BNODE"
    "i < length b - 1" "i < 8 \<or> 16 \<le> i" "v \<noteq> b ! i"
  shows "fst (filemgr_crc32_check file ((stored_image b)[i := v])) = FDB_RESULT_CHECKSUM_ERROR"
proof -
  let ?s = "(bnode_image b)[i := v]"
  have s: "stored_image b = bnode_image b" using assms(3) by (simp add: stored_image_def)
  have "crc_blank ?s = (crc_blank b)[i := v]"
    using assms by (intro nth_equalityI) (auto simp: nth_crc_blank nth_bnode_image nth_list_update)
  moreover have "crc32_8 (crc_blank b) (length b) 0 \<noteq> crc32_8 ((crc_blank b)[i := v]) (length b) 0"
    using assms by (intro crc_single_byte [THEN not_sym]) (auto simp: nth_crc_blank)
  moreover have "mem_read ?s BTREE_CRC_OFFSET 4 = mem_read (bnode_image b) BTREE_CRC_OFFSET 4"
    using assms(5) by (auto simp: mem_read_def BTREE_CRC_OFFSET_def drop_update_swap)
  moreover have "?s ! (length b - 1) = BLK_MARKER_BNODE"
    using assms(1,3,4) last_bnode_image [of b] by simp
  ultimately show ?thesis using assms(1,2) crc_field_bnode_image [of b]
    unfolding s filemgr_crc32_check_def
    by (simp add: perform_integrity_check_def Let_def crc_blank_def FDB_RESULT_CHECKSUM_ERROR_def)
qed

section \<open>Properties of block access\<close>

text \<open>
  C9. Writing a whole block at a permitted position succeeds, changes no other block, and reading
  the block back succeeds and returns it, with the checksum field of a tree node blanked. If one
  byte of a stored tree node is altered on disk, outside its checksum field and its marker, reading
  it reports a checksum error.
\<close>

theorem block_write_then_read:
  assumes "file_ok file" "fm_crc_mode file = CRC32" "length src = fm_blocksize file"
    "bid * fm_blocksize file < fm_pos file" "write_permitted file bid (bid * fm_blocksize file)"
  shows "\<exists>f'. filemgr_write file bid src = Some (FDB_RESULT_SUCCESS, f') \<and> file_ok f' \<and>
    filemgr_read f' bid True = Inr (read_image src) \<and>
    (\<forall>other. other \<noteq> bid \<and> other * fm_blocksize file < fm_pos file \<longrightarrow> block f' other = block file other) \<and>
    (\<forall>i v. src ! (fm_blocksize file - 1) = BLK_MARKER_BNODE \<and> i < fm_blocksize file - 1 \<and> (i < 8 \<or> 16 \<le> i) \<and> v \<noteq> src ! i \<longrightarrow>
       filemgr_read (f'\<lparr>fm_data := (fm_data f')[bid * fm_blocksize file + i := v]\<rparr>) bid True = Inl FDB_RESULT_CHECKSUM_ERROR)"
proof -
  let ?bs = "fm_blocksize file" and ?s = "stored_image src"
  have bs: "16 < ?bs" using assms(1) by (simp add: file_ok_def DOCBLK_META_SIZE_def)
  have ls: "length ?s = ?bs" using bs assms(3) by simp
  define f' where "f' = file\<lparr>fm_data := fst (ops_pwrite (fm_ops file) (fm_data file) ?s (bid * ?bs))\<rparr>"
  note w = block_write [OF assms(1,4), of 0 ?s, unfolded add_0_right, folded f'_def]
  have w1: "file_ok f'" using w(1) ls by simp
  have b: "block f' bid = ?s"
    using w(2) ls length_block [OF assms(1,4)] by (simp add: mem_write_def)
  have F: "fm_blocksize f' = ?bs" "fm_pos f' = fm_pos file" by (simp_all add: f'_def)
  have wr: "filemgr_write file bid src = Some (FDB_RESULT_SUCCESS, f')"
    using assms(3,5) bnode_with_crc_image [OF assms(2,3)] w(4) ls
    by (auto simp: filemgr_write_def filemgr_write_offset_def Let_def f'_def split: prod.splits)
  have rd: "filemgr_read f' bid True = Inr (read_image src)"
    using read_block [OF w1] F assms(4) b crc_check_image [of src f'] bs assms(3)
    by (simp add: filemgr_read_def)
  have corrupt: "filemgr_read (f'\<lparr>fm_data := (fm_data f')[bid * ?bs + i := v]\<rparr>) bid True = Inl FDB_RESULT_CHECKSUM_ERROR"
    if h: "src ! (?bs - 1) = BLK_MARKER_BNODE" "i < ?bs - 1" "i < 8 \<or> 16 \<le> i" "v \<noteq> src ! i" for i v
  proof -
    let ?g = "f'\<lparr>fm_data := (fm_data f')[bid * ?bs + i := v]\<rparr>"
    have ok: "file_ok ?g" using w1 by (simp add: file_ok_def)
    have "block ?g bid = ?s[i := v]"
      using b h(2) by (simp add: block_def mem_read_def drop_update_swap take_update_swap F)
    with read_block [OF ok] F assms(4) have "filemgr_read_block ?g bid = (?s[i := v], int ?bs)" by simp
    moreover have "fst (filemgr_crc32_check ?g (?s[i := v])) = FDB_RESULT_CHECKSUM_ERROR"
      using crc_check_corrupt [of src ?g i v] bs h assms(3) F by simp
    ultimately show ?thesis using F assms(4)
      by (auto simp: filemgr_read_def FDB_RESULT_CHECKSUM_ERROR_def FDB_RESULT_SUCCESS_def split: prod.splits)
  qed
  show ?thesis using wr w1 rd w(3) ls corrupt by (intro exI [of _ f']) simp
qed

text \<open>A file of two 32-byte blocks, for the examples.\<close>

definition tiny_file :: filemgr where
  "tiny_file = small_file\<lparr>fm_blocksize := 32, fm_pos := 64, fm_data := replicate 64 0\<rparr>"

lemma tiny_file_ok: "file_ok tiny_file"
  by (simp add: file_ok_def tiny_file_def small_file_def DOCBLK_META_SIZE_def)

theorem block_write_then_read_witness:
  "\<exists>f'. filemgr_write tiny_file 1 (replicate 32 0xff) = Some (FDB_RESULT_SUCCESS, f') \<and>
    filemgr_read (f'\<lparr>fm_data := (fm_data f')[35 := 7]\<rparr>) 1 True = Inl FDB_RESULT_CHECKSUM_ERROR"
proof -
  have "write_permitted tiny_file 1 32" by (simp add: write_permitted_def tiny_file_def small_file_def)
  with block_write_then_read [OF tiny_file_ok, of "replicate 32 0xff" 1] obtain f' where
    f: "filemgr_write tiny_file 1 (replicate 32 0xff) = Some (FDB_RESULT_SUCCESS, f')"
    and c: "\<forall>i v. replicate 32 0xff ! 31 = BLK_MARKER_BNODE \<and> i < 31 \<and> (i < 8 \<or> 16 \<le> i) \<and> v \<noteq> replicate 32 0xff ! i \<longrightarrow>
      filemgr_read (f'\<lparr>fm_data := (fm_data f')[32 + i := v]\<rparr>) 1 True = Inl FDB_RESULT_CHECKSUM_ERROR"
    by (auto simp: tiny_file_def small_file_def)
  from c [rule_format, of 3 7] have "filemgr_read (f'\<lparr>fm_data := (fm_data f')[35 := 7]\<rparr>) 1 True = Inl FDB_RESULT_CHECKSUM_ERROR"
    by (simp add: BLK_MARKER_BNODE_def)
  with f show ?thesis by blast
qed

section \<open>Properties of allocation\<close>

lemma touch_extends:
  assumes "file_ok file"
  defines "f \<equiv> file\<lparr>fm_pos := fm_pos file + fm_blocksize file\<rparr>"
  shows "file_ok (touch f (fm_pos file + fm_blocksize file - 1))"
    "take (fm_pos file) (fm_data (touch f (fm_pos file + fm_blocksize file - 1))) = fm_data file"
proof -
  have ok: "fm_ops file = posix_ops" "DOCBLK_META_SIZE < fm_blocksize file" "fm_pos file mod fm_blocksize file = 0"
    "length (fm_data file) = fm_pos file" using assms(1) by (auto simp: file_ok_def)
  let ?d = "mem_write (fm_data file @ replicate (fm_blocksize file) 0) (fm_pos file + fm_blocksize file - 1) [0]"
  have d: "fm_data (touch f (fm_pos file + fm_blocksize file - 1)) = ?d"
    using ok by (simp add: touch_def f_def posix_ops_def posix_pwrite_def)
  have "length ?d = fm_pos file + fm_blocksize file" using ok(2,4) by (simp add: mem_write_def)
  with ok d show "file_ok (touch f (fm_pos file + fm_blocksize file - 1))"
    by (simp add: file_ok_def touch_def f_def)
  show "take (fm_pos file) (fm_data (touch f (fm_pos file + fm_blocksize file - 1))) = fm_data file"
    unfolding d using ok(2,4) by (simp add: mem_write_def min_def)
qed

text \<open>
  The state in which the allocator is called: commits never lie behind the end of the file, the
  bitmap covers existing blocks only, no reserved bitmap is waiting, and the last commit was made
  in the current bitmap at or before its cursor.
\<close>

definition alloc_ready :: "filemgr \<Rightarrow> bool" where
  "alloc_ready file \<longleftrightarrow> file_ok file \<and> fm_last_commit file \<le> fm_pos file \<and>
     (case fm_sb file of
        None \<Rightarrow> True
      | Some sb \<Rightarrow> fm_status file = FILE_NORMAL \<and> sb_inv sb \<and> ready_rsv sb = None \<and>
          bmp_size sb * fm_blocksize file \<le> fm_pos file \<and>
          (remaining sb \<noteq> {} \<longrightarrow> fm_last_writable_bmp_revnum file = bmp_revnum sb \<and>
             fm_last_commit file div fm_blocksize file \<le> cur_alloc_bid sb))"

definition free_blocks :: "filemgr \<Rightarrow> nat set" where
  "free_blocks file = (case fm_sb file of None \<Rightarrow> {} | Some sb \<Rightarrow> remaining sb)"

lemma alloc_block_same:
  assumes "ready_rsv sb = None" "sb_alloc_block sb = Some (ret, sb', calls)"
  shows "calls = []" "same_bitmap sb sb'" "ready_rsv sb' = None"
proof -
  let ?sb = "sb\<lparr>num_alloc := Suc (num_alloc sb)\<rparr>"
  have r: "ready_rsv (x\<lparr>num_free_blocks := n\<rparr>) = ready_rsv x" "ready_rsv (x\<lparr>bmp_idx := t\<rparr>) = ready_rsv x"
    "ready_rsv (x\<lparr>cur_alloc_bid := n\<rparr>) = ready_rsv x" for x n t
    by (simp_all add: ready_rsv_def)
  have "ready_rsv ?sb = None" using assms(1) by (simp add: num_alloc_irrelevant)
  then show "calls = []" "same_bitmap sb sb'" "ready_rsv sb' = None" using assms(2)
    by (auto simp: sb_alloc_block_def sb_alloc_take_def sb_alloc_exhausted_def switch_none r Let_def same_bitmap_def
        split: if_splits option.splits prod.splits)
qed

lemma sb_cursor:
  assumes "sb_inv sb"
  shows "remaining sb = {} \<Longrightarrow> cur_alloc_bid sb = BLK_NOT_FOUND" "remaining sb \<noteq> {} \<Longrightarrow> cur_alloc_bid sb \<in> remaining sb"
  using assms sb_remaining_empty [OF assms] unfolding sb_inv_def pool_inv_def remaining_def by metis+

lemma alloc_from_sb_ready:
  assumes "alloc_ready file" "fm_sb file = Some sb"
  shows "\<exists>sb'. alloc_from_sb file = Some (bid_of (if remaining sb = {} then None else Some (Min (remaining sb))), file\<lparr>fm_sb := Some sb'\<rparr>) \<and>
    sb_inv sb' \<and> same_bitmap sb sb' \<and> ready_rsv sb' = None \<and> remaining sb' = remaining sb - {Min (remaining sb)} \<and>
    (remaining sb \<noteq> {} \<longrightarrow> Min (remaining sb) < cur_alloc_bid sb')"
proof -
  have a: "fm_status file = FILE_NORMAL" "sb_inv sb" "ready_rsv sb = None"
    using assms by (simp_all add: alloc_ready_def)
  obtain sb' calls where s: "sb_alloc_block sb = Some (bid_of (fst (pool_alloc (sb_pools sb))), sb', calls)"
    "sb_inv sb'" "sb_pools sb' = snd (pool_alloc (sb_pools sb))" using alloc_block_spec [OF a(2)] by blast
  have p: "sb_pools sb = (remaining sb, None)" using a(3) by (simp add: sb_pools_def)
  note same = alloc_block_same [OF a(3) s(1)]
  have R: "remaining sb' = remaining sb - {Min (remaining sb)}"
    using s(3) unfolding p by (auto simp: pool_alloc_def refill_def Let_def sb_pools_def split: if_splits)
  have B: "fst (pool_alloc (sb_pools sb)) = (if remaining sb = {} then None else Some (Min (remaining sb)))"
    unfolding p by (simp add: pool_alloc_def refill_def Let_def)
  have lt: "Min (remaining sb) < cur_alloc_bid sb'" if ne: "remaining sb \<noteq> {}"
  proof -
    have fin: "finite (remaining sb)" by (simp add: remaining_def)
    have sz: "bmp_size sb < BLK_NOT_FOUND" using a(2) by (simp add: sb_inv_def pool_inv_def)
    have m: "Min (remaining sb) \<in> remaining sb" using fin ne by (rule Min_in)
    show ?thesis
    proof (cases "remaining sb' = {}")
      case True
      then have "cur_alloc_bid sb' = BLK_NOT_FOUND" by (rule sb_cursor [OF s(2)])
      with m sz show ?thesis by (auto simp: remaining_def pending_def)
    next
      case False
      then have "cur_alloc_bid sb' \<in> remaining sb'" by (rule sb_cursor [OF s(2)])
      then show ?thesis using Min_le [OF fin] unfolding R by (auto simp: le_neq_implies_less)
    qed
  qed
  show ?thesis
    using a(1) assms(2) s(1,2) same R B lt by (auto simp: alloc_from_sb_def)
qed

lemma alloc_append:
  assumes ok: "file_ok file" and lc: "fm_last_commit file \<le> fm_pos file"
    and al: "alloc_from_sb file = Some (BLK_NOT_FOUND, file\<lparr>fm_sb := s\<rparr>)"
    and sz: "\<And>sb. s = Some sb \<Longrightarrow> bmp_size sb * fm_blocksize file \<le> fm_pos file"
  shows "\<exists>f'. filemgr_alloc file = Some (fm_pos file div fm_blocksize file, f') \<and> file_ok f' \<and>
    filemgr_is_writable f' (fm_pos file div fm_blocksize file) \<and>
    f' = file\<lparr>fm_sb := s, fm_pos := fm_pos file + fm_blocksize file, fm_data := fm_data f'\<rparr> \<and> take (fm_pos file) (fm_data f') = fm_data file"
proof -
  let ?bs = "fm_blocksize file" and ?bid = "fm_pos file div fm_blocksize file"
  have bs: "0 < ?bs" "?bid * ?bs = fm_pos file" using ok by (auto simp: file_ok_def)
  define f1 where "f1 = file\<lparr>fm_sb := s\<rparr>"
  have F: "file_ok f1" "fm_pos f1 = fm_pos file" "fm_blocksize f1 = ?bs" "fm_data f1 = fm_data file"
    using ok by (simp_all add: f1_def file_ok_def)
  define f where "f = touch (f1\<lparr>fm_pos := fm_pos file + ?bs\<rparr>) (fm_pos file + ?bs - 1)"
  have "filemgr_alloc file = Some (?bid, f)"
    using al bs by (simp add: filemgr_alloc_def f_def f1_def add.commute)
  moreover have "file_ok f" "take (fm_pos file) (fm_data f) = fm_data file"
    using touch_extends [OF F(1)] F(2-) by (simp_all add: f_def)
  moreover have "filemgr_is_writable f ?bid"
  proof -
    have "sb_bmp_is_writable f sb ?bid" if "s = Some sb" for sb
    proof -
      have "bmp_size sb \<le> ?bid" using sz [OF that] bs(1) by (simp add: less_eq_div_iff_mult_less_eq)
      then show ?thesis using div_le_mono [OF lc, of ?bs]
        by (auto simp: sb_bmp_is_writable_def Let_def touch_def f_def f1_def split: option.splits)
    qed
    then show ?thesis using bs lc by (auto simp: filemgr_is_writable_def touch_def f_def f1_def split: option.splits)
  qed
  ultimately show ?thesis by (auto simp: f_def f1_def touch_def)
qed

lemma alloc_append_fields:
  assumes "file_ok file" "fm_last_commit file \<le> fm_pos file"
    "alloc_from_sb file = Some (BLK_NOT_FOUND, file\<lparr>fm_sb := s\<rparr>)"
    "\<And>sb. s = Some sb \<Longrightarrow> bmp_size sb * fm_blocksize file \<le> fm_pos file"
  shows "\<exists>f'. filemgr_alloc file = Some (fm_pos file div fm_blocksize file, f') \<and> file_ok f' \<and>
    filemgr_is_writable f' (fm_pos file div fm_blocksize file) \<and> fm_sb f' = s \<and>
    fm_pos f' = fm_pos file + fm_blocksize file \<and> take (fm_pos file) (fm_data f') = fm_data file"
proof -
  obtain f' where f': "filemgr_alloc file = Some (fm_pos file div fm_blocksize file, f')" "file_ok f'"
    "filemgr_is_writable f' (fm_pos file div fm_blocksize file)" "take (fm_pos file) (fm_data f') = fm_data file"
    and e: "f' = file\<lparr>fm_sb := s, fm_pos := fm_pos file + fm_blocksize file, fm_data := fm_data f'\<rparr>"
    using alloc_append [OF assms] by blast
  have "fm_sb f' = s" "fm_pos f' = fm_pos file + fm_blocksize file" by (subst e, simp)+
  with f' show ?thesis by blast
qed

lemma alloc_reuse:
  assumes ok: "file_ok file" and al: "alloc_from_sb file = Some (bid, file\<lparr>fm_sb := Some sb\<rparr>)" "bid \<noteq> BLK_NOT_FOUND"
    and b: "bid < bmp_size sb" "is_bmp_set (the (bmp sb)) bid" "bid < cur_alloc_bid sb" "fm_last_commit file div fm_blocksize file \<le> bid"
    and sz: "bmp_size sb * fm_blocksize file \<le> fm_pos file" "fm_last_writable_bmp_revnum file = bmp_revnum sb"
  shows "\<exists>f'. filemgr_alloc file = Some (bid, f') \<and> file_ok f' \<and> filemgr_is_writable f' bid \<and> fm_sb f' = Some sb \<and>
    fm_pos f' = fm_pos file \<and> bid * fm_blocksize file < fm_pos file"
proof -
  let ?bs = "fm_blocksize file"
  have bs: "0 < ?bs" using ok by (auto simp: file_ok_def)
  have in_file: "bid * ?bs < fm_pos file" using b(1) bs sz(1) by (meson less_le_trans mult_less_mono1)
  define f1 where "f1 = file\<lparr>fm_sb := Some sb\<rparr>"
  have F: "file_ok f1" "fm_pos f1 = fm_pos file" "fm_blocksize f1 = ?bs" using ok by (simp_all add: f1_def file_ok_def)
  define f where "f = touch f1 (bid * ?bs + (?bs - 1))"
  have "(bid + 1) * ?bs - 1 = bid * ?bs + (?bs - 1)" using bs by simp
  then have "filemgr_alloc file = Some (bid, f)" using al by (simp add: filemgr_alloc_def f_def f1_def)
  moreover have "file_ok f"
    using block_write(1) [OF F(1), of bid "?bs - 1" "[0]"] F(2,3) in_file bs by (simp add: touch_def f_def)
  moreover have "sb_bmp_is_writable f sb bid"
    using b sz(2) by (simp add: sb_bmp_is_writable_def Let_def touch_def f_def f1_def)
  moreover have "sb_bmp_exists sb" using b(1) by (simp add: sb_bmp_exists_def)
  ultimately show ?thesis using in_file by (auto simp: filemgr_is_writable_def touch_def f_def f1_def)
qed



end
