(* ===== verification/Docio.thy ===== *)
theory Docio
  imports File_Manager
begin

text \<open>
  Document I/O (\<^verbatim>\<open>src/docio.cc\<close>): appending a document behind the previous one, across as many
  blocks as it needs, and reading its parts back through a one-block buffer. In the new file format
  the blocks of a document are chained by the block number kept in each block's metadata; in the
  old format they are consecutive. \<^const>\<open>None\<close> stands for a failed assertion, an unsupported checksum
  mode or a read outside a buffer.
\<close>

section \<open>State\<close>

record docio_handle =
  dh_file :: filemgr
  curblock :: nat
  curpos :: nat
  cur_bmp_revnum_hash :: u16
  lastbid :: nat
  lastBmpRevnum :: nat
  readbuffer :: buf

definition docio_init :: "filemgr \<Rightarrow> docio_handle" where
  "docio_init file = \<lparr>dh_file = file, curblock = BLK_NOT_FOUND, curpos = 0, cur_bmp_revnum_hash = 0,
     lastbid = BLK_NOT_FOUND, lastBmpRevnum = 0, readbuffer = replicate (fm_blocksize file) 0\<rparr>"

text \<open>The space for documents in a block: what the metadata or the marker leaves.\<close>

definition docblk_size :: "filemgr \<Rightarrow> nat" where
  "docblk_size file = fm_blocksize file -
     (if ver_non_consecutive_doc (fm_version file) then DOCBLK_META_SIZE else BLK_MARKER_SIZE)"

section \<open>Writing\<close>

text \<open>
  A write that fails ends the append with the not-found offset; otherwise the continuation \<open>k\<close> runs.
\<close>

type_synonym append_result = "(nat \<times> docio_handle) option"

definition write_then :: "docio_handle \<Rightarrow> nat \<Rightarrow> nat \<Rightarrow> buf \<Rightarrow> (docio_handle \<Rightarrow> append_result) \<Rightarrow> append_result" where
  "write_then h bid off src k =
     (case filemgr_write_offset (dh_file h) bid off src of
        None \<Rightarrow> None
      | Some (st, f) \<Rightarrow>
          if st \<noteq> FDB_RESULT_SUCCESS then Some (BLK_NOT_FOUND, h\<lparr>dh_file := f\<rparr>) else k (h\<lparr>dh_file := f\<rparr>))"

text \<open>The metadata of the current block (new format) or its marker (old format).\<close>

definition write_meta :: "docio_handle \<Rightarrow> nat \<Rightarrow> u64 \<Rightarrow> (docio_handle \<Rightarrow> append_result) \<Rightarrow> append_result" where
  "write_meta h bid nxt k =
     write_then h bid (docblk_size (dh_file h))
       (if ver_non_consecutive_doc (fm_version (dh_file h))
        then meta_mem \<lparr>next_bid = nxt, sb_bmp_revnum_hash = enc16 (cur_bmp_revnum_hash h), marker = BLK_MARKER_DOC\<rparr>
        else [BLK_MARKER_DOC]) k"

definition docio_fill_zero :: "docio_handle \<Rightarrow> nat \<Rightarrow> nat \<Rightarrow> (docio_handle \<Rightarrow> append_result) \<Rightarrow> append_result" where
  "docio_fill_zero h bid pos k =
     (if pos + 16 \<le> docblk_size (dh_file h) then write_then h bid pos (replicate 16 0) k else k h)"

definition bmp_revnum_hash :: "filemgr \<Rightarrow> u16" where
  "bmp_revnum_hash file = of_nat (sb_get_bmp_revnum file mod 65536)"

definition alloc_curblock :: "docio_handle \<Rightarrow> docio_handle option" where
  "alloc_curblock h =
     map_option (\<lambda>(bid, f). h\<lparr>dh_file := f, curblock := bid, curpos := 0,
         cur_bmp_revnum_hash := bmp_revnum_hash (dh_file h)\<rparr>) (filemgr_alloc (dh_file h))"

text \<open>Marks the rest of the current block stale; the position never exceeds the document space.\<close>

definition stale_rest :: "docio_handle \<Rightarrow> docio_handle option" where
  "stale_rest h =
     (if curpos h < fm_blocksize (dh_file h)
      then map_option (\<lambda>f. h\<lparr>dh_file := f\<rparr>)
        (filemgr_mark_stale (dh_file h) (fm_blocksize (dh_file h) * curblock h + curpos h)
           (docblk_size (dh_file h) - curpos h))
      else Some h)"

definition writable_curblock :: "docio_handle \<Rightarrow> docio_handle option" where
  "writable_curblock h0 =
     (case (if curblock h0 = BLK_NOT_FOUND then alloc_curblock h0 else Some h0) of
        None \<Rightarrow> None
      | Some h \<Rightarrow>
          if filemgr_is_writable (dh_file h) (curblock h) then Some h
          else (case stale_rest h of None \<Rightarrow> None | Some h' \<Rightarrow> alloc_curblock h'))"

text \<open>The case where the document fits into the current block.\<close>

definition append_within :: "docio_handle \<Rightarrow> buf \<Rightarrow> append_result" where
  "append_within h src =
     (let offset = curpos h in
      write_meta h (curblock h) (of_nat BLK_NOT_FOUND) (\<lambda>h1.
      write_then h1 (curblock h1) offset src (\<lambda>h2.
      (let h3 = h2\<lparr>curpos := curpos h2 + length src\<rparr> in
       docio_fill_zero h3 (curblock h3) (curpos h3) (\<lambda>h4.
       Some (curblock h4 * fm_blocksize (dh_file h4) + offset, h4))))))"

text \<open>
  The loop over the new blocks: each is given with the bitmap revision at its allocation; \<open>rest\<close>
  are the bytes still to be written.
\<close>

fun write_blocks :: "docio_handle \<Rightarrow> (nat \<times> u16) list \<Rightarrow> buf \<Rightarrow> nat \<Rightarrow> append_result" where
  "write_blocks h [] rest startpos = Some (startpos, h)"
| "write_blocks h ((bid, hash) # bs) rest startpos =
     (let h0 = h\<lparr>curblock := bid, cur_bmp_revnum_hash := hash\<rparr>; blk = docblk_size (dh_file h0) in
      write_meta h0 bid (case bs of [] \<Rightarrow> of_nat BLK_NOT_FOUND | (nb, _) # _ \<Rightarrow> enc64 (of_nat nb)) (\<lambda>h1.
      if length rest \<ge> blk
      then write_then h1 bid 0 (take blk rest) (\<lambda>h2. write_blocks (h2\<lparr>curpos := blk\<rparr>) bs (drop blk rest) startpos)
      else if bs \<noteq> [] then None
      else write_then h1 bid 0 rest (\<lambda>h2.
        docio_fill_zero (h2\<lparr>curpos := length rest\<rparr>) bid (length rest) (\<lambda>h3. Some (startpos, h3)))))"

text \<open>Allocation of a number of single blocks, with the bitmap revision before each.\<close>

fun alloc_blocks :: "nat \<Rightarrow> filemgr \<Rightarrow> ((nat \<times> u16) list \<times> filemgr) option" where
  "alloc_blocks 0 file = Some ([], file)"
| "alloc_blocks (Suc n) file =
     (case filemgr_alloc file of
        None \<Rightarrow> None
      | Some (bid, f1) \<Rightarrow>
          (case alloc_blocks n f1 of
             None \<Rightarrow> None
           | Some (bs, f2) \<Rightarrow> Some ((bid, bmp_revnum_hash file) # bs, f2)))"

definition append_chained :: "docio_handle \<Rightarrow> buf \<Rightarrow> append_result" where
  "append_chained h src =
     (let blk = docblk_size (dh_file h); nblock = length src div blk; remain = length src mod blk;
          offset = blk - curpos h; new_block = remain > offset;
          n = nblock + (if new_block then 1 else 0)
      in case alloc_blocks (min n 1) (dh_file h) of
           None \<Rightarrow> None
         | Some (first, f1) \<Rightarrow>
             (let from_new = (case first of [] \<Rightarrow> False | (b, _) # _ \<Rightarrow> b > curblock h + 1);
                  n' = (if from_new \<and> remain \<noteq> 0 \<and> \<not> new_block then n + 1 else n)
              in case alloc_blocks (n' - min n 1) f1 of
                   None \<Rightarrow> None
                 | Some (others, f2) \<Rightarrow>
                     (let bs = first @ others; h1 = h\<lparr>dh_file := f2\<rparr> in
                      if offset > 0 \<and> \<not> from_new then
                        write_meta h1 (curblock h1) (enc64 (of_nat (fst (hd bs)))) (\<lambda>h2.
                        write_then h2 (curblock h2) (curpos h2) (take offset src) (\<lambda>h3.
                        write_blocks h3 bs (drop offset src) (curblock h3 * fm_blocksize (dh_file h3) + curpos h3)))
                      else
                        (case stale_rest h1 of
                           None \<Rightarrow> None
                         | Some h2 \<Rightarrow> write_blocks h2 bs src (fst (hd bs) * fm_blocksize (dh_file h2))))))"

text \<open>
  The old format. The list of bitmap revisions is not filled in there, and nothing reads it; zero
  stands for its entries.
\<close>

definition consecutive :: "nat \<Rightarrow> nat \<Rightarrow> (nat \<times> u16) list" where
  "consecutive b e = map (\<lambda>i. (b + i, 0)) [0..<e + 1 - b]"

definition append_consecutive :: "docio_handle \<Rightarrow> buf \<Rightarrow> append_result" where
  "append_consecutive h src =
     (let blk = docblk_size (dh_file h); nblock = length src div blk; remain = length src mod blk;
          offset = blk - curpos h
      in case filemgr_alloc_multiple_cond (dh_file h) (curblock h + 1) (nblock + (if remain > offset then 1 else 0)) of
           (bid, b, e, f1) \<Rightarrow>
             if bid = curblock h + 1 then
               write_meta (h\<lparr>dh_file := f1\<rparr>) (curblock h) 0 (\<lambda>h1.
               if offset > 0
               then write_then h1 (curblock h1) (curpos h1) (take offset src) (\<lambda>h2.
                 write_blocks h2 (consecutive b e) (drop offset src) (curblock h2 * fm_blocksize (dh_file h2) + curpos h2))
               else write_blocks h1 (consecutive b e) src (curblock h1 * fm_blocksize (dh_file h1) + curpos h1))
             else
               (case stale_rest (h\<lparr>dh_file := f1\<rparr>) of
                  None \<Rightarrow> None
                | Some h1 \<Rightarrow>
                    (case filemgr_alloc_multiple (dh_file h1) (nblock + (if remain > 0 then 1 else 0)) of
                       (b, e, f2) \<Rightarrow>
                         write_blocks (h1\<lparr>dh_file := f2\<rparr>) (consecutive b e) src (b * fm_blocksize f2))))"

text \<open>
  The position in the source buffer is kept in 32 bits and would wrap around on a larger buffer;
  \<^const>\<open>None\<close> stands for that as well.
\<close>

definition docio_append_doc_raw :: "docio_handle \<Rightarrow> buf \<Rightarrow> append_result" where
  "docio_append_doc_raw h0 src =
     (case (if length src < 2 ^ 32 then writable_curblock h0 else None) of
        None \<Rightarrow> None
      | Some h \<Rightarrow>
          if length src \<le> docblk_size (dh_file h) - curpos h then append_within h src
          else if ver_non_consecutive_doc (fm_version (dh_file h)) then append_chained h src
          else append_consecutive h src)"

text \<open>The append returns the offset, the document with the length it was given, and the handle.\<close>

definition docio_append :: "docio_handle \<Rightarrow> docio_object \<Rightarrow> (nat \<times> docio_object \<times> docio_handle) option" where
  "docio_append h doc =
     (case doc_image doc (fm_crc_mode (dh_file h)) of
        None \<Rightarrow> None
      | Some (len, src) \<Rightarrow>
          map_option (\<lambda>(off, h'). (off, doc\<lparr>doc_len := len\<rparr>, h')) (docio_append_doc_raw h src))"

definition docio_append_doc ::
  "docio_handle \<Rightarrow> docio_object \<Rightarrow> bool \<Rightarrow> bool \<Rightarrow> (nat \<times> docio_object \<times> docio_handle) option" where
  "docio_append_doc h doc deleted txn_enabled =
     docio_append h (doc\<lparr>doc_len := (doc_len doc)\<lparr>flag := DOCIO_NORMAL OR (if deleted then DOCIO_DELETED else 0)
       OR (if txn_enabled then DOCIO_TXN_DIRTY else 0)\<rparr>\<rparr>)"

definition docio_append_doc_system ::
  "docio_handle \<Rightarrow> docio_object \<Rightarrow> (nat \<times> docio_object \<times> docio_handle) option" where
  "docio_append_doc_system h doc =
     docio_append h (doc\<lparr>doc_len := (doc_len doc)\<lparr>flag := DOCIO_NORMAL OR DOCIO_SYSTEM\<rparr>\<rparr>)"

definition docio_append_commit_mark :: "docio_handle \<Rightarrow> u64 \<Rightarrow> append_result" where
  "docio_append_commit_mark h doc_offset =
     (case commit_mark_image doc_offset (fm_crc_mode (dh_file h)) of
        None \<Rightarrow> None
      | Some src \<Rightarrow> docio_append_doc_raw h src)"

section \<open>Reading\<close>

definition docio_read_through_buffer :: "docio_handle \<Rightarrow> nat \<Rightarrow> bool \<Rightarrow> int \<times> docio_handle" where
  "docio_read_through_buffer h0 bid read_on_cache_miss =
     (let h = (if lastbid h0 \<noteq> BLK_NOT_FOUND \<and> sb_get_bmp_revnum (dh_file h0) \<noteq> lastBmpRevnum h0
               then h0\<lparr>lastbid := BLK_NOT_FOUND\<rparr> else h0)
      in if lastbid h \<noteq> bid then
           (case filemgr_read (dh_file h) bid read_on_cache_miss of
              Inl st \<Rightarrow> (st, h\<lparr>lastbid := BLK_NOT_FOUND\<rparr>)
            | Inr b \<Rightarrow>
                (FDB_RESULT_SUCCESS,
                 if filemgr_is_writable (dh_file h) bid
                 then h\<lparr>readbuffer := b, lastbid := BLK_NOT_FOUND\<rparr>
                 else h\<lparr>readbuffer := b, lastbid := bid, lastBmpRevnum := sb_get_bmp_revnum (dh_file h)\<rparr>))
         else (FDB_RESULT_SUCCESS, h))"

text \<open>The next block of a document after the block in the read buffer.\<close>

definition next_block :: "docio_handle \<Rightarrow> nat \<Rightarrow> nat" where
  "next_block h bid =
     (if ver_non_consecutive_doc (fm_version (dh_file h))
      then unat (dec64 (next_bid (mem_meta (drop (docblk_size (dh_file h)) (readbuffer h))))) else bid + 1)"

text \<open>The check with a bitmap revision; \<^const>\<open>None\<close> is the revision \<^verbatim>\<open>-1\<close> that skips the comparison.\<close>

definition docio_check_buffer :: "docio_handle \<Rightarrow> nat option \<Rightarrow> bool" where
  "docio_check_buffer h bmp_rev =
     (let m = (if ver_non_consecutive_doc (fm_version (dh_file h))
               then mem_meta (drop (docblk_size (dh_file h)) (readbuffer h))
               else \<lparr>next_bid = 0, sb_bmp_revnum_hash = 0, marker = readbuffer h ! docblk_size (dh_file h)\<rparr>)
      in if marker m \<noteq> BLK_MARKER_DOC then False
         else case bmp_rev of
                Some r \<Rightarrow>
                  if ver_non_consecutive_doc (fm_version (dh_file h))
                  then unat (dec16 (sb_bmp_revnum_hash m)) = r mod 65536 else True
              | None \<Rightarrow> True)"

definition docio_read_length ::
  "docio_handle \<Rightarrow> nat \<Rightarrow> bool \<Rightarrow> (int + nat \<times> docio_length) \<times> docio_handle" where
  "docio_read_length h offset read_on_cache_miss =
     (let real = fm_blocksize (dh_file h); blk = docblk_size (dh_file h);
          bid = offset div real; pos = offset mod real;
          restsize = (if blk > pos then blk - pos else 0)
      in case docio_read_through_buffer h bid read_on_cache_miss of (st, h1) \<Rightarrow>
           if st \<noteq> FDB_RESULT_SUCCESS then (Inl st, h1)
           else if \<not> docio_check_buffer h1 None then (Inl FDB_RESULT_READ_FAIL, h1)
           else if restsize \<ge> 16
           then (Inr (bid * real + (pos + 16), mem_length (mem_read (readbuffer h1) pos 16)), h1)
           else
             (let front = mem_read (readbuffer h1) pos restsize; nxt = next_block h1 bid in
              if ver_non_consecutive_doc (fm_version (dh_file h1)) \<and> nxt = BLK_NOT_FOUND
              then (Inr (offset, zero_length), h1)
              else case docio_read_through_buffer h1 nxt True of (st2, h2) \<Rightarrow>
                if st2 \<noteq> FDB_RESULT_SUCCESS then (Inl st2, h2)
                else if \<not> docio_check_buffer h2 None then (Inl FDB_RESULT_READ_FAIL, h2)
                else (Inr (nxt * real + (16 - restsize),
                        mem_length (front @ mem_read (readbuffer h2) 0 (16 - restsize))), h2)))"

text \<open>
  The loop that copies a part of a document out of its blocks, starting at a position of a block.
  Every round after the first copies a whole block, so the length plus two rounds are enough.
\<close>

type_synonym read_result = "((int + nat \<times> buf) \<times> docio_handle) option"

fun read_parts :: "nat \<Rightarrow> docio_handle \<Rightarrow> nat \<Rightarrow> nat \<Rightarrow> nat \<Rightarrow> read_result" where
  "read_parts 0 h bid pos left = None"
| "read_parts (Suc fuel) h bid pos left =
     (if left = 0 then Some (Inr (bid * fm_blocksize (dh_file h) + pos, []), h)
      else case docio_read_through_buffer h bid True of (st, h1) \<Rightarrow>
        if st \<noteq> FDB_RESULT_SUCCESS then Some (Inl st, h1)
        else if pos > docblk_size (dh_file h1) then None
        else
          (let restsize = docblk_size (dh_file h1) - pos in
           if restsize \<ge> left
           then Some (Inr (bid * fm_blocksize (dh_file h1) + (pos + left), mem_read (readbuffer h1) pos left), h1)
           else
             (let nxt = next_block h1 bid in
              if nxt \<ge> fm_pos (dh_file h1) div fm_blocksize (dh_file h1) then Some (Inl FDB_RESULT_FILE_CORRUPTION, h1)
              else case read_parts fuel h1 nxt 0 (left - restsize) of
                     Some (Inr (off, bs), h2) \<Rightarrow> Some (Inr (off, mem_read (readbuffer h1) pos restsize @ bs), h2)
                   | r \<Rightarrow> r)))"

definition docio_read_doc_component :: "docio_handle \<Rightarrow> nat \<Rightarrow> nat \<Rightarrow> read_result" where
  "docio_read_doc_component h offset len =
     read_parts (len + 2) h (offset div fm_blocksize (dh_file h)) (offset mod fm_blocksize (dh_file h)) len"

definition read_then ::
  "docio_handle \<Rightarrow> nat \<Rightarrow> nat \<Rightarrow> (docio_handle \<Rightarrow> nat \<Rightarrow> buf \<Rightarrow> ((int + 'a) \<times> docio_handle) option) \<Rightarrow>
     ((int + 'a) \<times> docio_handle) option" where
  "read_then h offset len k =
     (case docio_read_doc_component h offset len of
        None \<Rightarrow> None
      | Some (Inl st, h1) \<Rightarrow> Some (Inl st, h1)
      | Some (Inr (off, b), h1) \<Rightarrow> k h1 off b)"

text \<open>
  The opening of every read function: the length structure, the test for a zero-filled rest of a
  block, the checksum test. The continuation gets the structure as stored.
\<close>

definition read_length_then ::
  "docio_handle \<Rightarrow> nat \<Rightarrow> bool \<Rightarrow> 'a \<Rightarrow> (docio_handle \<Rightarrow> nat \<Rightarrow> docio_length \<Rightarrow> ((int + 'a) \<times> docio_handle) option) \<Rightarrow>
     ((int + 'a) \<times> docio_handle) option" where
  "read_length_then h offset read_on_cache_miss zero k =
     (case docio_read_length h offset read_on_cache_miss of
        (Inl st, h1) \<Rightarrow> Some (Inl st, h1)
      | (Inr (off, enc), h1) \<Rightarrow>
          if enc = zero_length then Some (Inr zero, h1)
          else case docio_length_checksum enc (fm_crc_mode (dh_file h1)) of
                 None \<Rightarrow> None
               | Some c \<Rightarrow>
                   if c \<noteq> checksum enc then Some (Inl FDB_RESULT_CHECKSUM_ERROR, h1) else k h1 off enc)"

definition bad_keylen :: "docio_length \<Rightarrow> bool" where
  "bad_keylen len \<longleftrightarrow> keylen len = 0 \<or> keylen len > FDB_MAX_KEYLEN_INTERNAL"

definition docio_read_doc_length :: "docio_handle \<Rightarrow> nat \<Rightarrow> ((int + docio_length) \<times> docio_handle) option" where
  "docio_read_doc_length h offset =
     read_length_then h offset True zero_length (\<lambda>h1 off enc.
       let len = docio_length_decode enc in
       if bad_keylen len then Some (Inl FDB_RESULT_FILE_CORRUPTION, h1) else Some (Inr len, h1))"

definition docio_read_doc_key :: "docio_handle \<Rightarrow> nat \<Rightarrow> ((int + u16 \<times> buf) \<times> docio_handle) option" where
  "docio_read_doc_key h offset =
     read_length_then h offset True (0, []) (\<lambda>h1 off enc.
       let len = docio_length_decode enc in
       if bad_keylen len then Some (Inl FDB_RESULT_FILE_CORRUPTION, h1)
       else read_then h1 off (unat (keylen len)) (\<lambda>h2 off2 k. Some (Inr (keylen len, k), h2)))"

definition docio_read_doc_key_meta ::
  "docio_handle \<Rightarrow> nat \<Rightarrow> docio_object \<Rightarrow> bool \<Rightarrow> ((int + nat \<times> docio_object) \<times> docio_handle) option" where
  "docio_read_doc_key_meta h offset doc read_on_cache_miss =
     read_length_then h offset read_on_cache_miss (0, doc\<lparr>doc_len := zero_length\<rparr>) (\<lambda>h1 off enc.
       let len = docio_length_decode enc in
       if bad_keylen len then Some (Inl FDB_RESULT_FILE_CORRUPTION, h1)
       else read_then h1 off (unat (keylen len)) (\<lambda>h2 off2 k.
            read_then h2 off2 4 (\<lambda>h3 off3 ts.
            read_then h3 off3 8 (\<lambda>h4 off4 sq.
            read_then h4 off4 (unat (metalen len)) (\<lambda>h5 off5 m.
            Some (Inr (off5, doc\<lparr>doc_len := len, doc_key := k, timestamp := dec32 (mem_word ts),
              seqnum := dec64 (mem_word sq), doc_meta := m\<rparr>), h5))))))"

text \<open>
  The checksum is recomputed piece by piece. A document with the compression flag would be summed
  over a null buffer in this build.
\<close>

definition parts_checksum :: "crc_mode_e \<Rightarrow> buf list \<Rightarrow> u32 option" where
  "parts_checksum mode ps =
     foldl (\<lambda>acc p. case acc of None \<Rightarrow> None | Some c \<Rightarrow> get_checksum p (length p) c mode) (Some 0) ps"

text \<open>A transaction commit mark: all lengths are zero and the offset of a document follows.\<close>

definition read_commit_mark ::
  "docio_handle \<Rightarrow> nat \<Rightarrow> docio_length \<Rightarrow> docio_object \<Rightarrow> ((int + nat \<times> docio_object) \<times> docio_handle) option" where
  "read_commit_mark h off len doc =
     (if keylen len \<noteq> 0 \<or> metalen len \<noteq> 0 \<or> bodylen len \<noteq> 0 \<or> bodylen_ondisk len \<noteq> 0
      then Some (Inl FDB_RESULT_FILE_CORRUPTION, h)
      else read_then h off 8 (\<lambda>h2 off2 d.
        if unat (dec64 (mem_word d) :: u64) > fm_pos (dh_file h2) then Some (Inl FDB_RESULT_FILE_CORRUPTION, h2)
        else Some (Inr (off2, doc\<lparr>doc_len := len, seqnum := dec64 (mem_word d)\<rparr>), h2)))"

text \<open>The parts of a document behind its length structure, and the comparison of the checksum.\<close>

definition read_doc_parts ::
  "docio_handle \<Rightarrow> nat \<Rightarrow> docio_length \<Rightarrow> docio_length \<Rightarrow> docio_object \<Rightarrow> ((int + nat \<times> docio_object) \<times> docio_handle) option" where
  "read_doc_parts h off enc len doc =
     read_then h off (unat (keylen len)) (\<lambda>h2 off2 k.
     read_then h2 off2 4 (\<lambda>h3 off3 ts.
     read_then h3 off3 8 (\<lambda>h4 off4 sq.
     read_then h4 off4 (unat (metalen len)) (\<lambda>h5 off5 m.
     read_then h5 off5 (unat (bodylen len)) (\<lambda>h6 off6 b.
     read_then h6 off6 4 (\<lambda>h7 off7 crc_file.
     if flag len AND DOCIO_COMPRESSED \<noteq> 0 then None
     else case parts_checksum (fm_crc_mode (dh_file h7)) [length_mem enc, k, ts, sq, m, b] of
            None \<Rightarrow> None
          | Some crc \<Rightarrow>
              if crc \<noteq> mem_word crc_file then Some (Inl FDB_RESULT_CHECKSUM_ERROR, h7)
              else Some (Inr (off7, doc\<lparr>doc_len := len, doc_key := k, timestamp := dec32 (mem_word ts),
                     seqnum := dec64 (mem_word sq), doc_meta := m, doc_body := b\<rparr>), h7)))))))"

definition docio_read_doc ::
  "docio_handle \<Rightarrow> nat \<Rightarrow> docio_object \<Rightarrow> bool \<Rightarrow> ((int + nat \<times> docio_object) \<times> docio_handle) option" where
  "docio_read_doc h offset doc read_on_cache_miss =
     read_length_then h offset read_on_cache_miss (0, doc\<lparr>doc_len := zero_length\<rparr>) (\<lambda>h1 off enc.
       let len = docio_length_decode enc in
       if flag len AND DOCIO_TXN_COMMITTED \<noteq> 0 then read_commit_mark h1 off len doc
       else if bad_keylen len then Some (Inl FDB_RESULT_FILE_CORRUPTION, h1)
       else read_doc_parts h1 off enc len doc)"

end
