(* ===== verification/Docio_Read.thy ===== *)
theory Docio_Read
  imports Docio
begin

text \<open>
  The reading side of document I/O: along a chain of document blocks every part of a document is
  found, and a document image on a chain is read back as the document it was made from. The lemmas
  are about the new file format in a file whose blocks are not being reused yet (no bitmap), so that
  allocation grows the file.
\<close>

section \<open>Files that only grow\<close>

definition growing :: "filemgr \<Rightarrow> bool" where
  "growing f \<longleftrightarrow> file_ok f \<and> ver_non_consecutive_doc (fm_version f) \<and> fm_crc_mode f = CRC32 \<and>
     32 \<le> fm_blocksize f \<and> fm_pos f < 2 ^ 64 \<and> fm_last_commit f \<le> fm_pos f \<and>
     (case fm_sb f of None \<Rightarrow> True | Some sb \<Rightarrow> \<not> sb_bmp_exists sb)"

abbreviation blk :: "filemgr \<Rightarrow> nat" where "blk f \<equiv> docblk_size f"

lemma growing_blk: "growing f \<Longrightarrow> blk f + 16 = fm_blocksize f \<and> 16 \<le> blk f"
  by (auto simp: growing_def docblk_size_def DOCBLK_META_SIZE_def)

definition fresh :: "filemgr \<Rightarrow> nat \<Rightarrow> bool" where
  "fresh f bid \<longleftrightarrow> fm_last_commit f \<le> bid * fm_blocksize f \<and> bid * fm_blocksize f < fm_pos f"

lemma fresh_writable: "growing f \<Longrightarrow> filemgr_is_writable f bid \<longleftrightarrow> fresh f bid"
  by (auto simp: growing_def filemgr_is_writable_def fresh_def split: option.splits)

text \<open>The frame of an update: everything but the contents and the stale list stays, or grows.\<close>

definition grows :: "filemgr \<Rightarrow> filemgr \<Rightarrow> bool" where
  "grows f f' \<longleftrightarrow> growing f' \<and> fm_blocksize f' = fm_blocksize f \<and> fm_last_commit f' = fm_last_commit f \<and>
     fm_pos f \<le> fm_pos f' \<and> docblk_size f' = docblk_size f \<and> sb_get_bmp_revnum f' = sb_get_bmp_revnum f"

lemma grows_trans: "grows f g \<Longrightarrow> grows g h \<Longrightarrow> grows f h"
  by (auto simp: grows_def)

lemma grows_refl: "growing f \<Longrightarrow> grows f f"
  by (simp add: grows_def)

lemma grows_fresh: "grows f g \<Longrightarrow> fresh f bid \<Longrightarrow> fresh g bid"
  by (auto simp: grows_def fresh_def)

definition put :: "filemgr \<Rightarrow> nat \<Rightarrow> nat \<Rightarrow> buf \<Rightarrow> filemgr" where
  "put f bid off src = f\<lparr>fm_data := fst (ops_pwrite (fm_ops f) (fm_data f) src (bid * fm_blocksize f + off))\<rparr>"

lemma put_spec:
  assumes "growing f" "fresh f bid" "off + length src \<le> fm_blocksize f"
  shows "grows f (put f bid off src)" "block (put f bid off src) bid = mem_write (block f bid) off src"
    "other \<noteq> bid \<Longrightarrow> other * fm_blocksize f < fm_pos f \<Longrightarrow> block (put f bid off src) other = block f other"
    "fm_pos (put f bid off src) = fm_pos f"
proof -
  have "file_ok f" "bid * fm_blocksize f < fm_pos f" using assms by (auto simp: growing_def fresh_def)
  note w = block_write [OF this assms(3)]
  show "grows f (put f bid off src)"
    using assms(1) w(1) by (simp add: grows_def growing_def put_def docblk_size_def sb_get_bmp_revnum_def)
  show "block (put f bid off src) bid = mem_write (block f bid) off src" using w(2) by (simp add: put_def)
  show "other \<noteq> bid \<Longrightarrow> other * fm_blocksize f < fm_pos f \<Longrightarrow> block (put f bid off src) other = block f other"
    using w(3) by (simp add: put_def)
qed (simp add: put_def)

lemma write_offset_put:
  assumes "growing f" "fresh f bid" "off + length src \<le> fm_blocksize f" "length src \<noteq> fm_blocksize f"
  shows "filemgr_write_offset f bid off src = Some (FDB_RESULT_SUCCESS, put f bid off src)"
proof -
  have "file_ok f" "bid * fm_blocksize f < fm_pos f" using assms by (auto simp: growing_def fresh_def)
  note w = block_write(4) [OF this assms(3)]
  have "write_permitted f bid (bid * fm_blocksize f + off)"
    using assms(1,2) by (auto simp: write_permitted_def growing_def fresh_def split: option.splits)
  with w assms(3,4) show ?thesis
    by (auto simp: filemgr_write_offset_def put_def Let_def split: prod.splits)
qed

lemma write_then_put:
  assumes "growing (dh_file h)" "fresh (dh_file h) bid" "off + length src \<le> fm_blocksize (dh_file h)"
    "length src \<noteq> fm_blocksize (dh_file h)"
  shows "write_then h bid off src k = k (h\<lparr>dh_file := put (dh_file h) bid off src\<rparr>)"
  using write_offset_put [OF assms] by (simp add: write_then_def)

lemma alloc_growing:
  assumes "growing f" "fm_pos f + fm_blocksize f < 2 ^ 64"
  shows "\<exists>f'. filemgr_alloc f = Some (fm_pos f div fm_blocksize f, f') \<and> grows f f' \<and>
    fm_pos f' = fm_pos f + fm_blocksize f \<and> fresh f' (fm_pos f div fm_blocksize f) \<and>
    (\<forall>b. b * fm_blocksize f < fm_pos f \<longrightarrow> block f' b = block f b)"
proof -
  have ok: "file_ok f" "fm_last_commit f \<le> fm_pos f" using assms by (auto simp: growing_def)
  obtain s where s: "alloc_from_sb f = Some (BLK_NOT_FOUND, f\<lparr>fm_sb := s\<rparr>)"
    and none: "\<And>sb. s = Some sb \<Longrightarrow> bmp_size sb = 0" and rev: "sb_get_bmp_revnum (f\<lparr>fm_sb := s\<rparr>) = sb_get_bmp_revnum f"
  proof (cases "fm_sb f")
    case None
    then show ?thesis by (intro that [of None]) (auto simp: alloc_from_sb_def sb_get_bmp_revnum_def)
  next
    case (Some sb)
    then have "\<not> sb_bmp_exists sb" using assms(1) by (simp add: growing_def)
    then have "sb_alloc_block sb = Some (BLK_NOT_FOUND, sb\<lparr>num_alloc := Suc (num_alloc sb)\<rparr>, [])" "bmp_size sb = 0"
      by (simp_all add: sb_alloc_block_def sb_bmp_exists_def)
    with Some show ?thesis
      by (intro that [of "if fm_status f = FILE_NORMAL then Some (sb\<lparr>num_alloc := Suc (num_alloc sb)\<rparr>) else Some sb"])
        (auto simp: alloc_from_sb_def sb_get_bmp_revnum_def split: if_splits)
  qed
  obtain f' where f': "filemgr_alloc f = Some (fm_pos f div fm_blocksize f, f')" "file_ok f'"
    "filemgr_is_writable f' (fm_pos f div fm_blocksize f)" "take (fm_pos f) (fm_data f') = fm_data f"
    and e: "f' = f\<lparr>fm_sb := s, fm_pos := fm_pos f + fm_blocksize f, fm_data := fm_data f'\<rparr>"
    using alloc_append [OF ok s] none by auto
  have F: "fm_blocksize f' = fm_blocksize f" "fm_pos f' = fm_pos f + fm_blocksize f" "fm_sb f' = s"
    "fm_last_commit f' = fm_last_commit f" "fm_version f' = fm_version f" "fm_crc_mode f' = fm_crc_mode f"
    by (subst e, simp)+
  have g: "growing f'" using assms f'(2) F none by (auto simp: growing_def sb_bmp_exists_def split: option.splits)
  moreover have "sb_get_bmp_revnum f' = sb_get_bmp_revnum f" using rev F(3) by (simp add: sb_get_bmp_revnum_def)
  ultimately have "grows f f'" using F by (simp add: grows_def docblk_size_def)
  moreover have "fresh f' (fm_pos f div fm_blocksize f)" using f'(3) fresh_writable [OF g] by simp
  moreover have "block f' b = block f b" if "b * fm_blocksize f < fm_pos f" for b
  proof -
    have "b * fm_blocksize f + fm_blocksize f \<le> fm_pos f" using block_inside [OF ok(1) that] ok(1) by (simp add: file_ok_def)
    then have "mem_read (fm_data f') (b * fm_blocksize f) (fm_blocksize f) =
        mem_read (take (fm_pos f) (fm_data f')) (b * fm_blocksize f) (fm_blocksize f)"
      by (simp add: mem_read_def drop_take min_def)
    then show ?thesis using f'(4) F(1) by (simp add: block_def)
  qed
  ultimately show ?thesis using f'(1) F(2) by blast
qed

section \<open>Chains of document blocks\<close>

definition doc_block :: "filemgr \<Rightarrow> nat \<Rightarrow> bool" where
  "doc_block f bid \<longleftrightarrow> bid * fm_blocksize f < fm_pos f \<and> block f bid ! (fm_blocksize f - 1) = BLK_MARKER_DOC"

definition next_of :: "filemgr \<Rightarrow> nat \<Rightarrow> nat" where
  "next_of f bid = unat (dec64 (next_bid (mem_meta (drop (blk f) (block f bid)))))"

fun chain :: "filemgr \<Rightarrow> nat list \<Rightarrow> bool" where
  "chain f [] = True"
| "chain f [b] = doc_block f b"
| "chain f (b # c # bs) = (doc_block f b \<and> next_of f b = c \<and> chain f (c # bs))"

definition contents :: "filemgr \<Rightarrow> nat list \<Rightarrow> buf" where
  "contents f ids = concat (map (\<lambda>b. take (blk f) (block f b)) ids)"

lemma contents_simps [simp]: "contents f [] = []" "contents f (b # ids) = take (blk f) (block f b) @ contents f ids"
  by (simp_all add: contents_def)

text \<open>The read buffer holds the contents of the block it claims to hold.\<close>

definition buffer_ok :: "docio_handle \<Rightarrow> bool" where
  "buffer_ok h \<longleftrightarrow> growing (dh_file h) \<and>
     (lastbid h \<noteq> BLK_NOT_FOUND \<longrightarrow> readbuffer h = block (dh_file h) (lastbid h) \<and>
        lastbid h * fm_blocksize (dh_file h) < fm_last_commit (dh_file h))"

lemma read_doc_block:
  assumes "growing f" "doc_block f bid"
  shows "filemgr_read f bid True = Inr (block f bid)"
  using assms by (intro read_plain) (auto simp: growing_def doc_block_def BLK_MARKER_DOC_def BLK_MARKER_BNODE_def)

lemma read_through_doc_block:
  assumes "buffer_ok h" "doc_block (dh_file h) bid" "bid \<noteq> BLK_NOT_FOUND"
  shows "\<exists>h'. docio_read_through_buffer h bid True = (FDB_RESULT_SUCCESS, h') \<and> dh_file h' = dh_file h \<and>
    buffer_ok h' \<and> readbuffer h' = block (dh_file h) bid \<and> curblock h' = curblock h \<and> curpos h' = curpos h"
proof -
  have g: "growing (dh_file h)" using assms(1) by (simp add: buffer_ok_def)
  note r = read_doc_block [OF g assms(2)]
  have "bid * fm_blocksize (dh_file h) < fm_pos (dh_file h)" using assms(2) by (simp add: doc_block_def)
  then have "\<not> filemgr_is_writable (dh_file h) bid \<Longrightarrow> bid * fm_blocksize (dh_file h) < fm_last_commit (dh_file h)"
    by (auto simp: fresh_writable [OF g] fresh_def)
  with r assms show ?thesis
    by (auto simp: docio_read_through_buffer_def Let_def buffer_ok_def)
qed

lemma doc_block_number: "growing f \<Longrightarrow> doc_block f b \<Longrightarrow> b < fm_pos f div fm_blocksize f \<and> b < BLK_NOT_FOUND"
proof -
  assume g: "growing f" and d: "doc_block f b"
  have bs: "32 \<le> fm_blocksize f" "fm_pos f mod fm_blocksize f = 0" "fm_pos f < 2 ^ 64"
    using g by (auto simp: growing_def file_ok_def)
  have "b * fm_blocksize f < fm_pos f" using d by (simp add: doc_block_def)
  also have "fm_pos f = fm_pos f div fm_blocksize f * fm_blocksize f" using bs(2) by auto
  finally have "b < fm_pos f div fm_blocksize f" by simp
  moreover have "fm_pos f div fm_blocksize f \<le> fm_pos f div 32" using bs(1) by (rule div_le_mono2 [rotated]) simp
  ultimately show ?thesis using bs(3) by (auto simp: BLK_NOT_FOUND_def)
qed

lemma length_doc_block: "growing f \<Longrightarrow> doc_block f b \<Longrightarrow> length (take (blk f) (block f b)) = blk f"
  using length_block [of f b] growing_blk [of f] by (auto simp: growing_def doc_block_def)

lemma chain_doc_block: "chain f ids \<Longrightarrow> b \<in> set ids \<Longrightarrow> doc_block f b"
  by (induction f ids rule: chain.induct) auto

text \<open>A position in a chain, and what can be read from it on.\<close>

definition from_pos :: "filemgr \<Rightarrow> nat list \<Rightarrow> nat \<Rightarrow> buf" where
  "from_pos f ids pos = drop pos (contents f ids)"

lemma from_pos_Cons:
  "growing f \<Longrightarrow> chain f (b # ids) \<Longrightarrow> pos \<le> blk f \<Longrightarrow>
     from_pos f (b # ids) pos = mem_read (block f b) pos (blk f - pos) @ contents f ids"
  using length_doc_block [of f b] chain_doc_block [of f "b # ids" b]
  by (simp add: from_pos_def mem_read_def drop_take)

lemma read_parts_chain:
  assumes "buffer_ok h" "chain (dh_file h) (b # ids)" "pos \<le> blk (dh_file h)"
    "n \<le> length (from_pos (dh_file h) (b # ids) pos)" "n + (if pos = blk (dh_file h) then 1 else 0) < fuel"
  shows "\<exists>h' b' ids' pos'. read_parts fuel h b pos n =
      Some (Inr (b' * fm_blocksize (dh_file h) + pos', take n (from_pos (dh_file h) (b # ids) pos)), h') \<and>
    dh_file h' = dh_file h \<and> buffer_ok h' \<and> chain (dh_file h) (b' # ids') \<and> pos' \<le> blk (dh_file h) \<and>
    from_pos (dh_file h) (b' # ids') pos' = drop n (from_pos (dh_file h) (b # ids) pos)"
  using assms
proof (induction fuel arbitrary: h b ids pos n)
  case (Suc fuel)
  let ?f = "dh_file h"
  have g: "growing ?f" using Suc.prems(1) by (simp add: buffer_ok_def)
  have d: "doc_block ?f b" using Suc.prems(2) by (simp add: chain_doc_block)
  note F = from_pos_Cons [OF g Suc.prems(2,3)]
  have lm: "length (mem_read (block ?f b) pos (blk ?f - pos)) = blk ?f - pos"
    using length_doc_block [OF g d] Suc.prems(3) by (simp add: mem_read_def)
  show ?case
  proof (cases "n = 0")
    case True
    with Suc.prems show ?thesis by (intro exI [of _ h] exI [of _ b] exI [of _ ids] exI [of _ pos]) simp
  next
    case False
    from read_through_doc_block [OF Suc.prems(1) d] doc_block_number [OF g d] obtain h1 where
      h1: "docio_read_through_buffer h b True = (FDB_RESULT_SUCCESS, h1)" "dh_file h1 = ?f" "buffer_ok h1"
        "readbuffer h1 = block ?f b" by auto
    show ?thesis
    proof (cases "n \<le> blk ?f - pos")
      case True
      then have "mem_read (block ?f b) pos n = take n (from_pos ?f (b # ids) pos)"
        using lm unfolding F by (simp add: mem_read_def min_def)
      moreover have "from_pos ?f (b # ids) (pos + n) = drop n (from_pos ?f (b # ids) pos)"
        by (simp only: from_pos_def drop_drop add.commute)
      ultimately show ?thesis using h1 False True Suc.prems
        by (intro exI [of _ h1] exI [of _ b] exI [of _ ids] exI [of _ "pos + n"]) simp
    next
      case far: False
      let ?r = "blk ?f - pos"
      obtain c ids2 where c: "ids = c # ids2" using Suc.prems(4) far lm unfolding F by (cases ids) auto
      have ch: "chain ?f (c # ids2)" "next_of ?f b = c" using Suc.prems(2) by (auto simp: c)
      have nb: "next_block h1 b = c" using h1 g ch(2) by (simp add: next_block_def next_of_def growing_def)
      have c_in: "c < fm_pos ?f div fm_blocksize ?f"
        using doc_block_number [OF g] chain_doc_block [OF ch(1), of c] by simp
      have z: "from_pos ?f (c # ids2) 0 = contents ?f ids" by (simp add: from_pos_def c)
      have "n - ?r \<le> length (from_pos (dh_file h1) (c # ids2) 0)" "n - ?r + (if 0 = blk (dh_file h1) then 1 else 0) < fuel"
        using Suc.prems(3,4,5) lm far growing_blk [OF g] unfolding F h1(2) z by (auto split: if_splits)
      from Suc.IH [OF h1(3) _ _ this] ch(1) h1(2) obtain h2 b' ids' pos' where
        r: "read_parts fuel h1 c 0 (n - ?r) = Some (Inr (b' * fm_blocksize ?f + pos', take (n - ?r) (contents ?f ids)), h2)"
        "dh_file h2 = ?f" "buffer_ok h2" "chain ?f (b' # ids')" "pos' \<le> blk ?f"
        "from_pos ?f (b' # ids') pos' = drop (n - ?r) (contents ?f ids)" unfolding z [symmetric] by auto
      have "take n (from_pos ?f (b # ids) pos) = mem_read (block ?f b) pos ?r @ take (n - ?r) (contents ?f ids)"
        "drop n (from_pos ?f (b # ids) pos) = drop (n - ?r) (contents ?f ids)"
        using far lm unfolding F by simp_all
      then show ?thesis using h1 r nb c_in far False Suc.prems(3)
        by (intro exI [of _ h2] exI [of _ b'] exI [of _ ids'] exI [of _ pos']) (simp add: Let_def)
    qed
  qed
qed simp

declare read_parts.simps [simp del]

section \<open>Reading along a chain\<close>

text \<open>\<open>cursor h off rest\<close>: at file offset \<open>off\<close>, following the chain, the bytes \<open>rest\<close> can be read.\<close>

definition cursor :: "docio_handle \<Rightarrow> nat \<Rightarrow> buf \<Rightarrow> bool" where
  "cursor h off rest \<longleftrightarrow> buffer_ok h \<and>
     (\<exists>b ids pos. chain (dh_file h) (b # ids) \<and> pos \<le> blk (dh_file h) \<and>
        off = b * fm_blocksize (dh_file h) + pos \<and> rest = from_pos (dh_file h) (b # ids) pos)"

lemma cursorI:
  "buffer_ok h \<Longrightarrow> dh_file h = f \<Longrightarrow> chain f (b # ids) \<Longrightarrow> pos \<le> blk f \<Longrightarrow>
     cursor h (b * fm_blocksize f + pos) (from_pos f (b # ids) pos)"
  by (auto simp: cursor_def)

lemma offset_split:
  assumes "growing f" "pos \<le> blk f"
  shows "(b * fm_blocksize f + pos) div fm_blocksize f = b" "(b * fm_blocksize f + pos) mod fm_blocksize f = pos"
  using growing_blk [OF assms(1)] assms(2) by simp_all

lemma component_cursor:
  assumes "cursor h off rest" "n \<le> length rest"
  shows "\<exists>h' off'. docio_read_doc_component h off n = Some (Inr (off', take n rest), h') \<and>
    dh_file h' = dh_file h \<and> cursor h' off' (drop n rest)"
proof -
  let ?f = "dh_file h"
  obtain b ids pos where c: "chain ?f (b # ids)" "pos \<le> blk ?f" "off = b * fm_blocksize ?f + pos"
    "rest = from_pos ?f (b # ids) pos" and ok: "buffer_ok h" using assms(1) by (auto simp: cursor_def)
  have g: "growing ?f" using ok by (simp add: buffer_ok_def)
  have fuel: "n + (if pos = blk ?f then 1 else 0) < n + 2" by simp
  from read_parts_chain [OF ok c(1,2) assms(2)[unfolded c(4)] fuel] obtain h' b' ids' pos' where
    r: "read_parts (n + 2) h b pos n = Some (Inr (b' * fm_blocksize ?f + pos', take n rest), h')" "dh_file h' = ?f" "buffer_ok h'"
      "chain ?f (b' # ids')" "pos' \<le> blk ?f" "from_pos ?f (b' # ids') pos' = drop n rest" unfolding c(4) by blast
  have "cursor h' (b' * fm_blocksize ?f + pos') (drop n rest)"
    unfolding cursor_def r(2) using r(3-5) r(6) [symmetric] by blast
  moreover have "docio_read_doc_component h off n = read_parts (n + 2) h b pos n"
    unfolding docio_read_doc_component_def c(3) offset_split [OF g c(2)] ..
  ultimately show ?thesis using r(1,2) by simp
qed

lemma check_buffer_doc:
  assumes "growing (dh_file h)" "doc_block (dh_file h) b" "readbuffer h = block (dh_file h) b"
  shows "docio_check_buffer h None"
proof -
  have "length (block (dh_file h) b) = fm_blocksize (dh_file h)"
    using assms(1,2) by (intro length_block) (auto simp: growing_def doc_block_def)
  then have "drop (blk (dh_file h)) (block (dh_file h) b) ! 15 = block (dh_file h) b ! (fm_blocksize (dh_file h) - 1)"
    using growing_blk [OF assms(1)] by (auto intro!: arg_cong [of _ _ "(!) _"])
  with assms show ?thesis by (simp add: docio_check_buffer_def growing_def mem_meta_def doc_block_def)
qed

lemma read_length_cursor:
  assumes "cursor h off rest" "16 \<le> length rest"
  shows "\<exists>h' off'. docio_read_length h off True = (Inr (off', mem_length (take 16 rest)), h') \<and>
    dh_file h' = dh_file h \<and> cursor h' off' (drop 16 rest)"
proof -
  let ?f = "dh_file h"
  obtain b ids pos where c: "chain ?f (b # ids)" "pos \<le> blk ?f" "off = b * fm_blocksize ?f + pos"
    "rest = from_pos ?f (b # ids) pos" and ok: "buffer_ok h" using assms(1) by (auto simp: cursor_def)
  have g: "growing ?f" using ok by (simp add: buffer_ok_def)
  have d: "doc_block ?f b" using c(1) by (simp add: chain_doc_block)
  note F = from_pos_Cons [OF g c(1,2)]
  have od: "off div fm_blocksize ?f = b" "off mod fm_blocksize ?f = pos"
    unfolding c(3) using offset_split [OF g c(2)] by auto
  have lm: "length (mem_read (block ?f b) pos (blk ?f - pos)) = blk ?f - pos"
    using length_doc_block [OF g d] c(2) by (simp add: mem_read_def)
  from read_through_doc_block [OF ok d] doc_block_number [OF g d] obtain h1 where
    h1: "docio_read_through_buffer h b True = (FDB_RESULT_SUCCESS, h1)" "dh_file h1 = ?f" "buffer_ok h1"
      "readbuffer h1 = block ?f b" by auto
  have chk: "docio_check_buffer h1 None" using check_buffer_doc [of h1 b] g d h1 by simp
  show ?thesis
  proof (cases "16 \<le> blk ?f - pos")
    case True
    have "mem_read (block ?f b) pos 16 = take 16 rest" using True lm unfolding c(4) F by (simp add: mem_read_def min_def)
    moreover have "drop 16 rest = from_pos ?f (b # ids) (pos + 16)"
      unfolding c(4) by (simp only: from_pos_def drop_drop add.commute)
    moreover have "cursor h1 (b * fm_blocksize ?f + (pos + 16)) (from_pos ?f (b # ids) (pos + 16))"
      using True by (intro cursorI h1 c(1)) simp
    moreover have "pos < blk ?f" using True by simp
    ultimately show ?thesis using h1 chk True
      by (intro exI [of _ h1] exI [of _ "b * fm_blocksize ?f + (pos + 16)"])
        (simp add: docio_read_length_def Let_def od)
  next
    case False
    let ?r = "blk ?f - pos"
    obtain c1 ids2 where c1: "ids = c1 # ids2" using assms(2) False lm unfolding c(4) F by (cases ids) auto
    have ch: "chain ?f (c1 # ids2)" "next_of ?f b = c1" using c(1) by (auto simp: c1)
    have d1: "doc_block ?f c1" using ch(1) by (simp add: chain_doc_block)
    have nb: "next_block h1 b = c1" using h1 g ch(2) by (simp add: next_block_def next_of_def growing_def)
    from read_through_doc_block [OF h1(3), of c1] d1 h1(2) doc_block_number [OF g d1] obtain h2 where
      h2: "docio_read_through_buffer h1 c1 True = (FDB_RESULT_SUCCESS, h2)" "dh_file h2 = ?f" "buffer_ok h2"
        "readbuffer h2 = block ?f c1" by auto
    have chk2: "docio_check_buffer h2 None" using check_buffer_doc [of h2 c1] g d1 h2 by simp
    have l1: "length (take (blk ?f) (block ?f c1)) = blk ?f" by (rule length_doc_block [OF g d1])
    have small: "16 - ?r \<le> blk ?f" using growing_blk [OF g] by linarith
    have "take 16 rest = mem_read (block ?f b) pos ?r @ mem_read (block ?f c1) 0 (16 - ?r)"
      using False lm l1 small unfolding c(4) F unfolding c1 by (simp add: mem_read_def min_def)
    moreover have "drop 16 rest = from_pos ?f (c1 # ids2) (16 - ?r)"
      using False lm unfolding c(4) F unfolding c1 by (simp add: from_pos_def)
    moreover have "cursor h2 (c1 * fm_blocksize ?f + (16 - ?r)) (from_pos ?f (c1 # ids2) (16 - ?r))"
      using small by (intro cursorI h2 ch(1))
    moreover have "(if pos < blk ?f then blk ?f - pos else 0) = ?r" by simp
    ultimately show ?thesis
      using h1 h2 chk chk2 nb False doc_block_number [OF g d1]
      by (intro exI [of _ h2] exI [of _ "c1 * fm_blocksize ?f + (16 - ?r)"])
        (simp add: docio_read_length_def Let_def od)
  qed
qed

section \<open>Reading a document image\<close>

lemma crc32_8_foldl: "n \<le> length b \<Longrightarrow> crc32_8 b n seed = NOT (foldl crc_step (NOT seed) (take n b))"
  by (simp add: crc32_8_def crc_loop8_bytes crc_bytes_foldl)

lemma parts_checksum_concat:
  "parts_checksum CRC32 ps = Some (crc32_8 (concat ps) (length (concat ps)) 0)"
proof -
  have "foldl (\<lambda>acc p. case acc of None \<Rightarrow> None | Some c \<Rightarrow> get_checksum p (length p) c CRC32) (Some c) ps =
      Some (NOT (foldl crc_step (NOT c) (concat ps)))" for c
  proof (induction ps arbitrary: c)
    case (Cons p ps)
    then show ?case by (simp add: get_checksum_def crc32_8_foldl)
  qed simp
  from this [of 0] show ?thesis by (simp add: parts_checksum_def crc32_8_foldl)
qed

lemma length_checksum_ignores: "docio_length_checksum (len\<lparr>checksum := c\<rparr>) CRC32 = docio_length_checksum len CRC32"
  by (simp add: docio_length_checksum_def get_checksum_mode_def get_checksum_def crc32_8_foldl length_mem_def)

text \<open>A document that the callers build: the length fields describe its parts.\<close>

definition doc_ok :: "docio_object \<Rightarrow> bool" where
  "doc_ok doc \<longleftrightarrow> length (doc_key doc) = unat (keylen (doc_len doc)) \<and> length (doc_meta doc) = unat (metalen (doc_len doc)) \<and>
     length (doc_body doc) = unat (bodylen (doc_len doc)) \<and> \<not> bad_keylen (doc_len doc) \<and>
     flag (doc_len doc) AND DOCIO_TXN_COMMITTED = 0 \<and> flag (doc_len doc) AND DOCIO_COMPRESSED = 0"

text \<open>What reading the document yields: the same parts, with the length as stored.\<close>

definition stored_length :: "docio_object \<Rightarrow> docio_length" where
  "stored_length doc = (let len = (doc_len doc)\<lparr>bodylen_ondisk := bodylen (doc_len doc)\<rparr>
     in len\<lparr>checksum := the (docio_length_checksum (docio_length_encode len) CRC32)\<rparr>)"

definition stored_doc :: "docio_object \<Rightarrow> docio_object" where
  "stored_doc doc = doc\<lparr>doc_len := stored_length doc\<rparr>"

lemma stored_length_fields [simp]:
  "keylen (stored_length doc) = keylen (doc_len doc)" "metalen (stored_length doc) = metalen (doc_len doc)"
  "bodylen (stored_length doc) = bodylen (doc_len doc)" "flag (stored_length doc) = flag (doc_len doc)"
  by (simp_all add: stored_length_def Let_def)

lemma encode_checksum: "docio_length_encode (len\<lparr>checksum := c\<rparr>) = (docio_length_encode len)\<lparr>checksum := c\<rparr>"
  by (simp add: docio_length_encode_def)

lemma checksum_stored_length:
  "docio_length_checksum (docio_length_encode (stored_length doc)) CRC32 = Some (checksum (docio_length_encode (stored_length doc)))"
proof -
  have "\<exists>c. docio_length_checksum x CRC32 = Some c" for x
    by (simp add: docio_length_checksum_def get_checksum_mode_def get_checksum_def)
  then show ?thesis
    by (auto simp: stored_length_def Let_def encode_checksum length_checksum_ignores)
qed

definition image_parts :: "docio_object \<Rightarrow> buf list" where
  "image_parts doc = [length_mem (docio_length_encode (stored_length doc)), doc_key doc,
     word_mem 4 (enc32 (timestamp doc)), word_mem 8 (enc64 (seqnum doc)), doc_meta doc, doc_body doc]"

definition image_crc :: "docio_object \<Rightarrow> u32" where
  "image_crc doc = crc32_8 (concat (image_parts doc)) (length (concat (image_parts doc))) 0"

lemma doc_image_parts:
  assumes "doc_ok doc"
  shows "doc_image doc CRC32 = Some ((doc_len doc)\<lparr>bodylen_ondisk := bodylen (doc_len doc)\<rparr>,
    concat (image_parts doc) @ word_mem 4 (image_crc doc))"
proof -
  let ?len = "(doc_len doc)\<lparr>bodylen_ondisk := bodylen (doc_len doc)\<rparr>"
  obtain c where c: "docio_length_checksum (docio_length_encode ?len) CRC32 = Some c"
    by (simp add: docio_length_checksum_def get_checksum_mode_def get_checksum_def)
  have "stored_length doc = ?len\<lparr>checksum := c\<rparr>" using c by (simp add: stored_length_def Let_def)
  then show ?thesis using assms c
    by (simp add: doc_image_def Let_def image_parts_def image_crc_def doc_ok_def encode_checksum get_checksum_mode_def get_checksum_def)
qed

lemma component_part:
  assumes "cursor h off (p @ rest)" "n = length p"
  obtains h' off' where "docio_read_doc_component h off n = Some (Inr (off', p), h')" "dh_file h' = dh_file h"
    "cursor h' off' rest"
  using component_cursor [OF assms(1), of n] assms(2) by auto

lemma stored_length_nonzero: "doc_ok doc \<Longrightarrow> docio_length_encode (stored_length doc) \<noteq> zero_length"
proof
  assume a: "doc_ok doc" "docio_length_encode (stored_length doc) = zero_length"
  then have "keylen (docio_length_encode (stored_length doc)) = 0" by (simp add: zero_length_def)
  then have "enc16 (keylen (doc_len doc)) = 0" by (simp add: docio_length_encode_def)
  then have "dec16 (enc16 (keylen (doc_len doc))) = dec16 0" by simp
  then show False using a(1) by (simp add: doc_ok_def bad_keylen_def dec16_def [of 0] bitswap16_def)
qed

lemma length_part:
  assumes "cursor h off (length_mem (docio_length_encode (stored_length doc)) @ rest)"
  obtains h' off' where "dh_file h' = dh_file h" "cursor h' off' rest"
    "docio_read_length h off True = (Inr (off', docio_length_encode (stored_length doc)), h')"
proof -
  let ?E = "docio_length_encode (stored_length doc)"
  obtain h' off' where r: "docio_read_length h off True = (Inr (off', mem_length (take 16 (length_mem ?E @ rest))), h')"
    "dh_file h' = dh_file h" "cursor h' off' (drop 16 (length_mem ?E @ rest))"
    using read_length_cursor [OF assms] by auto
  have e: "mem_length (take 16 (length_mem ?E @ rest)) = ?E" using mem_length_length_mem [of ?E "[]"] by simp
  show ?thesis using r unfolding e by (intro that [of h' off']) simp_all
qed

lemma read_doc_image:
  assumes ok: "doc_ok doc" and c: "cursor h off (concat (image_parts doc) @ word_mem 4 (image_crc doc) @ rest)"
  shows "\<exists>h' off'. docio_read_doc h off doc0 True = Some (Inr (off', stored_doc doc), h') \<and> dh_file h' = dh_file h"
proof -
  let ?E = "docio_length_encode (stored_length doc)" and ?L = "stored_length doc"
  have fl: "flag ?L AND DOCIO_TXN_COMMITTED = 0" "flag ?L AND DOCIO_COMPRESSED = 0" "\<not> bad_keylen ?L"
    using ok by (simp_all add: doc_ok_def bad_keylen_def)
  have len: "unat (keylen ?L) = length (doc_key doc)" "unat (metalen ?L) = length (doc_meta doc)"
    "unat (bodylen ?L) = length (doc_body doc)" using ok by (simp_all add: doc_ok_def)
  have sm: "parts_checksum CRC32 [length_mem ?E, doc_key doc, word_mem 4 (enc32 (timestamp doc)),
      word_mem 8 (enc64 (seqnum doc)), doc_meta doc, doc_body doc] = Some (image_crc doc)"
    using parts_checksum_concat [of "image_parts doc"] by (simp only: image_parts_def image_crc_def)
  obtain h1 off1 where h1: "dh_file h1 = dh_file h" "cursor h1 off1 (doc_key doc @ word_mem 4 (enc32 (timestamp doc)) @
      word_mem 8 (enc64 (seqnum doc)) @ doc_meta doc @ doc_body doc @ word_mem 4 (image_crc doc) @ rest)"
    and r1: "docio_read_length h off True = (Inr (off1, ?E), h1)"
    using c unfolding image_parts_def concat.simps append_assoc append_Nil by (rule length_part)
  obtain h2 off2 where h2: "docio_read_doc_component h1 off1 (length (doc_key doc)) = Some (Inr (off2, doc_key doc), h2)"
    "dh_file h2 = dh_file h1" "cursor h2 off2 (word_mem 4 (enc32 (timestamp doc)) @
      word_mem 8 (enc64 (seqnum doc)) @ doc_meta doc @ doc_body doc @ word_mem 4 (image_crc doc) @ rest)"
    using h1(2) by (rule component_part) simp
  obtain h3 off3 where h3: "docio_read_doc_component h2 off2 4 = Some (Inr (off3, word_mem 4 (enc32 (timestamp doc))), h3)"
    "dh_file h3 = dh_file h2" "cursor h3 off3 (word_mem 8 (enc64 (seqnum doc)) @ doc_meta doc @ doc_body doc @ word_mem 4 (image_crc doc) @ rest)"
    using h2(3) by (rule component_part) simp
  obtain h4 off4 where h4: "docio_read_doc_component h3 off3 8 = Some (Inr (off4, word_mem 8 (enc64 (seqnum doc))), h4)"
    "dh_file h4 = dh_file h3" "cursor h4 off4 (doc_meta doc @ doc_body doc @ word_mem 4 (image_crc doc) @ rest)"
    using h3(3) by (rule component_part) simp
  obtain h5 off5 where h5: "docio_read_doc_component h4 off4 (length (doc_meta doc)) = Some (Inr (off5, doc_meta doc), h5)"
    "dh_file h5 = dh_file h4" "cursor h5 off5 (doc_body doc @ word_mem 4 (image_crc doc) @ rest)"
    using h4(3) by (rule component_part) simp
  obtain h6 off6 where h6: "docio_read_doc_component h5 off5 (length (doc_body doc)) = Some (Inr (off6, doc_body doc), h6)"
    "dh_file h6 = dh_file h5" "cursor h6 off6 (word_mem 4 (image_crc doc) @ rest)"
    using h5(3) by (rule component_part) simp
  obtain h7 off7 where h7: "docio_read_doc_component h6 off6 4 = Some (Inr (off7, word_mem 4 (image_crc doc)), h7)"
    "dh_file h7 = dh_file h6" "cursor h7 off7 rest"
    using h6(3) by (rule component_part) simp
  have "fm_crc_mode (dh_file h7) = CRC32" using h7(3) by (simp add: cursor_def buffer_ok_def growing_def)
  moreover have "read_length_then h off True z k = k h1 off1 ?E" for z :: "nat \<times> docio_object" and k
    using r1 h1 h2(2) h3(2) h4(2) h5(2) h6(2) h7(2) calculation stored_length_nonzero [OF ok] checksum_stored_length [of doc]
    by (simp add: read_length_then_def)
  ultimately have "docio_read_doc h off doc0 True = Some (Inr (off7, stored_doc doc), h7)"
    using fl len sm h1 h2 h3 h4 h5 h6 h7
    by (simp add: docio_read_doc_def read_doc_parts_def read_then_def stored_doc_def)
  then show ?thesis using h1 h2 h3 h4 h5 h6 h7 by simp
qed

end
