(* ===== verification/Docio_Write.thy ===== *)
theory Docio_Write
  imports Docio_Read
begin

text \<open>
  The writing side of document I/O: an append always succeeds while block numbers last, leaves the
  bytes it was given on a chain of document blocks, and keeps what was written before.
\<close>

section \<open>Bodies and tails of blocks\<close>

text \<open>A block is the space for documents and the metadata behind it.\<close>

definition body :: "filemgr \<Rightarrow> nat \<Rightarrow> buf" where "body f b = take (blk f) (block f b)"
definition tail :: "filemgr \<Rightarrow> nat \<Rightarrow> buf" where "tail f b = drop (blk f) (block f b)"

lemma block_body_tail: "block f b = body f b @ tail f b"
  by (simp add: body_def tail_def)

lemma next_of_tail: "next_of f b = unat (dec64 (next_bid (mem_meta (tail f b))))"
  by (simp add: next_of_def tail_def)

lemma contents_body: "contents f ids = concat (map (body f) ids)"
  by (simp add: contents_def body_def cong: map_cong)

lemma length_body: "growing f \<Longrightarrow> b * fm_blocksize f < fm_pos f \<Longrightarrow> length (body f b) = blk f"
  using length_block [of f b] growing_blk [of f] by (auto simp: growing_def body_def)

lemma doc_block_tail:
  assumes "growing f" "b * fm_blocksize f < fm_pos f"
  shows "doc_block f b \<longleftrightarrow> tail f b ! 15 = BLK_MARKER_DOC"
proof -
  have "fm_blocksize f - 1 = blk f + 15" using growing_blk [OF assms(1)] by linarith
  moreover have "length (block f b) = fm_blocksize f" using assms by (intro length_block) (simp_all add: growing_def)
  ultimately show ?thesis using growing_blk [OF assms(1)] assms(2) by (simp add: doc_block_def tail_def)
qed

lemma put_data:
  assumes "growing f" "fresh f b" "off + length src \<le> blk f"
  shows "body (put f b off src) b = mem_write (body f b) off src" "tail (put f b off src) b = tail f b"
proof -
  have s: "off + length src \<le> fm_blocksize f" using assms(3) growing_blk [OF assms(1)] by simp
  note p = put_spec [OF assms(1,2) s]
  have e: "blk (put f b off src) = blk f" using p(1) by (simp add: grows_def)
  have l: "length (block f b) = fm_blocksize f" using assms by (intro length_block) (auto simp: growing_def fresh_def)
  show "body (put f b off src) b = mem_write (body f b) off src" "tail (put f b off src) b = tail f b"
    using assms(3) l growing_blk [OF assms(1)] unfolding body_def tail_def e p(2)
    by (cases "off = blk f"; auto simp: mem_write_def min_def drop_take)+
qed

lemma put_meta:
  assumes "growing f" "fresh f b" "length m = 16"
  shows "body (put f b (blk f) m) b = body f b" "tail (put f b (blk f) m) b = m"
proof -
  have s: "blk f + length m \<le> fm_blocksize f" using assms(3) growing_blk [OF assms(1)] by simp
  note p = put_spec [OF assms(1,2) s]
  have e: "blk (put f b (blk f) m) = blk f" using p(1) by (simp add: grows_def)
  have l: "length (block f b) = fm_blocksize f" using assms by (intro length_block) (auto simp: growing_def fresh_def)
  show "body (put f b (blk f) m) b = body f b" "tail (put f b (blk f) m) b = m"
    using assms(3) l growing_blk [OF assms(1)] unfolding body_def tail_def e p(2)
    by (simp_all add: mem_write_def min_def)
qed

lemma length_meta_mem [simp]: "length (meta_mem m) = 16"
  by (simp add: meta_mem_def)

lemma mem_meta_meta_mem [simp]: "mem_meta (meta_mem m) = m"
  by (simp add: mem_meta_def meta_mem_def mem_read_def nth_append)

lemma marker_meta_mem: "meta_mem m ! 15 = marker m"
  by (simp add: meta_mem_def nth_append)

section \<open>Writing new blocks\<close>

text \<open>An update that touches only the given blocks.\<close>

definition touches :: "filemgr \<Rightarrow> nat set \<Rightarrow> filemgr \<Rightarrow> bool" where
  "touches f B f' \<longleftrightarrow> grows f f' \<and> fm_pos f' = fm_pos f \<and>
     (\<forall>b. b \<notin> B \<longrightarrow> b * fm_blocksize f < fm_pos f \<longrightarrow> block f' b = block f b)"

lemma touches_refl: "growing f \<Longrightarrow> touches f B f"
  by (simp add: touches_def grows_refl)

lemma touches_trans: "touches f A g \<Longrightarrow> touches g B h \<Longrightarrow> A \<subseteq> C \<Longrightarrow> B \<subseteq> C \<Longrightarrow> touches f C h"
  unfolding touches_def using grows_trans by (metis (full_types) grows_def subset_iff)

lemma touches_growing: "touches f B f' \<Longrightarrow> growing f'"
  by (simp add: touches_def grows_def)

lemma touches_same:
  assumes "touches f B f'"
  shows "blk f' = blk f" "fm_blocksize f' = fm_blocksize f" "fm_pos f' = fm_pos f" "fresh f' b = fresh f b"
  using assms by (auto simp: touches_def grows_def fresh_def)

lemma touches_body_tail:
  assumes "touches f B f'" "b \<notin> B" "b * fm_blocksize f < fm_pos f"
  shows "body f' b = body f b" "tail f' b = tail f b"
  using assms by (auto simp: touches_def grows_def body_def tail_def)

lemma put_touches:
  "growing f \<Longrightarrow> fresh f b \<Longrightarrow> off + length src \<le> fm_blocksize f \<Longrightarrow> touches f {b} (put f b off src)"
  using put_spec [of f b off src] by (simp add: touches_def)

definition doc_meta_of :: "docio_handle \<Rightarrow> u64 \<Rightarrow> docblk_meta" where
  "doc_meta_of h nxt = \<lparr>next_bid = nxt, sb_bmp_revnum_hash = enc16 (cur_bmp_revnum_hash h), marker = BLK_MARKER_DOC\<rparr>"

lemma write_meta_put:
  assumes "growing (dh_file h)" "fresh (dh_file h) b"
  shows "write_meta h b nxt k = k (h\<lparr>dh_file := put (dh_file h) b (blk (dh_file h)) (meta_mem (doc_meta_of h nxt))\<rparr>)"
  using growing_blk [OF assms(1)] assms
  by (auto simp: write_meta_def growing_def doc_meta_of_def intro!: write_then_put)

lemma write_data_put:
  assumes "growing (dh_file h)" "fresh (dh_file h) b" "off + length src \<le> blk (dh_file h)"
  shows "write_then h b off src k = k (h\<lparr>dh_file := put (dh_file h) b off src\<rparr>)"
  using growing_blk [OF assms(1)] assms by (intro write_then_put) auto

text \<open>Filling with zeros behind the document changes nothing before it.\<close>

lemma fill_zero_put:
  assumes "growing (dh_file h)" "fresh (dh_file h) b"
  shows "\<exists>f'. (\<forall>k. docio_fill_zero h b pos k = k (h\<lparr>dh_file := f'\<rparr>)) \<and> touches (dh_file h) {b} f' \<and>
    tail f' b = tail (dh_file h) b \<and> take pos (body f' b) = take pos (body (dh_file h) b)"
proof (cases "pos + 16 \<le> blk (dh_file h)")
  case True
  let ?f' = "put (dh_file h) b pos (replicate 16 0)"
  have l: "pos + length (replicate 16 (0 :: byte)) \<le> blk (dh_file h)" using True by simp
  note d = put_data [OF assms l]
  have bl: "length (body (dh_file h) b) = blk (dh_file h)" using assms by (auto simp: fresh_def intro: length_body)
  have "touches (dh_file h) {b} ?f'"
    using True growing_blk [OF assms(1)] by (intro put_touches assms) simp
  then show ?thesis using True d bl write_data_put [OF assms l]
    by (intro exI [of _ ?f']) (simp add: docio_fill_zero_def mem_write_def)
next
  case False
  then show ?thesis using assms by (intro exI [of _ "dh_file h"]) (simp add: docio_fill_zero_def touches_refl)
qed

lemma chain_Cons: "chain f (b # ids) \<longleftrightarrow> doc_block f b \<and> (ids \<noteq> [] \<longrightarrow> next_of f b = hd ids \<and> chain f ids)"
  by (cases ids) auto

text \<open>The part of a handle that reading uses besides the file.\<close>

definition read_state :: "docio_handle \<Rightarrow> nat \<times> nat \<times> buf" where
  "read_state h = (lastbid h, lastBmpRevnum h, readbuffer h)"

lemma fresh_number: "growing f \<Longrightarrow> fresh f b \<Longrightarrow> b < 2 ^ 64"
proof -
  assume "growing f" "fresh f b"
  then have "b * fm_blocksize f < 2 ^ 64" "1 \<le> fm_blocksize f" by (auto simp: growing_def fresh_def)
  then show "b < 2 ^ 64" by (metis le_less_trans mult.right_neutral mult_le_mono2)
qed

text \<open>The two writes to a block: its metadata, then a piece of the document.\<close>

lemma write_pair:
  assumes g: "growing (dh_file h)" and fr: "fresh (dh_file h) b" and len: "off + length d \<le> blk (dh_file h)"
  shows "\<exists>f1 f2. (\<forall>k. write_meta h b nxt k = k (h\<lparr>dh_file := f1\<rparr>)) \<and>
    (\<forall>k. write_then (h\<lparr>dh_file := f1\<rparr>) b off d k = k (h\<lparr>dh_file := f2\<rparr>)) \<and>
    touches (dh_file h) {b} f2 \<and> tail f2 b = meta_mem (doc_meta_of h nxt) \<and>
    take off (body f2 b) = take off (body (dh_file h) b) \<and> mem_read (body f2 b) off (length d) = d"
proof -
  let ?f = "dh_file h"
  define f1 where "f1 = put ?f b (blk ?f) (meta_mem (doc_meta_of h nxt))"
  define f2 where "f2 = put f1 b off d"
  have m: "length (meta_mem (doc_meta_of h nxt)) = 16" by simp
  have t1: "touches ?f {b} f1" unfolding f1_def using growing_blk [OF g] by (intro put_touches g fr) simp
  note g1 = touches_growing [OF t1] and s1 = touches_same [OF t1] and b1 = put_meta [OF g fr m, folded f1_def]
  have fr1: "fresh f1 b" and l1: "off + length d \<le> blk f1" using fr len s1 by auto
  have t2: "touches f1 {b} f2" unfolding f2_def using growing_blk [OF g1] l1 by (intro put_touches g1 fr1) simp
  note b2 = put_data [OF g1 fr1 l1, folded f2_def]
  have bl: "length (body ?f b) = blk ?f" using g fr by (auto simp: fresh_def intro: length_body)
  have "touches ?f {b} f2" using touches_trans [OF t1 t2] by simp
  moreover have "tail f2 b = meta_mem (doc_meta_of h nxt)" using b2 b1 by simp
  moreover have "take off (body f2 b) = take off (body ?f b)" "mem_read (body f2 b) off (length d) = d"
    using b2 b1 bl len by (simp_all add: mem_write_def mem_read_def)
  ultimately show ?thesis
    using write_meta_put [OF g fr] write_data_put [of "h\<lparr>dh_file := f1\<rparr>" b off d] g1 fr1 l1
    by (intro exI [of _ f1] exI [of _ f2]) (simp add: f1_def [symmetric] f2_def)
qed

lemma written_block:
  assumes "growing f" "fresh f b" "tail f b = meta_mem (doc_meta_of h nxt)"
  shows "doc_block f b" "next_of f b = unat (dec64 nxt)"
  using assms by (simp_all add: doc_block_tail fresh_def marker_meta_mem doc_meta_of_def next_of_tail)

lemma write_blocks_spec:
  assumes "growing (dh_file h)" "\<forall>b \<in> set (map fst bs). fresh (dh_file h) b" "distinct (map fst bs)"
    "(length bs - 1) * blk (dh_file h) \<le> length rest" "length rest \<le> length bs * blk (dh_file h)"
  shows "\<exists>h'. write_blocks h bs rest sp = Some (sp, h') \<and> touches (dh_file h) (set (map fst bs)) (dh_file h') \<and>
    chain (dh_file h') (map fst bs) \<and> take (length rest) (contents (dh_file h') (map fst bs)) = rest \<and>
    read_state h' = read_state h \<and>
    (if bs = [] then h' = h
     else curblock h' = fst (last bs) \<and> curpos h' \<le> blk (dh_file h) \<and>
       length rest = (length bs - 1) * blk (dh_file h) + curpos h')"
  using assms
proof (induction bs arbitrary: h rest)
  case Nil
  then show ?case by (simp add: touches_refl)
next
  case (Cons x bs)
  obtain bid hash where x: "x = (bid, hash)" by (cases x)
  let ?f = "dh_file h" and ?ids = "map fst bs"
  let ?n = "blk ?f"
  define h0 where "h0 = h\<lparr>curblock := bid, cur_bmp_revnum_hash := hash\<rparr>"
  define nxt :: u64 where "nxt = (case bs of [] \<Rightarrow> of_nat BLK_NOT_FOUND | (nb, _) # _ \<Rightarrow> enc64 (of_nat nb))"
  have g: "growing ?f" and fr: "fresh ?f bid" using Cons.prems(1,2) by (auto simp: x)
  have h0: "dh_file h0 = ?f" "read_state h0 = read_state h" by (simp_all add: h0_def read_state_def)
  have "0 + length (take ?n rest) \<le> blk (dh_file h0)" by (simp add: h0)
  from write_pair [OF _ _ this, of bid nxt] g fr h0 obtain f1 f2 where
    w1: "\<And>k. write_meta h0 bid nxt k = k (h0\<lparr>dh_file := f1\<rparr>)"
    and w2: "\<And>k. write_then (h0\<lparr>dh_file := f1\<rparr>) bid 0 (take ?n rest) k = k (h0\<lparr>dh_file := f2\<rparr>)"
    and t2: "touches ?f {bid} f2" and tl: "tail f2 bid = meta_mem (doc_meta_of h0 nxt)"
    and bd: "mem_read (body f2 bid) 0 (length (take ?n rest)) = take ?n rest" by auto
  note g2 = touches_growing [OF t2] and s2 = touches_same [OF t2]
  have fr2: "fresh f2 bid" using fr s2 by simp
  have nx: "unat (dec64 nxt) = hd ?ids" if "?ids \<noteq> []"
    using that fresh_number [OF g] Cons.prems(2) by (auto simp: nxt_def unat_of_nat split: list.splits)
  show ?case
  proof (cases "?n \<le> length rest")
    case True
    define h2 where "h2 = h0\<lparr>dh_file := f2, curpos := ?n\<rparr>"
    have h2: "dh_file h2 = f2" "read_state h2 = read_state h" "curblock h2 = bid" "curpos h2 = ?n"
      using h0(2) by (simp_all add: h2_def read_state_def h0_def)
    have "(length bs - 1) * ?n \<le> length (drop ?n rest)" "length (drop ?n rest) \<le> length bs * ?n"
      using Cons.prems(4,5) True by (cases bs; simp)+
    then obtain h' where r: "write_blocks h2 bs (drop ?n rest) sp = Some (sp, h')" "touches f2 (set ?ids) (dh_file h')"
      "chain (dh_file h') ?ids" "take (length (drop ?n rest)) (contents (dh_file h') ?ids) = drop ?n rest"
      "read_state h' = read_state h" and e: "if bs = [] then h' = h2
        else curblock h' = fst (last bs) \<and> curpos h' \<le> ?n \<and> length (drop ?n rest) = (length bs - 1) * ?n + curpos h'"
      using Cons.IH [of h2 "drop ?n rest", unfolded h2(1,2) s2(1)] Cons.prems(2,3) g2 s2(4) by auto
    have out: "bid \<notin> set ?ids" "bid * fm_blocksize f2 < fm_pos f2" using Cons.prems(3) fr2 by (auto simp: x fresh_def)
    note bt = touches_body_tail [OF r(2) out] and s' = touches_same [OF r(2)]
    have "fresh (dh_file h') bid" using fr2 s' by simp
    from written_block [OF touches_growing [OF r(2)] this] bt(2) tl r(3) nx
    have "chain (dh_file h') (bid # ?ids)" by (auto simp: chain_Cons)
    moreover have "body f2 bid = take ?n rest"
      using bd True length_body [OF g2 out(2)] s2 by (simp add: mem_read_def min_def)
    then have "take (length rest) (contents (dh_file h') (bid # ?ids)) = rest"
      using r(4) bt(1) True by (simp add: contents_body min_def)
    moreover have "touches ?f (set (map fst (x # bs))) (dh_file h')"
      using touches_trans [OF t2 r(2)] by (auto simp: x)
    moreover have "write_blocks h (x # bs) rest sp = Some (sp, h')"
      using r(1) True w1 w2 h0(1) by (simp add: x Let_def h0_def [symmetric] nxt_def [symmetric] h2_def)
    ultimately show ?thesis using e r(5) True h2 Cons.prems(5) by (cases bs) (auto simp: x)
  next
    case False
    then have bs: "bs = []" using Cons.prems(4) by (cases bs) auto
    then have nb: "nxt = of_nat BLK_NOT_FOUND" by (simp add: nxt_def)
    define h2 where "h2 = h0\<lparr>dh_file := f2, curpos := length rest\<rparr>"
    have "growing (dh_file h2)" "fresh (dh_file h2) bid" using g2 fr2 by (simp_all add: h2_def)
    then obtain f3 where f3: "\<And>k. docio_fill_zero h2 bid (length rest) k = k (h2\<lparr>dh_file := f3\<rparr>)" "touches f2 {bid} f3"
      "tail f3 bid = tail f2 bid" "take (length rest) (body f3 bid) = take (length rest) (body f2 bid)"
      using fill_zero_put [of h2 bid "length rest"] by (auto simp: h2_def)
    have "fresh f3 bid" using fr2 touches_same [OF f3(2)] by simp
    then have "chain f3 [bid]" using written_block(1) [OF touches_growing [OF f3(2)]] f3(3) tl by simp
    moreover have "touches ?f {bid} f3" using touches_trans [OF t2 f3(2)] by simp
    moreover have "take (length rest) (contents f3 [bid]) = rest" using f3(4) bd False by (simp add: contents_body mem_read_def)
    moreover have "write_blocks h (x # bs) rest sp = Some (sp, h2\<lparr>dh_file := f3\<rparr>)"
      using False w1 [unfolded nb] w2 h0(1) f3(1) by (simp add: bs x Let_def h0_def [symmetric] h2_def)
    ultimately show ?thesis using False h0 by (auto simp: x bs h2_def h0_def read_state_def)
  qed
qed

section \<open>Allocating and marking stale\<close>

text \<open>An update that keeps every block that exists and may add blocks.\<close>

definition keeps :: "filemgr \<Rightarrow> filemgr \<Rightarrow> bool" where
  "keeps f f' \<longleftrightarrow> grows f f' \<and> (\<forall>b. b * fm_blocksize f < fm_pos f \<longrightarrow> block f' b = block f b)"

lemma keeps_refl: "growing f \<Longrightarrow> keeps f f"
  by (simp add: keeps_def grows_refl)

lemma keeps_trans: "keeps f g \<Longrightarrow> keeps g h \<Longrightarrow> keeps f h"
  unfolding keeps_def using grows_trans by (auto simp: grows_def)

lemma keeps_same:
  assumes "keeps f f'"
  shows "growing f'" "blk f' = blk f" "fm_blocksize f' = fm_blocksize f" "fm_pos f \<le> fm_pos f'" "fresh f b \<Longrightarrow> fresh f' b"
  using assms by (auto simp: keeps_def grows_def fresh_def)

lemma alloc_blocks_growing:
  assumes "growing f" "fm_pos f + n * fm_blocksize f < 2 ^ 64"
  shows "\<exists>bs f'. alloc_blocks n f = Some (bs, f') \<and> keeps f f' \<and> fm_pos f' = fm_pos f + n * fm_blocksize f \<and>
    map fst bs = [fm_pos f div fm_blocksize f..<fm_pos f div fm_blocksize f + n]"
  using assms
proof (induction n arbitrary: f)
  case 0
  then show ?case by (simp add: keeps_refl)
next
  case (Suc n)
  then obtain f1 where f1: "filemgr_alloc f = Some (fm_pos f div fm_blocksize f, f1)" "keeps f f1"
    "fm_pos f1 = fm_pos f + fm_blocksize f" using alloc_growing [of f] by (auto simp: keeps_def)
  note s1 = keeps_same [OF f1(2)]
  obtain bs f' where f': "alloc_blocks n f1 = Some (bs, f')" "keeps f1 f'" "fm_pos f' = fm_pos f1 + n * fm_blocksize f1"
    "map fst bs = [fm_pos f1 div fm_blocksize f1..<fm_pos f1 div fm_blocksize f1 + n]"
    using Suc.IH [OF s1(1)] Suc.prems(2) f1(3) s1(3) by auto
  have "fm_pos f1 div fm_blocksize f1 = Suc (fm_pos f div fm_blocksize f)"
    using Suc.prems(1) by (auto simp: f1(3) s1(3) growing_def file_ok_def)
  moreover have "[p..<p + Suc n] = p # [Suc p..<Suc p + n]" for p by (simp add: upt_conv_Cons del: upt_Suc)
  ultimately show ?case using f1 f' s1(3) keeps_trans [OF f1(2) f'(2)] by (simp del: upt_Suc)
qed

lemma allocated_fresh:
  assumes "growing f" "grows f f'" "fm_pos f' = fm_pos f + n * fm_blocksize f"
    "b \<in> set [fm_pos f div fm_blocksize f..<fm_pos f div fm_blocksize f + n]"
  shows "fresh f' b" "fm_pos f \<le> b * fm_blocksize f"
proof -
  have d: "fm_pos f = fm_pos f div fm_blocksize f * fm_blocksize f" using assms(1) by (auto simp: growing_def file_ok_def)
  obtain i where i: "b = fm_pos f div fm_blocksize f + i" "i < n" using assms(4) by (auto simp: le_iff_add)
  then have b: "b * fm_blocksize f = fm_pos f + i * fm_blocksize f" using d by (simp add: distrib_right)
  have "fm_last_commit f \<le> fm_pos f" "0 < fm_blocksize f" using assms(1) by (auto simp: growing_def)
  then show "fresh f' b" "fm_pos f \<le> b * fm_blocksize f" using b i(2) assms(2,3) by (auto simp: fresh_def grows_def)
qed

lemma stale_rest_spec:
  assumes "growing (dh_file h)" "curpos h \<le> blk (dh_file h)"
  shows "\<exists>f'. stale_rest h = Some (h\<lparr>dh_file := f'\<rparr>) \<and> keeps (dh_file h) f' \<and> fm_pos f' = fm_pos (dh_file h)"
proof -
  let ?f = "dh_file h"
  have add: "keeps f (filemgr_add_stale_block f p l) \<and> fm_pos (filemgr_add_stale_block f p l) = fm_pos f" if "growing f" for f p l
    using that by (auto simp: filemgr_add_stale_block_def keeps_def grows_def growing_def file_ok_def docblk_size_def
      sb_get_bmp_revnum_def block_def split: option.splits)
  have b: "blk ?f = fm_blocksize ?f - DOCBLK_META_SIZE" "curpos h < fm_blocksize ?f" "ver_non_consecutive_doc (fm_version ?f)"
    using assms growing_blk [OF assms(1)] by (auto simp: docblk_size_def growing_def)
  have "filemgr_actual_stale_regions ?f (fm_blocksize ?f * curblock h + curpos h) (blk ?f - curpos h) =
      Some [(curblock h * fm_blocksize ?f + curpos h, fm_blocksize ?f - curpos h)]" if "curpos h < blk ?f"
    using that b assms(2) by (auto simp: filemgr_actual_stale_regions_def numeral_2_eq_2 Let_def)
  note regions = this
  show ?thesis
  proof (cases "fm_stale_list ?f \<noteq> None \<and> curpos h < blk ?f")
    case True
    then show ?thesis using add [OF assms(1)] b(2) regions by (auto simp: stale_rest_def filemgr_mark_stale_def)
  next
    case False
    then show ?thesis using assms(2) keeps_refl [OF assms(1)]
      by (intro exI [of _ ?f]) (auto simp: stale_rest_def filemgr_mark_stale_def)
  qed
qed

section \<open>What an append leaves in place\<close>

definition handle_ok :: "docio_handle \<Rightarrow> bool" where
  "handle_ok h \<longleftrightarrow> buffer_ok h \<and> curpos h \<le> blk (dh_file h) \<and>
     (curblock h \<noteq> BLK_NOT_FOUND \<longrightarrow> curblock h * fm_blocksize (dh_file h) < fm_pos (dh_file h))"

text \<open>
  Later states keep every block but the current one, and of the current one what was written; the
  current block stays or is a new one.
\<close>

definition extends :: "docio_handle \<Rightarrow> docio_handle \<Rightarrow> bool" where
  "extends h h' \<longleftrightarrow> (let f = dh_file h; f' = dh_file h'; cb = curblock h in
     grows f f' \<and> (\<forall>b. b \<noteq> cb \<longrightarrow> b * fm_blocksize f < fm_pos f \<longrightarrow> block f' b = block f b) \<and>
     (cb * fm_blocksize f < fm_pos f \<longrightarrow>
        take (curpos h) (body f' cb) = take (curpos h) (body f cb) \<and> (doc_block f cb \<longrightarrow> doc_block f' cb)) \<and>
     (curblock h' = cb \<and> curpos h \<le> curpos h' \<or> fm_pos f \<le> curblock h' * fm_blocksize f))"

lemma doc_block_same: "grows f f' \<Longrightarrow> block f' b = block f b \<Longrightarrow> doc_block f b \<Longrightarrow> doc_block f' b"
  by (auto simp: doc_block_def grows_def)

lemma extendsI:
  assumes "keeps (dh_file h) f2" "touches f2 B (dh_file h')" "\<forall>b \<in> B. b = curblock h \<or> fm_pos (dh_file h) \<le> b * fm_blocksize (dh_file h)"
    "curblock h \<in> B \<longrightarrow> take (curpos h) (body (dh_file h') (curblock h)) = take (curpos h) (body f2 (curblock h)) \<and>
       doc_block (dh_file h') (curblock h)"
    "curblock h' = curblock h \<and> curpos h \<le> curpos h' \<or> fm_pos (dh_file h) \<le> curblock h' * fm_blocksize (dh_file h)"
  shows "extends h h'"
proof -
  let ?f = "dh_file h" and ?f' = "dh_file h'"
  have g: "grows ?f ?f'" using assms(1,2) grows_trans by (auto simp: keeps_def touches_def)
  have k: "block f2 b = block ?f b" "b \<notin> B \<Longrightarrow> block ?f' b = block f2 b" if "b * fm_blocksize ?f < fm_pos ?f" for b
    using that assms(1,2) keeps_same [OF assms(1)] by (auto simp: keeps_def touches_def)
  have bd: "body f2 b = body ?f b" if "b * fm_blocksize ?f < fm_pos ?f" for b
    using k(1) [OF that] keeps_same(2) [OF assms(1)] by (simp add: body_def)
  have "take (curpos h) (body ?f' (curblock h)) = take (curpos h) (body ?f (curblock h)) \<and>
      (doc_block ?f (curblock h) \<longrightarrow> doc_block ?f' (curblock h))" if "curblock h * fm_blocksize ?f < fm_pos ?f"
  proof (cases "curblock h \<in> B")
    case True
    then show ?thesis using assms(4) bd [OF that] by simp
  next
    case False
    then have "block ?f' (curblock h) = block ?f (curblock h)" using k [OF that] by simp
    then show ?thesis using doc_block_same [OF g] g by (auto simp: body_def grows_def)
  qed
  moreover have "block ?f' b = block ?f b" if "b \<noteq> curblock h" "b * fm_blocksize ?f < fm_pos ?f" for b
  proof -
    have "b \<notin> B" using assms(3) that by auto
    with k [OF that(2)] show ?thesis by simp
  qed
  ultimately show ?thesis using g assms(5) by (auto simp: extends_def Let_def)
qed

lemma take_eq_mono: "take n xs = take n ys \<Longrightarrow> m \<le> n \<Longrightarrow> take m xs = take m ys"
  by (metis min.absorb1 take_take)

lemma extends_trans:
  assumes "extends h h1" "extends h1 h2"
  shows "extends h h2"
proof -
  let ?f = "dh_file h" and ?f1 = "dh_file h1" and ?f2 = "dh_file h2" and ?cb = "curblock h"
  have g: "grows ?f ?f1" "grows ?f1 ?f2" using assms by (auto simp: extends_def Let_def)
  then have s: "fm_blocksize ?f1 = fm_blocksize ?f" "fm_pos ?f \<le> fm_pos ?f1" "blk ?f1 = blk ?f" "blk ?f2 = blk ?f"
    by (auto simp: grows_def)
  have c1: "curblock h1 = ?cb \<and> curpos h \<le> curpos h1 \<or> fm_pos ?f \<le> curblock h1 * fm_blocksize ?f"
    and c2: "curblock h2 = curblock h1 \<and> curpos h1 \<le> curpos h2 \<or> fm_pos ?f1 \<le> curblock h2 * fm_blocksize ?f"
    using assms s by (auto simp: extends_def Let_def)
  have b1: "block ?f1 b = block ?f b" if "b \<noteq> ?cb" "b * fm_blocksize ?f < fm_pos ?f" for b
    using assms(1) that by (auto simp: extends_def Let_def)
  have b2: "block ?f2 b = block ?f1 b" if "b \<noteq> curblock h1" "b * fm_blocksize ?f < fm_pos ?f" for b
    using assms(2) that s by (auto simp: extends_def Let_def)
  have "take (curpos h) (body ?f2 ?cb) = take (curpos h) (body ?f ?cb) \<and> (doc_block ?f ?cb \<longrightarrow> doc_block ?f2 ?cb)"
    if i: "?cb * fm_blocksize ?f < fm_pos ?f"
  proof -
    have e1: "take (curpos h) (body ?f1 ?cb) = take (curpos h) (body ?f ?cb)" "doc_block ?f ?cb \<Longrightarrow> doc_block ?f1 ?cb"
      using assms(1) i by (auto simp: extends_def Let_def)
    have e2: "take (curpos h) (body ?f2 ?cb) = take (curpos h) (body ?f1 ?cb) \<and> (doc_block ?f1 ?cb \<longrightarrow> doc_block ?f2 ?cb)"
    proof (cases "curblock h1 = ?cb")
      case True
      then have "curpos h \<le> curpos h1" using c1 i by simp
      moreover have "take (curpos h1) (body ?f2 ?cb) = take (curpos h1) (body ?f1 ?cb)" "doc_block ?f1 ?cb \<longrightarrow> doc_block ?f2 ?cb"
        using assms(2) True i s by (auto simp: extends_def Let_def)
      ultimately show ?thesis using take_eq_mono by blast
    next
      case False
      then show ?thesis using b2 [OF _ i] doc_block_same [OF g(2)] s by (auto simp: body_def)
    qed
    show ?thesis using e1 e2 by auto
  qed
  moreover have "block ?f2 b = block ?f b" if "b \<noteq> ?cb" "b * fm_blocksize ?f < fm_pos ?f" for b
  proof -
    have "b \<noteq> curblock h1" using c1 that by auto
    with b1 [OF that] b2 [OF _ that(2)] show ?thesis by simp
  qed
  moreover have "curblock h2 = ?cb \<and> curpos h \<le> curpos h2 \<or> fm_pos ?f \<le> curblock h2 * fm_blocksize ?f"
    using c1 c2 s(2) by auto
  ultimately show ?thesis using grows_trans [OF g] by (auto simp: extends_def Let_def)
qed

text \<open>The bytes of a document lie on a chain, before the write position.\<close>

definition doc_on :: "docio_handle \<Rightarrow> nat list \<Rightarrow> nat \<Rightarrow> buf \<Rightarrow> bool" where
  "doc_on h ids pos src \<longleftrightarrow> ids \<noteq> [] \<and> chain (dh_file h) ids \<and> pos \<le> blk (dh_file h) \<and>
     mem_read (contents (dh_file h) ids) pos (length src) = src \<and> curblock h \<notin> set (butlast ids) \<and>
     (curblock h = last ids \<longrightarrow> pos + length src \<le> (length ids - 1) * blk (dh_file h) + curpos h)"

definition doc_at :: "docio_handle \<Rightarrow> nat \<Rightarrow> buf \<Rightarrow> bool" where
  "doc_at h off src \<longleftrightarrow> (\<exists>ids pos. off = hd ids * fm_blocksize (dh_file h) + pos \<and> doc_on h ids pos src)"

lemma chain_transfer:
  assumes "grows f f'" "\<forall>b \<in> set (butlast ids). block f' b = block f b" "ids \<noteq> [] \<longrightarrow> doc_block f' (last ids)" "chain f ids"
  shows "chain f' ids"
  using assms(2-4)
proof (induction ids)
  case (Cons b ids)
  have "next_of f' b = next_of f b" if "block f' b = block f b" for b
    using that assms(1) by (simp add: next_of_def grows_def)
  with Cons show ?case using doc_block_same [OF assms(1), of b] by (cases ids) (auto simp: chain_Cons)
qed simp

lemma length_contents:
  assumes "growing f" "\<forall>b \<in> set ids. doc_block f b"
  shows "length (contents f ids) = length ids * blk f"
  using assms(2) by (induction ids) (auto simp: contents_body doc_block_def length_body [OF assms(1)])

lemma doc_on_extends:
  assumes d: "doc_on h ids pos src" and e: "extends h h'" and g: "growing (dh_file h)"
  shows "doc_on h' ids pos src"
proof -
  let ?f = "dh_file h" and ?f' = "dh_file h'" and ?L = "butlast ids" and ?c = "last ids" and ?cb = "curblock h"
  have ch: "chain ?f ids" and ne: "ids \<noteq> []" and cb: "?cb \<notin> set ?L" using d by (auto simp: doc_on_def)
  have in_f: "b * fm_blocksize ?f < fm_pos ?f" if "b \<in> set ids" for b
    using chain_doc_block [OF ch that] by (simp add: doc_block_def)
  have gr: "grows ?f ?f'" and same: "\<And>b. b \<in> set ids \<Longrightarrow> b \<noteq> ?cb \<Longrightarrow> block ?f' b = block ?f b"
    and cbk: "?cb \<in> set ids \<Longrightarrow> take (curpos h) (body ?f' ?cb) = take (curpos h) (body ?f ?cb) \<and> doc_block ?f' ?cb"
    and nw: "curblock h' = ?cb \<and> curpos h \<le> curpos h' \<or> fm_pos ?f \<le> curblock h' * fm_blocksize ?f"
    using e in_f chain_doc_block [OF ch] by (auto simp: extends_def Let_def)
  have bl: "blk ?f' = blk ?f" using gr by (simp add: grows_def)
  have L: "\<forall>b \<in> set ?L. block ?f' b = block ?f b" using same cb by (metis in_set_butlastD)
  have lc: "?c \<in> set ids" using ne by simp
  have "doc_block ?f' ?c" using cbk same [OF lc] doc_block_same [OF gr, of ?c] chain_doc_block [OF ch lc] lc by (cases "?c = ?cb") auto
  then have ch': "chain ?f' ids" using chain_transfer [OF gr L] ch by simp
  have ids: "ids = ?L @ [?c]" using ne by simp
  have cL: "contents ?f' ?L = contents ?f ?L" using L bl by (simp add: contents_def cong: map_cong)
  have lL: "length (contents ?f ?L) = (length ids - 1) * blk ?f"
    using length_contents [OF g, of ?L] chain_doc_block [OF ch] by (auto dest: in_set_butlastD)
  have r: "mem_read (contents ?f' ids) pos (length src) = mem_read (contents ?f ids) pos (length src)"
  proof (cases "?c = ?cb")
    case False
    then have "block ?f' b = block ?f b" if "b \<in> set ids" for b
      using same [OF that] cb L that ids by (metis UnE empty_iff empty_set insert_iff list.simps(15) set_append)
    then have "contents ?f' ids = contents ?f ids" using bl by (simp add: contents_def cong: map_cong)
    then show ?thesis by simp
  next
    case True
    then have n: "pos + length src \<le> length (contents ?f ?L) + curpos h" using d lL by (simp add: doc_on_def)
    have "take (length (contents ?f ?L) + curpos h) (contents ?f' ids) = take (length (contents ?f ?L) + curpos h) (contents ?f ids)"
      using cbk lc cL True by (subst (1 2) ids) (simp add: contents_body)
    from take_eq_mono [OF this n] show ?thesis by (simp add: mem_read_def take_drop add.commute)
  qed
  have "curblock h' \<notin> set ?L" "curblock h' = ?c \<longrightarrow> curblock h' = ?cb \<and> curpos h \<le> curpos h'"
    using nw cb in_f [of "curblock h'"] lc by (auto simp: not_less dest: in_set_butlastD)
  then show ?thesis using d ch' r bl by (auto simp: doc_on_def)
qed

lemma doc_at_extends:
  assumes "doc_at h off src" "extends h h'" "growing (dh_file h)"
  shows "doc_at h' off src"
proof -
  have "fm_blocksize (dh_file h') = fm_blocksize (dh_file h)" using assms(2) by (simp add: extends_def grows_def Let_def)
  then show ?thesis using assms(1) doc_on_extends [OF _ assms(2,3)] unfolding doc_at_def by metis
qed

section \<open>Appending\<close>

text \<open>The outcome of an append that uses at most \<open>n\<close> new blocks.\<close>

definition appended :: "docio_handle \<Rightarrow> buf \<Rightarrow> nat \<Rightarrow> nat \<Rightarrow> docio_handle \<Rightarrow> bool" where
  "appended h src n off h' \<longleftrightarrow> extends h h' \<and> doc_at h' off src \<and> read_state h' = read_state h \<and>
     curpos h' \<le> blk (dh_file h') \<and> curblock h' * fm_blocksize (dh_file h') < fm_pos (dh_file h') \<and>
     fm_pos (dh_file h') \<le> fm_pos (dh_file h) + n * fm_blocksize (dh_file h)"

lemma append_within_spec:
  assumes g: "growing (dh_file h)" and fr: "fresh (dh_file h) (curblock h)" and len: "curpos h + length src \<le> blk (dh_file h)"
  shows "\<exists>off h'. append_within h src = Some (off, h') \<and> appended h src 0 off h'"
proof -
  let ?f = "dh_file h" and ?cb = "curblock h" and ?e = "curpos h + length src"
  from write_pair [OF assms, of "of_nat BLK_NOT_FOUND"] obtain f1 f2 where
    w1: "\<And>k. write_meta h ?cb (of_nat BLK_NOT_FOUND) k = k (h\<lparr>dh_file := f1\<rparr>)"
    and w2: "\<And>k. write_then (h\<lparr>dh_file := f1\<rparr>) ?cb (curpos h) src k = k (h\<lparr>dh_file := f2\<rparr>)"
    and t2: "touches ?f {?cb} f2" and tl: "tail f2 ?cb = meta_mem (doc_meta_of h (of_nat BLK_NOT_FOUND))"
    and fr2: "take (curpos h) (body f2 ?cb) = take (curpos h) (body ?f ?cb)"
    and bd: "mem_read (body f2 ?cb) (curpos h) (length src) = src" by auto
  define h2 where "h2 = h\<lparr>dh_file := f2, curpos := ?e\<rparr>"
  have "growing (dh_file h2)" "fresh (dh_file h2) ?cb" using touches_growing [OF t2] touches_same [OF t2] fr by (simp_all add: h2_def)
  then obtain f3 where f3: "\<And>k. docio_fill_zero h2 ?cb ?e k = k (h2\<lparr>dh_file := f3\<rparr>)" "touches f2 {?cb} f3"
    "tail f3 ?cb = tail f2 ?cb" "take ?e (body f3 ?cb) = take ?e (body f2 ?cb)"
    using fill_zero_put [of h2 ?cb ?e] by (auto simp: h2_def)
  define h' where "h' = h\<lparr>dh_file := f3, curpos := ?e\<rparr>"
  have t: "touches ?f {?cb} f3" using touches_trans [OF t2 f3(2)] by simp
  note s = touches_same [OF t]
  have fr3: "fresh f3 ?cb" using fr s by simp
  have db: "doc_block f3 ?cb" using written_block(1) [OF touches_growing [OF t] fr3] f3(3) tl by simp
  have "take (curpos h) (body f3 ?cb) = take (curpos h) (body ?f ?cb)" using take_eq_mono [OF f3(4), of "curpos h"] fr2 by simp
  then have "extends h h'" using keeps_refl [OF g] t db by (intro extendsI [of h ?f "{?cb}"]) (auto simp: h'_def)
  moreover have "mem_read (body f3 ?cb) (curpos h) (length src) = src"
    using f3(4) bd by (simp add: mem_read_def take_drop add.commute)
  then have "doc_at h' (?cb * fm_blocksize f3 + curpos h) src"
    using db len s by (auto simp: doc_at_def doc_on_def h'_def contents_body intro!: exI [of _ "[?cb]"])
  moreover have "append_within h src = Some (?cb * fm_blocksize f3 + curpos h, h')"
    using w1 w2 f3(1) by (simp add: append_within_def Let_def h2_def h'_def)
  ultimately show ?thesis using len s fr by (auto simp: appended_def read_state_def h'_def fresh_def)
qed

lemma last_not_butlast: "distinct xs \<Longrightarrow> xs \<noteq> [] \<Longrightarrow> last xs \<notin> set (butlast xs)"
  by (induction xs) auto

text \<open>The new blocks of a document hold it, from the start of the first block.\<close>

lemma append_in_new:
  assumes "keeps (dh_file h) f2" "bs \<noteq> []" "distinct (map fst bs)"
    "\<forall>b \<in> set (map fst bs). fresh f2 b \<and> fm_pos (dh_file h) \<le> b * fm_blocksize (dh_file h)"
    "curblock h * fm_blocksize (dh_file h) < fm_pos (dh_file h)"
    "(length bs - 1) * blk f2 \<le> length src" "length src \<le> length bs * blk f2"
    "fm_pos f2 \<le> fm_pos (dh_file h) + k * fm_blocksize (dh_file h)"
  shows "\<exists>h'. write_blocks (h\<lparr>dh_file := f2\<rparr>) bs src (fst (hd bs) * fm_blocksize f2) = Some (fst (hd bs) * fm_blocksize f2, h') \<and>
    appended h src k (fst (hd bs) * fm_blocksize f2) h'"
proof -
  let ?ids = "map fst bs"
  note k = keeps_same [OF assms(1)]
  from write_blocks_spec [of "h\<lparr>dh_file := f2\<rparr>" bs src "fst (hd bs) * fm_blocksize f2"] assms k(1) obtain h' where
    w: "write_blocks (h\<lparr>dh_file := f2\<rparr>) bs src (fst (hd bs) * fm_blocksize f2) = Some (fst (hd bs) * fm_blocksize f2, h')" "touches f2 (set ?ids) (dh_file h')"
      "chain (dh_file h') ?ids" "take (length src) (contents (dh_file h') ?ids) = src"
      "read_state h' = read_state h" "curblock h' = fst (last bs)" "curpos h' \<le> blk f2"
      "length src = (length bs - 1) * blk f2 + curpos h'" by (auto simp: read_state_def)
  note s = touches_same [OF w(2)]
  have l: "fst (last bs) \<in> set ?ids" using assms(2) by auto
  have "curblock h \<notin> set ?ids" using assms(4,5) by auto
  then have "extends h h'" using w(2,6) assms(1,4) l by (intro extendsI [of h f2 "set ?ids"]) auto
  moreover have "last ?ids \<notin> set (butlast ?ids)" using assms(2,3) last_not_butlast [of ?ids] by simp
  then have "doc_on h' ?ids 0 src"
    using w(3,4,6,8) assms(2) s by (simp add: doc_on_def mem_read_def last_map)
  then have "doc_at h' (fst (hd bs) * fm_blocksize f2) src"
    unfolding doc_at_def using s assms(2) by (intro exI [of _ ?ids] exI [of _ 0]) (simp add: hd_map)
  moreover have "fst (last bs) * fm_blocksize f2 < fm_pos f2" using assms(4) l by (auto simp: fresh_def)
  ultimately show ?thesis using w s assms(8) by (simp add: appended_def)
qed

text \<open>A document that begins in the current block and goes on in new ones.\<close>

lemma append_across:
  assumes "keeps (dh_file h) f2" "bs \<noteq> []" "distinct (map fst bs)"
    "\<forall>b \<in> set (map fst bs). fresh f2 b \<and> fm_pos (dh_file h) \<le> b * fm_blocksize (dh_file h)"
    "fresh (dh_file h) (curblock h)" "curpos h \<le> blk f2" "r = blk f2 - curpos h" "r < length src"
    "(length bs - 1) * blk f2 \<le> length src - r" "length src - r \<le> length bs * blk f2"
    "fm_pos f2 \<le> fm_pos (dh_file h) + k * fm_blocksize (dh_file h)"
  shows "\<exists>h'. write_meta (h\<lparr>dh_file := f2\<rparr>) (curblock h) (enc64 (of_nat (fst (hd bs)))) (\<lambda>h2.
      write_then h2 (curblock h2) (curpos h2) (take r src) (\<lambda>h3.
      write_blocks h3 bs (drop r src) (curblock h3 * fm_blocksize (dh_file h3) + curpos h3))) =
        Some (curblock h * fm_blocksize f2 + curpos h, h') \<and> appended h src k (curblock h * fm_blocksize f2 + curpos h) h'"
proof -
  let ?ids = "map fst bs" and ?cb = "curblock h" and ?cp = "curpos h" and ?nx = "enc64 (of_nat (fst (hd bs))) :: u64"
  note k = keeps_same [OF assms(1)]
  have fr: "fresh f2 ?cb" using k(5) assms(5) by simp
  have "?cp + length (take r src) \<le> blk (dh_file (h\<lparr>dh_file := f2\<rparr>))" using assms(6-8) by simp
  from write_pair [OF _ _ this, of ?cb ?nx] k(1) fr obtain f3 f4 where
    w1: "\<And>k. write_meta (h\<lparr>dh_file := f2\<rparr>) ?cb ?nx k = k (h\<lparr>dh_file := f3\<rparr>)"
    and w2: "\<And>k. write_then (h\<lparr>dh_file := f3\<rparr>) ?cb ?cp (take r src) k = k (h\<lparr>dh_file := f4\<rparr>)"
    and t4: "touches f2 {?cb} f4" and tl: "tail f4 ?cb = meta_mem (doc_meta_of (h\<lparr>dh_file := f2\<rparr>) ?nx)"
    and front: "take ?cp (body f4 ?cb) = take ?cp (body f2 ?cb)" and bd: "mem_read (body f4 ?cb) ?cp (length (take r src)) = take r src"
    by auto
  note s4 = touches_same [OF t4]
  from write_blocks_spec [of "h\<lparr>dh_file := f4\<rparr>" bs "drop r src" "?cb * fm_blocksize f4 + ?cp"] assms s4 touches_growing [OF t4]
  obtain h' where w: "write_blocks (h\<lparr>dh_file := f4\<rparr>) bs (drop r src) (?cb * fm_blocksize f2 + ?cp) = Some (?cb * fm_blocksize f2 + ?cp, h')"
      "touches f4 (set ?ids) (dh_file h')" "chain (dh_file h') ?ids" "take (length src - r) (contents (dh_file h') ?ids) = drop r src"
      "read_state h' = read_state h" "curblock h' = fst (last bs)" "curpos h' \<le> blk f2"
      "length src - r = (length bs - 1) * blk f2 + curpos h'" by (auto simp: read_state_def)
  note s = touches_same [OF w(2)] and g' = touches_growing [OF w(2)]
  have l: "fst (last bs) \<in> set ?ids" using assms(2) by auto
  have cb: "?cb \<notin> set ?ids" "?cb * fm_blocksize f4 < fm_pos f4" using assms(4,5) fr s4 by (auto simp: fresh_def)
  note bt = touches_body_tail [OF w(2) cb]
  have fr': "fresh (dh_file h') ?cb" using fr s s4 by simp
  have "fst (hd bs) < 2 ^ 64" using fresh_number [OF k(1)] assms(2,4) by simp
  then have nx: "doc_block (dh_file h') ?cb" "next_of (dh_file h') ?cb = hd ?ids"
    using written_block [OF g' fr'] bt(2) tl assms(2) by (auto simp: unat_of_nat hd_map)
  have "extends h h'"
    using touches_trans [OF t4 w(2), of "insert ?cb (set ?ids)"] assms(1,4) front bt(1) nx(1) w(6) l
    by (intro extendsI [of h f2 "insert ?cb (set ?ids)"]) auto
  moreover have "doc_on h' (?cb # ?ids) ?cp src"
  proof -
    have "drop ?cp (body (dh_file h') ?cb) = take r src"
      using bd bt(1) length_body [OF g', of ?cb] fr' assms(6-8) s s4 by (simp add: mem_read_def fresh_def)
    then have "drop ?cp (contents (dh_file h') (?cb # ?ids)) = take r src @ contents (dh_file h') ?ids"
      using length_body [OF g', of ?cb] fr' assms(6) s s4 by (simp add: contents_body fresh_def)
    then have "mem_read (contents (dh_file h') (?cb # ?ids)) ?cp (length src) = take r src @ drop r src"
      using w(4) assms(8) unfolding mem_read_def by simp
    moreover have "last ?ids \<notin> set (butlast ?ids)" using assms(2,3) last_not_butlast [of ?ids] by simp
    moreover have "?cp + length src = length bs * blk f2 + curpos h'"
      using w(8) assms(2,6-8) by (cases bs) auto
    moreover have "fst (last bs) \<noteq> ?cb" using cb(1) l by metis
    moreover have "chain (dh_file h') (?cb # ?ids)" using w(3) nx by (simp add: chain_Cons)
    ultimately show ?thesis using w(6) assms(2,6) s(1) s4(1) by (simp add: doc_on_def last_map)
  qed
  then have "doc_at h' (?cb * fm_blocksize f2 + ?cp) src" unfolding doc_at_def using s s4 by (intro exI [of _ "?cb # ?ids"] exI [of _ ?cp]) simp
  moreover have "fst (last bs) * fm_blocksize f2 < fm_pos f2" using assms(4) l by (auto simp: fresh_def)
  ultimately show ?thesis using w w1 w2 s s4 assms(11) by (simp add: appended_def)
qed

lemma allocated_blocks:
  assumes "growing f" "keeps f f'" "fm_pos f' = fm_pos f + n * fm_blocksize f"
    "map fst bs = [fm_pos f div fm_blocksize f..<fm_pos f div fm_blocksize f + n]"
  shows "distinct (map fst bs)" "\<forall>b \<in> set (map fst bs). fresh f' b \<and> fm_pos f \<le> b * fm_blocksize f" "length bs = n"
proof -
  have "grows f f'" using assms(2) by (simp add: keeps_def)
  from allocated_fresh [OF assms(1) this assms(3)]
  show "\<forall>b \<in> set (map fst bs). fresh f' b \<and> fm_pos f \<le> b * fm_blocksize f" unfolding assms(4) by blast
  show "length bs = n" using arg_cong [OF assms(4), of length] by simp
qed (simp add: assms(4))

lemma alloc_one_more:
  assumes "growing f" "fm_pos f + Suc m * fm_blocksize f < 2 ^ 64"
  obtains b x f1 others f2 where "alloc_blocks 1 f = Some ([(b, x)], f1)" "alloc_blocks m f1 = Some (others, f2)" "keeps f f2"
    "fm_pos f2 = fm_pos f + Suc m * fm_blocksize f" "b = fm_pos f div fm_blocksize f"
    "map fst ((b, x) # others) = [fm_pos f div fm_blocksize f..<fm_pos f div fm_blocksize f + Suc m]"
proof -
  obtain b f1 where a: "filemgr_alloc f = Some (b, f1)" "b = fm_pos f div fm_blocksize f" using alloc_growing [of f] assms by auto
  from alloc_blocks_growing [OF assms] obtain bs f2 where all: "alloc_blocks (Suc m) f = Some (bs, f2)" "keeps f f2"
    "fm_pos f2 = fm_pos f + Suc m * fm_blocksize f" "map fst bs = [fm_pos f div fm_blocksize f..<fm_pos f div fm_blocksize f + Suc m]"
    by blast
  from all(1) a(1) obtain others where m: "alloc_blocks m f1 = Some (others, f2)" "bs = (b, bmp_revnum_hash f) # others"
    by (auto split: option.splits)
  show ?thesis using a m all by (intro that [of b "bmp_revnum_hash f" f1 others f2]) simp_all
qed

lemma split_blocks:
  fixes len :: nat
  assumes "len = q * n + m" "m < n" "r \<le> n" "r < len"
  shows "r < m \<Longrightarrow> q * n \<le> len - r \<and> len - r \<le> Suc q * n" "m \<le> r \<Longrightarrow> 0 < q \<and> (q - 1) * n \<le> len - r \<and> len - r \<le> q * n"
proof -
  show "r < m \<Longrightarrow> q * n \<le> len - r \<and> len - r \<le> Suc q * n" using assms by auto
  show "m \<le> r \<Longrightarrow> 0 < q \<and> (q - 1) * n \<le> len - r \<and> len - r \<le> q * n" using assms by (cases q) auto
qed

declare write_blocks.simps [simp del] alloc_blocks.simps [simp del]

lemma append_chained_eq:
  assumes "n = docblk_size (dh_file h)" "q = length src div n" "m = length src mod n" "r = n - curpos h"
    "c = q + (if m > r then 1 else 0)" "alloc_blocks (min c 1) (dh_file h) = Some ([(b, x)], f1)"
    "from_new \<longleftrightarrow> b > curblock h + 1" "N = (if from_new \<and> m \<noteq> 0 \<and> \<not> m > r then c + 1 else c)"
    "alloc_blocks (N - min c 1) f1 = Some (others, f2)"
  shows "append_chained h src =
    (if r > 0 \<and> \<not> from_new then
       write_meta (h\<lparr>dh_file := f2\<rparr>) (curblock h) (enc64 (of_nat b)) (\<lambda>h2.
       write_then h2 (curblock h2) (curpos h2) (take r src) (\<lambda>h3.
       write_blocks h3 ((b, x) # others) (drop r src) (curblock h3 * fm_blocksize (dh_file h3) + curpos h3)))
     else case stale_rest (h\<lparr>dh_file := f2\<rparr>) of
            None \<Rightarrow> None
          | Some h2 \<Rightarrow> write_blocks h2 ((b, x) # others) src (b * fm_blocksize (dh_file h2)))"
  using assms(6,7,9) unfolding append_chained_def Let_def assms(1-5) [symmetric] assms(8) by (simp split: option.split)

lemma append_chained_spec:
  assumes g: "growing (dh_file h)" and fr: "fresh (dh_file h) (curblock h)" and cp: "curpos h \<le> blk (dh_file h)"
    and len: "blk (dh_file h) - curpos h < length src"
    and room: "fm_pos (dh_file h) + (length src div blk (dh_file h) + 1) * fm_blocksize (dh_file h) < 2 ^ 64"
  shows "\<exists>off h'. append_chained h src = Some (off, h') \<and> appended h src (length src div blk (dh_file h) + 1) off h'"
proof -
  let ?f = "dh_file h" and ?p = "fm_pos (dh_file h) div fm_blocksize (dh_file h)"
  define n where "n = blk ?f"
  define r m q where "r = n - curpos h" and "m = length src mod n" and "q = length src div n"
  define from_new where "from_new \<longleftrightarrow> ?p > curblock h + 1"
  define c where "c = q + (if m > r then 1 else 0)"
  define N where "N = (if from_new \<and> m \<noteq> 0 \<and> \<not> m > r then c + 1 else c)"
  have src: "length src = q * n + m" "m < n" using growing_blk [OF g] by (simp_all add: m_def n_def q_def)
  have r: "r \<le> n" "r < length src" using len by (simp_all add: r_def n_def)
  note sp = split_blocks [OF src r]
  have N: "0 < c" "c \<le> N" "N \<le> q + 1" using sp by (auto simp: N_def c_def)
  then have "N * fm_blocksize ?f \<le> (q + 1) * fm_blocksize ?f" by (intro mult_le_mono1)
  then have room': "fm_pos ?f + N * fm_blocksize ?f < 2 ^ 64" "fm_pos ?f + N * fm_blocksize ?f \<le> fm_pos ?f + (q + 1) * fm_blocksize ?f"
    using room by (simp_all add: q_def n_def)
  have c1: "min c 1 = 1" "Suc (N - 1) = N" using N by simp_all
  obtain b x f1 others f2 where al: "alloc_blocks 1 ?f = Some ([(b, x)], f1)" "alloc_blocks (N - 1) f1 = Some (others, f2)"
    "keeps ?f f2" "fm_pos f2 = fm_pos ?f + N * fm_blocksize ?f" "b = ?p" "map fst ((b, x) # others) = [?p..<?p + N]"
    using alloc_one_more [OF g, of "N - 1", unfolded c1(2), OF room'(1)] by metis
  have al': "alloc_blocks (min c 1) ?f = Some ([(b, x)], f1)" "alloc_blocks (N - min c 1) f1 = Some (others, f2)" "from_new \<longleftrightarrow> b > curblock h + 1"
    unfolding c1(1) from_new_def al(5) [symmetric] by (rule al(1,2) refl)+
  note eq = append_chained_eq [OF n_def q_def m_def r_def c_def al'(1,3) N_def al'(2)]
  note ab = allocated_blocks [OF g al(3,4,6)] and kf = keeps_same [OF al(3)]
  show ?thesis
  proof (cases "r > 0 \<and> \<not> from_new")
    case True
    then have "N = c" by (simp add: N_def)
    then have "(N - 1) * blk f2 \<le> length src - r" "length src - r \<le> N * blk f2"
      using sp kf(2) by (auto simp: c_def n_def split: if_splits)
    moreover have "curpos h \<le> blk f2" "r = blk f2 - curpos h" using cp kf(2) by (simp_all add: r_def n_def)
    ultimately have "\<exists>off h'. append_chained h src = Some (off, h') \<and> appended h src (q + 1) off h'"
      using append_across [OF al(3) _ ab(1,2) fr _ _ r(2), of "q + 1"] ab(3) room'(2) True unfolding eq al(4) by auto
    then show ?thesis by (simp add: q_def n_def)
  next
    case False
    have "growing (dh_file (h\<lparr>dh_file := f2\<rparr>))" "curpos (h\<lparr>dh_file := f2\<rparr>) \<le> blk (dh_file (h\<lparr>dh_file := f2\<rparr>))"
      using kf cp by simp_all
    from stale_rest_spec [OF this] obtain f3 where f3: "stale_rest (h\<lparr>dh_file := f2\<rparr>) = Some (h\<lparr>dh_file := f3\<rparr>)" "keeps f2 f3"
      "fm_pos f3 = fm_pos f2" by auto
    note k3 = keeps_same [OF f3(2)]
    have "(N - 1) * blk f3 \<le> length src" "length src \<le> N * blk f3"
      using False src k3(2) kf(2) by (auto simp: N_def c_def n_def)
    moreover have "\<forall>b \<in> set (map fst ((b, x) # others)). fresh f3 b \<and> fm_pos ?f \<le> b * fm_blocksize ?f" using ab(2) k3(5) by blast
    moreover have "curblock h * fm_blocksize ?f < fm_pos ?f" using fr by (simp add: fresh_def)
    ultimately have "\<exists>off h'. append_chained h src = Some (off, h') \<and> appended h src (q + 1) off h'"
      using append_in_new [OF keeps_trans [OF al(3) f3(2)] _ ab(1), of src "q + 1"] ab(3) room'(2) False
      unfolding eq f3(3) al(4) using f3(1) by auto
    then show ?thesis by (simp add: q_def n_def)
  qed
qed

lemma buffer_ok_step:
  assumes "buffer_ok h" "grows (dh_file h) (dh_file h')" "read_state h' = read_state h"
    "\<And>b. b * fm_blocksize (dh_file h) < fm_last_commit (dh_file h) \<Longrightarrow> block (dh_file h') b = block (dh_file h) b"
  shows "buffer_ok h'"
  using assms by (auto simp: buffer_ok_def grows_def read_state_def)

text \<open>After the first step the current block is one that can be written.\<close>

lemma alloc_curblock_spec:
  assumes "keeps (dh_file h) f" "fm_pos f = fm_pos (dh_file h)" "fm_pos f + fm_blocksize f < 2 ^ 64" "buffer_ok h"
  shows "\<exists>h'. alloc_curblock (h\<lparr>dh_file := f\<rparr>) = Some h' \<and> extends h h' \<and> buffer_ok h' \<and> fresh (dh_file h') (curblock h') \<and>
    curpos h' = 0 \<and> fm_pos (dh_file h') = fm_pos (dh_file h) + fm_blocksize (dh_file h)"
proof -
  note k = keeps_same [OF assms(1)]
  from alloc_growing [OF k(1) assms(3)] obtain f' where f': "filemgr_alloc f = Some (fm_pos f div fm_blocksize f, f')" "keeps f f'"
    "fm_pos f' = fm_pos f + fm_blocksize f" "fresh f' (fm_pos f div fm_blocksize f)" by (auto simp: keeps_def)
  note kk = keeps_trans [OF assms(1) f'(2)]
  define h' where "h' = h\<lparr>dh_file := f', curblock := fm_pos f div fm_blocksize f, curpos := 0, cur_bmp_revnum_hash := bmp_revnum_hash f\<rparr>"
  have "fm_pos f div fm_blocksize f * fm_blocksize f = fm_pos f" using k(1) by (auto simp: growing_def file_ok_def)
  then have "extends h h'" using kk touches_refl [OF keeps_same(1) [OF kk]] assms(2) k(3)
    by (intro extendsI [of h f' "{}"]) (simp_all add: h'_def)
  moreover have "buffer_ok h'"
  proof (rule buffer_ok_step [OF assms(4)])
    have "fm_last_commit (dh_file h) \<le> fm_pos (dh_file h)" using assms(4) by (simp add: buffer_ok_def growing_def)
    then show "b * fm_blocksize (dh_file h) < fm_last_commit (dh_file h) \<Longrightarrow> block (dh_file h') b = block (dh_file h) b" for b
      using kk by (simp add: h'_def keeps_def)
  qed (use kk in \<open>simp_all add: h'_def read_state_def keeps_def\<close>)
  ultimately show ?thesis using f' assms(2) k(3) by (intro exI [of _ h']) (simp add: alloc_curblock_def h'_def)
qed

lemma extends_refl: "growing (dh_file h) \<Longrightarrow> extends h h"
  by (simp add: extends_def grows_refl Let_def)

lemma writable_curblock_spec:
  assumes ok: "handle_ok h" and room: "fm_pos (dh_file h) + fm_blocksize (dh_file h) < 2 ^ 64"
  shows "\<exists>h'. writable_curblock h = Some h' \<and> extends h h' \<and> buffer_ok h' \<and> fresh (dh_file h') (curblock h') \<and>
    curpos h' \<le> blk (dh_file h') \<and> fm_pos (dh_file h') \<le> fm_pos (dh_file h) + fm_blocksize (dh_file h)"
proof -
  let ?f = "dh_file h"
  have b: "buffer_ok h" and g: "growing ?f" and cp: "curpos h \<le> blk ?f" using ok by (auto simp: handle_ok_def buffer_ok_def)
  have self: "h\<lparr>dh_file := ?f\<rparr> = h" by simp
  show ?thesis
  proof (cases "curblock h = BLK_NOT_FOUND")
    case True
    from alloc_curblock_spec [OF keeps_refl [OF g] refl room b] obtain h' where
      h': "alloc_curblock h = Some h'" "extends h h'" "buffer_ok h'" "fresh (dh_file h') (curblock h')" "curpos h' = 0"
        "fm_pos (dh_file h') = fm_pos ?f + fm_blocksize ?f" unfolding self by blast
    then have "filemgr_is_writable (dh_file h') (curblock h')" by (simp add: fresh_writable buffer_ok_def)
    with h' True show ?thesis by (simp add: writable_curblock_def)
  next
    case cb: False
    show ?thesis
    proof (cases "fresh ?f (curblock h)")
      case True
      then show ?thesis using cb b cp extends_refl [OF g] fresh_writable [OF g] by (simp add: writable_curblock_def)
    next
      case False
      from stale_rest_spec [OF g cp] obtain f1 where f1: "stale_rest h = Some (h\<lparr>dh_file := f1\<rparr>)" "keeps ?f f1" "fm_pos f1 = fm_pos ?f"
        by blast
      from alloc_curblock_spec [OF f1(2,3) _ b] room f1(3) keeps_same(3) [OF f1(2)] show ?thesis
        using cb False f1(1) by (auto simp: writable_curblock_def fresh_writable [OF g])
    qed
  qed
qed

definition space :: "filemgr \<Rightarrow> nat \<Rightarrow> nat" where
  "space f n = (n div blk f + 2) * fm_blocksize f"

lemma append_raw_spec:
  assumes ok: "handle_ok h" and small: "length src < 2 ^ 32"
    and room: "fm_pos (dh_file h) + space (dh_file h) (length src) < 2 ^ 64"
  shows "\<exists>off h'. docio_append_doc_raw h src = Some (off, h') \<and> extends h h' \<and> doc_at h' off src \<and> handle_ok h' \<and>
    fm_pos (dh_file h') \<le> fm_pos (dh_file h) + space (dh_file h) (length src)"
proof -
  let ?f = "dh_file h"
  from writable_curblock_spec [OF ok] room obtain h1 where h1: "writable_curblock h = Some h1" "extends h h1" "buffer_ok h1"
    "fresh (dh_file h1) (curblock h1)" "curpos h1 \<le> blk (dh_file h1)" "fm_pos (dh_file h1) \<le> fm_pos ?f + fm_blocksize ?f"
    by (auto simp: space_def)
  let ?k = "length src div blk (dh_file h1) + 1"
  have g1: "growing (dh_file h1)" using h1(3) by (simp add: buffer_ok_def)
  have s1: "fm_blocksize (dh_file h1) = fm_blocksize ?f" "blk (dh_file h1) = blk ?f"
    using h1(2) by (auto simp: extends_def grows_def Let_def)
  have sp: "fm_pos (dh_file h1) + ?k * fm_blocksize (dh_file h1) \<le> fm_pos ?f + space ?f (length src)"
    using h1(6) by (simp add: space_def s1)
  have "\<exists>off h'. docio_append_doc_raw h src = Some (off, h') \<and> appended h1 src ?k off h'"
  proof (cases "length src \<le> blk (dh_file h1) - curpos h1")
    case True
    then have "curpos h1 + length src \<le> blk (dh_file h1)" using h1(5) by simp
    from append_within_spec [OF g1 h1(4) this] True h1(1) small show ?thesis
      by (auto simp: docio_append_doc_raw_def appended_def)
  next
    case False
    moreover have "ver_non_consecutive_doc (fm_version (dh_file h1))" using g1 by (simp add: growing_def)
    ultimately show ?thesis using append_chained_spec [OF g1 h1(4,5)] sp room h1(1) small by (simp add: docio_append_doc_raw_def)
  qed
  then obtain off h' where r: "docio_append_doc_raw h src = Some (off, h')" and a: "appended h1 src ?k off h'" by blast
  have e: "extends h1 h'" using a by (simp add: appended_def)
  have "buffer_ok h'"
  proof (rule buffer_ok_step [OF h1(3)])
    fix b assume b: "b * fm_blocksize (dh_file h1) < fm_last_commit (dh_file h1)"
    then have "b \<noteq> curblock h1" "b * fm_blocksize (dh_file h1) < fm_pos (dh_file h1)"
      using h1(4) g1 by (auto simp: fresh_def growing_def)
    then show "block (dh_file h') b = block (dh_file h1) b" using e by (simp add: extends_def Let_def)
  qed (use a e in \<open>simp_all add: appended_def extends_def Let_def\<close>)
  then have "handle_ok h'" using a by (simp add: handle_ok_def appended_def)
  then show ?thesis using r a extends_trans [OF h1(2) e] sp by (auto simp: appended_def)
qed

end
