(* ===== verification/Docio_Roundtrip.thy ===== *)
theory Docio_Roundtrip
  imports Docio_Write
begin

text \<open>
  Documents survive: a document that was appended is read back as it was given, whatever is appended
  after it; and reading ends on every file.
\<close>

section \<open>Appending documents\<close>

definition image :: "docio_object \<Rightarrow> buf" where
  "image doc = concat (image_parts doc) @ word_mem 4 (image_crc doc)"

lemma length_image: "doc_ok doc \<Longrightarrow> length (image doc) = fdb_get_docsize ((doc_len doc)\<lparr>bodylen_ondisk := bodylen (doc_len doc)\<rparr>)"
  by (simp add: image_def image_parts_def fdb_get_docsize_def doc_ok_def)

lemma append_spec:
  assumes "handle_ok h" "doc_ok doc" "length (image doc) < 2 ^ 32" "fm_pos (dh_file h) + space (dh_file h) (length (image doc)) < 2 ^ 64"
  shows "\<exists>off h'. docio_append h doc = Some (off, doc\<lparr>doc_len := (doc_len doc)\<lparr>bodylen_ondisk := bodylen (doc_len doc)\<rparr>\<rparr>, h') \<and>
    extends h h' \<and> doc_at h' off (image doc) \<and> handle_ok h' \<and>
    fm_pos (dh_file h') \<le> fm_pos (dh_file h) + space (dh_file h) (length (image doc))"
proof -
  have "fm_crc_mode (dh_file h) = CRC32" using assms(1) by (simp add: handle_ok_def buffer_ok_def growing_def)
  then have "doc_image doc (fm_crc_mode (dh_file h)) = Some ((doc_len doc)\<lparr>bodylen_ondisk := bodylen (doc_len doc)\<rparr>, image doc)"
    using doc_image_parts [OF assms(2)] by (simp add: image_def)
  with append_raw_spec [OF assms(1,3,4)] show ?thesis by (auto simp: docio_append_def)
qed

text \<open>A document at an offset can be read there.\<close>

lemma doc_at_cursor:
  assumes "doc_at h off src" "handle_ok h"
  shows "\<exists>rest. cursor h off (src @ rest)"
proof -
  let ?f = "dh_file h"
  obtain ids pos where d: "off = hd ids * fm_blocksize ?f + pos" "doc_on h ids pos src" using assms(1) by (auto simp: doc_at_def)
  then obtain b ids' where ids: "ids = b # ids'" by (cases ids) (auto simp: doc_on_def)
  have "take (length src) (from_pos ?f ids pos) = src" using d(2) by (simp add: doc_on_def mem_read_def from_pos_def)
  then have "from_pos ?f ids pos = src @ drop (length src) (from_pos ?f ids pos)" by (metis append_take_drop_id)
  moreover have "cursor h off (from_pos ?f ids pos)"
    unfolding d(1) ids list.sel using d(2) assms(2) by (intro cursorI) (auto simp: doc_on_def handle_ok_def ids)
  ultimately show ?thesis by metis
qed

lemma read_doc_at:
  assumes "doc_at h off (image doc)" "handle_ok h" "doc_ok doc"
  shows "\<exists>h' e. docio_read_doc h off doc0 True = Some (Inr (e, stored_doc doc), h') \<and> dh_file h' = dh_file h"
proof -
  obtain rest where "cursor h off (image doc @ rest)" using doc_at_cursor [OF assms(1,2)] by blast
  then show ?thesis using read_doc_image [OF assms(3)] by (simp add: image_def)
qed

section \<open>Sequences of appends\<close>

text \<open>A request: a document, whether it is a deletion, whether a transaction is open.\<close>

type_synonym request = "docio_object \<times> bool \<times> bool"

definition flagged :: "request \<Rightarrow> docio_object" where
  "flagged r = (case r of (doc, deleted, txn_enabled) \<Rightarrow>
     doc\<lparr>doc_len := (doc_len doc)\<lparr>flag := DOCIO_NORMAL OR (if deleted then DOCIO_DELETED else 0)
       OR (if txn_enabled then DOCIO_TXN_DIRTY else 0)\<rparr>\<rparr>)"

definition request_ok :: "request \<Rightarrow> bool" where
  "request_ok r = (case r of (doc, _, _) \<Rightarrow>
     length (doc_key doc) = unat (keylen (doc_len doc)) \<and> length (doc_meta doc) = unat (metalen (doc_len doc)) \<and>
     length (doc_body doc) = unat (bodylen (doc_len doc)) \<and> \<not> bad_keylen (doc_len doc) \<and>
     fdb_get_docsize ((doc_len doc)\<lparr>bodylen_ondisk := bodylen (doc_len doc)\<rparr>) < 2 ^ 32)"

fun append_docs :: "docio_handle \<Rightarrow> request list \<Rightarrow> (nat list \<times> docio_handle) option" where
  "append_docs h [] = Some ([], h)"
| "append_docs h ((doc, deleted, txn_enabled) # rs) =
     (case docio_append_doc h doc deleted txn_enabled of
        None \<Rightarrow> None
      | Some (off, _, h1) \<Rightarrow> map_option (\<lambda>(offs, h2). (off # offs, h2)) (append_docs h1 rs))"

lemma flagged_ok: "request_ok r \<Longrightarrow> doc_ok (flagged r)"
  by (cases r) (simp add: request_ok_def flagged_def doc_ok_def bad_keylen_def DOCIO_NORMAL_def DOCIO_DELETED_def
    DOCIO_TXN_DIRTY_def DOCIO_TXN_COMMITTED_def DOCIO_COMPRESSED_def)

lemma flagged_small: "request_ok r \<Longrightarrow> length (image (flagged r)) < 2 ^ 32"
  using length_image [OF flagged_ok [of r]] by (cases r) (simp add: request_ok_def flagged_def fdb_get_docsize_def)

definition need :: "filemgr \<Rightarrow> request list \<Rightarrow> nat" where
  "need f rs = sum_list (map (\<lambda>r. space f (length (image (flagged r)))) rs)"

lemma need_same: "blk f' = blk f \<Longrightarrow> fm_blocksize f' = fm_blocksize f \<Longrightarrow> need f' rs = need f rs"
  by (simp add: need_def space_def)

lemma append_docs_spec:
  assumes "handle_ok h" "\<forall>r \<in> set rs. request_ok r" "fm_pos (dh_file h) + need (dh_file h) rs < 2 ^ 64"
  shows "\<exists>offs h'. append_docs h rs = Some (offs, h') \<and> length offs = length rs \<and> extends h h' \<and> handle_ok h' \<and>
    (\<forall>i < length rs. doc_at h' (offs ! i) (image (flagged (rs ! i))))"
  using assms
proof (induction rs arbitrary: h)
  case Nil
  then show ?case by (simp add: extends_refl handle_ok_def buffer_ok_def)
next
  case (Cons r rs)
  obtain doc del txn where r: "r = (doc, del, txn)" by (cases r)
  have app: "docio_append_doc h doc del txn = docio_append h (flagged r)" by (simp add: docio_append_doc_def flagged_def r)
  have ok: "doc_ok (flagged r)" using Cons.prems(2) by (intro flagged_ok) simp
  have "fm_pos (dh_file h) + space (dh_file h) (length (image (flagged r))) < 2 ^ 64" using Cons.prems(3) by (simp add: need_def)
  from append_spec [OF Cons.prems(1) ok flagged_small this] Cons.prems(2) obtain off d h1 where h1: "docio_append h (flagged r) = Some (off, d, h1)"
    "extends h h1" "doc_at h1 off (image (flagged r))" "handle_ok h1"
    "fm_pos (dh_file h1) \<le> fm_pos (dh_file h) + space (dh_file h) (length (image (flagged r)))" by auto
  have s: "blk (dh_file h1) = blk (dh_file h)" "fm_blocksize (dh_file h1) = fm_blocksize (dh_file h)"
    using h1(2) by (auto simp: extends_def grows_def Let_def)
  have "fm_pos (dh_file h1) + need (dh_file h1) rs < 2 ^ 64"
    using Cons.prems(3) h1(5) need_same [OF s] by (simp add: need_def)
  from Cons.IH [OF h1(4) _ this] Cons.prems(2) obtain offs h' where h': "append_docs h1 rs = Some (offs, h')" "length offs = length rs"
    "extends h1 h'" "handle_ok h'" "\<forall>i < length rs. doc_at h' (offs ! i) (image (flagged (rs ! i)))" by auto
  have "growing (dh_file h1)" using h1(4) by (simp add: handle_ok_def buffer_ok_def)
  then have "doc_at h' off (image (flagged r))" using doc_at_extends [OF h1(3) h'(3)] by simp
  then have "\<forall>i < length (r # rs). doc_at h' ((off # offs) ! i) (image (flagged ((r # rs) ! i)))"
    using h'(5) by (auto simp: nth_Cons split: nat.split)
  then show ?case using h1(1) h' extends_trans [OF h1(2) h'(3)] app by (simp add: r)
qed

section \<open>Properties\<close>

text \<open>Everything a caller gave but the fields that the append computes (checksum, length on disk).\<close>

definition same_doc :: "docio_object \<Rightarrow> docio_object \<Rightarrow> bool" where
  "same_doc d doc \<longleftrightarrow> doc_key d = doc_key doc \<and> doc_meta d = doc_meta doc \<and> doc_body d = doc_body doc \<and>
     seqnum d = seqnum doc \<and> timestamp d = timestamp doc \<and>
     (doc_len d)\<lparr>bodylen_ondisk := bodylen_ondisk (doc_len doc), checksum := checksum (doc_len doc)\<rparr> = doc_len doc"

lemma same_stored: "same_doc (stored_doc doc) doc"
  by (simp add: same_doc_def stored_doc_def stored_length_def Let_def)

text \<open>
  C6. Documents survive. In a file of the new format without a bitmap, as long as a document takes less
  than 4 GiB and the file offsets stay below 64 bits, a sequence of documents is appended without an error, and afterwards every one of
  them - the first as well as the last, whether it fits into a block or spreads over several - is read
  back from the offset its append returned, with its key, metadata, body, sequence number, timestamp,
  lengths and flags.
\<close>
theorem docio_roundtrip:
  assumes "handle_ok h" "\<forall>r \<in> set rs. request_ok r" "fm_pos (dh_file h) + need (dh_file h) rs < 2 ^ 64"
  shows "\<exists>offs h'. append_docs h rs = Some (offs, h') \<and> length offs = length rs \<and>
    (\<forall>i < length rs. \<exists>e d h''. docio_read_doc h' (offs ! i) doc0 True = Some (Inr (e, d), h'') \<and> same_doc d (flagged (rs ! i)))"
proof -
  from append_docs_spec [OF assms] obtain offs h' where h': "append_docs h rs = Some (offs, h')" "length offs = length rs"
    "handle_ok h'" "\<forall>i < length rs. doc_at h' (offs ! i) (image (flagged (rs ! i)))" by blast
  have "\<exists>e d h''. docio_read_doc h' (offs ! i) doc0 True = Some (Inr (e, d), h'') \<and> same_doc d (flagged (rs ! i))"
    if "i < length rs" for i
  proof -
    have "doc_ok (flagged (rs ! i))" using that assms(2) by (intro flagged_ok) simp
    with read_doc_at [OF _ h'(3), of "offs ! i" "flagged (rs ! i)" doc0] h'(4) that show ?thesis using same_stored by blast
  qed
  with h' show ?thesis by blast
qed

text \<open>Two documents in blocks with sixteen bytes for documents; the second is a deletion in a transaction.\<close>

definition example_doc :: "byte list \<Rightarrow> docio_object" where
  "example_doc k = \<lparr>doc_len = zero_length\<lparr>keylen := of_nat (length k), bodylen := 3\<rparr>, timestamp = 7,
     doc_key = k, seqnum = 9, doc_meta = [], doc_body = [1, 2, 3]\<rparr>"

definition example_requests :: "request list" where
  "example_requests = [(example_doc [65, 66], False, False), (example_doc (replicate 20 67), True, True)]"

lemma example_handle: "handle_ok (docio_init tiny_file)"
  using tiny_file_ok
  by (simp add: handle_ok_def buffer_ok_def docio_init_def growing_def tiny_file_def small_file_def ver_non_consecutive_doc_def
    ver_get_latest_magic_def FILEMGR_LATEST_MAGIC_def FILEMGR_MAGIC_002_def)

lemma example_requests_ok: "\<forall>r \<in> set example_requests. request_ok r"
  by (simp add: example_requests_def request_ok_def example_doc_def zero_length_def bad_keylen_def FDB_MAX_KEYLEN_INTERNAL_def
    fdb_get_docsize_def)

theorem docio_roundtrip_witness:
  "\<exists>offs h'. append_docs (docio_init tiny_file) example_requests = Some (offs, h') \<and> length offs = 2 \<and>
     (\<exists>e d h''. docio_read_doc h' (offs ! 0) (example_doc []) True = Some (Inr (e, d), h'') \<and> doc_key d = [65, 66] \<and> doc_body d = [1, 2, 3])"
proof -
  have "length (image (flagged r)) = fdb_get_docsize ((doc_len (flagged r))\<lparr>bodylen_ondisk := bodylen (doc_len (flagged r))\<rparr>)"
    if "r \<in> set example_requests" for r using that flagged_ok example_requests_ok by (intro length_image) blast
  then have l: "map (\<lambda>r. length (image (flagged r))) example_requests = [37, 55]"
    by (simp add: example_requests_def) (simp add: flagged_def example_doc_def zero_length_def fdb_get_docsize_def)
  have "blk tiny_file = 16" using example_handle growing_blk [of tiny_file]
    by (simp add: handle_ok_def buffer_ok_def docio_init_def tiny_file_def)
  then have "fm_pos (dh_file (docio_init tiny_file)) + need (dh_file (docio_init tiny_file)) example_requests < 2 ^ 64"
    using l by (simp add: need_def space_def docio_init_def example_requests_def) (simp add: tiny_file_def)
  from docio_roundtrip [OF example_handle example_requests_ok this, of "example_doc []"] obtain offs h' where
    r: "append_docs (docio_init tiny_file) example_requests = Some (offs, h')" "length offs = length example_requests"
    "\<forall>i < length example_requests. \<exists>e d h''. docio_read_doc h' (offs ! i) (example_doc []) True = Some (Inr (e, d), h'') \<and>
       same_doc d (flagged (example_requests ! i))" by blast
  from r(3) [rule_format, of 0] show ?thesis using r(1,2)
    by (auto simp: example_requests_def same_doc_def flagged_def example_doc_def)
qed

lemma read_through_file: "docio_read_through_buffer h bid miss = (st, h') \<Longrightarrow> dh_file h' = dh_file h"
  by (auto simp: docio_read_through_buffer_def Let_def split: if_splits sum.splits)

lemma read_parts_returns:
  assumes "0 < blk (dh_file h)" "pos \<le> blk (dh_file h)" "left + (if pos = blk (dh_file h) then 1 else 0) < fuel"
  shows "\<exists>y. read_parts fuel h bid pos left = Some y"
  using assms
proof (induction fuel arbitrary: h bid pos left)
  case (Suc fuel)
  obtain st h1 where h1: "docio_read_through_buffer h bid True = (st, h1)" by (cases "docio_read_through_buffer h bid True")
  have f: "dh_file h1 = dh_file h" by (rule read_through_file [OF h1])
  have "\<exists>y. read_parts fuel h1 nxt 0 (left - (blk (dh_file h) - pos)) = Some y"
    if "blk (dh_file h) - pos < left" for nxt
    using Suc.prems that by (intro Suc.IH) (auto simp: f split: if_splits)
  note rec = this [of "next_block h1 bid"]
  show ?case using rec Suc.prems(2) h1 f
    by (auto simp: read_parts.simps Let_def split: option.splits prod.splits sum.splits)
qed simp

text \<open>
  C40. Reading a part of a document ends on every file, whatever its blocks hold - also when the block
  numbers in the metadata form a cycle: from a position inside the document space the loop returns
  data or an error.
\<close>
theorem docio_read_component_returns:
  assumes "0 < docblk_size (dh_file h)" "offset mod fm_blocksize (dh_file h) \<le> docblk_size (dh_file h)"
  shows "\<exists>y. docio_read_doc_component h offset len = Some y"
  unfolding docio_read_doc_component_def by (rule read_parts_returns) (use assms in simp_all)

theorem docio_read_component_returns_witness: "\<exists>y. docio_read_doc_component (docio_init tiny_file) 10 40 = Some y"
proof -
  have "docblk_size (dh_file (docio_init tiny_file)) = 16" "fm_blocksize (dh_file (docio_init tiny_file)) = 32"
    using example_handle growing_blk [of tiny_file] by (simp_all add: handle_ok_def buffer_ok_def docio_init_def tiny_file_def)
  then show ?thesis by (intro docio_read_component_returns) simp_all
qed

end
