(* ===== verification/Btree_KV.thy ===== *)
theory Btree_KV
  imports AVL_Order Bitwise
begin

text \<open>
  Nodes of the B+-tree and the operations on their entries for keys and values of fixed size
  (\<^verbatim>\<open>src/btree_kv.cc\<close>, the node structures of \<^verbatim>\<open>src/btree.h\<close>). The tree calls these operations
  through a table; the locale \<open>kv_layer\<close> states what it relies on, and the fixed-size tables
  interpret it.
\<close>

unbundle bit_operations_syntax

section \<open>Nodes\<close>

text \<open>
  A node is a header, the metadata section that the root may have (the bytes between the header and
  the entries; empty when the metadata flag is not set) and the space for the entries up to the end
  of the block. The pointer field of the header, which is recomputed whenever a block is fetched, is
  the split between the two byte sections.
\<close>

record bnode =
  bn_kvsize :: u16
  bn_flag :: u16
  bn_level :: nat
  bn_nentry :: nat
  bn_meta :: buf
  bn_data :: buf

definition BNODE_MASK_ROOT :: u16 where "BNODE_MASK_ROOT = 0x1"
definition BNODE_MASK_METADATA :: u16 where "BNODE_MASK_METADATA = 0x2"
definition BNODE_MASK_SEQTREE :: u16 where "BNODE_MASK_SEQTREE = 0x4"

definition ksize_of :: "u16 \<Rightarrow> nat" where "ksize_of kvsz = unat (drop_bit 8 (kvsz AND 0xff00))"
definition vsize_of :: "u16 \<Rightarrow> nat" where "vsize_of kvsz = unat (kvsz AND 0x00ff)"

abbreviation ksz :: "bnode \<Rightarrow> nat" where "ksz n \<equiv> ksize_of (bn_kvsize n)"
abbreviation vsz :: "bnode \<Rightarrow> nat" where "vsz n \<equiv> vsize_of (bn_kvsize n)"

section \<open>Operations on entries\<close>

definition get_kv :: "bnode \<Rightarrow> nat \<Rightarrow> buf \<times> buf" where
  "get_kv node idx =
     (let ptr = idx * (ksz node + vsz node)
      in (mem_read (bn_data node) ptr (ksz node), mem_read (bn_data node) (ptr + ksz node) (vsz node)))"

definition set_kv :: "bnode \<Rightarrow> nat \<Rightarrow> buf \<Rightarrow> buf \<Rightarrow> bnode" where
  "set_kv node idx key val =
     (let ptr = idx * (ksz node + vsz node);
          d1 = mem_write (bn_data node) ptr (take (ksz node) key)
      in node\<lparr>bn_data := mem_write d1 (ptr + ksz node) (take (vsz node) val)\<rparr>)"

text \<open>With a key and a value the entries from the index on make room; without, they close the gap.\<close>

definition ins_kv :: "bnode \<Rightarrow> nat \<Rightarrow> (buf \<times> buf) option \<Rightarrow> bnode" where
  "ins_kv node idx kv =
     (let kvsz = ksz node + vsz node; d = bn_data node in
      case kv of
        Some (key, val) \<Rightarrow>
          (let d1 = mem_write d ((idx + 1) * kvsz) (mem_read d (idx * kvsz) ((bn_nentry node - idx) * kvsz));
               d2 = mem_write d1 (idx * kvsz) (take (ksz node) key)
           in node\<lparr>bn_data := mem_write d2 (idx * kvsz + ksz node) (take (vsz node) val)\<rparr>)
      | None \<Rightarrow>
          node\<lparr>bn_data := mem_write d (idx * kvsz)
            (mem_read d ((idx + 1) * kvsz) ((bn_nentry node - (idx + 1)) * kvsz))\<rparr>)"

text \<open>The flag tells whether the two pointers are equal, in which case nothing is copied.\<close>

definition copy_kv :: "bool \<Rightarrow> bnode \<Rightarrow> bnode \<Rightarrow> nat \<Rightarrow> nat \<Rightarrow> nat \<Rightarrow> bnode" where
  "copy_kv same node_dst node_src dst_idx src_idx len =
     (if same then node_dst
      else
        (let kvsz = ksz node_src + vsz node_src in
         node_dst\<lparr>bn_data := mem_write (bn_data node_dst) (kvsz * dst_idx)
           (mem_read (bn_data node_src) (kvsz * src_idx) (kvsz * len))\<rparr>))"

text \<open>The size of the entries after adding a list of pairs; a new smallest key does not change it.\<close>

definition get_data_size :: "bnode \<Rightarrow> buf option \<Rightarrow> (buf \<times> buf) list \<Rightarrow> nat" where
  "get_data_size node new_minkey kvs = bn_nentry node * (ksz node + vsz node) + (ksz node + vsz node) * length kvs"

definition get_nth_idx :: "bnode \<Rightarrow> nat \<Rightarrow> nat \<Rightarrow> nat" where
  "get_nth_idx node num den =
     (let r = bn_nentry node - bn_nentry node div den * den
      in bn_nentry node div den * num + (if num < r then num else r))"

definition get_nth_splitter :: "bnode \<Rightarrow> bnode \<Rightarrow> buf" where
  "get_nth_splitter prev_node node = take (ksz node) (bn_data node)"

definition value_to_bid_64 :: "buf \<Rightarrow> u64" where "value_to_bid_64 val = mem_word (take 8 val)"
definition bid_to_value_64 :: "u64 \<Rightarrow> buf" where "bid_to_value_64 bid = word_mem 8 bid"

definition cmp_uint32_t :: "buf \<Rightarrow> buf \<Rightarrow> int" where
  "cmp_uint32_t key1 key2 = CMP_U32 (mem_word (take 4 key1)) (mem_word (take 4 key2))"

definition cmp_uint64_t :: "buf \<Rightarrow> buf \<Rightarrow> int" where
  "cmp_uint64_t key1 key2 = CMP_U64 (mem_word (take 8 key1)) (mem_word (take 8 key2))"

definition cmp_binary32 :: "buf \<Rightarrow> buf \<Rightarrow> int" where
  "cmp_binary32 key1 key2 = CMP_U32 (enc32 (mem_word (take 4 key1))) (enc32 (mem_word (take 4 key2)))"

definition cmp_binary64 :: "buf \<Rightarrow> buf \<Rightarrow> int" where
  "cmp_binary64 key1 key2 = CMP_U64 (enc64 (mem_word (take 8 key1))) (enc64 (mem_word (take 8 key2)))"

definition cmp_binary_general :: "nat \<Rightarrow> buf \<Rightarrow> buf \<Rightarrow> int" where
  "cmp_binary_general chunksize key1 key2 = memcmp key1 key2 chunksize"

section \<open>The tables\<close>

record kv_ops =
  kv_get :: "bnode \<Rightarrow> nat \<Rightarrow> buf \<times> buf"
  kv_set :: "bnode \<Rightarrow> nat \<Rightarrow> buf \<Rightarrow> buf \<Rightarrow> bnode"
  kv_ins :: "bnode \<Rightarrow> nat \<Rightarrow> (buf \<times> buf) option \<Rightarrow> bnode"
  kv_copy :: "bool \<Rightarrow> bnode \<Rightarrow> bnode \<Rightarrow> nat \<Rightarrow> nat \<Rightarrow> nat \<Rightarrow> bnode"
  kv_data_size :: "bnode \<Rightarrow> buf option \<Rightarrow> (buf \<times> buf) list \<Rightarrow> nat"
  kv_nth_idx :: "bnode \<Rightarrow> nat \<Rightarrow> nat \<Rightarrow> nat"
  kv_nth_splitter :: "bnode \<Rightarrow> bnode \<Rightarrow> buf"
  kv_cmp :: "buf \<Rightarrow> buf \<Rightarrow> int"
  kv_value2bid :: "buf \<Rightarrow> u64"
  kv_bid2value :: "u64 \<Rightarrow> buf"

definition fixed_ops :: "(buf \<Rightarrow> buf \<Rightarrow> int) \<Rightarrow> kv_ops" where
  "fixed_ops cmp = \<lparr>kv_get = get_kv, kv_set = set_kv, kv_ins = ins_kv, kv_copy = copy_kv,
     kv_data_size = get_data_size, kv_nth_idx = get_nth_idx, kv_nth_splitter = get_nth_splitter,
     kv_cmp = cmp, kv_value2bid = value_to_bid_64, kv_bid2value = bid_to_value_64\<rparr>"

definition kv_ops_ku64_vu64 :: kv_ops where "kv_ops_ku64_vu64 = fixed_ops cmp_uint64_t"
definition kv_ops_ku32_vu64 :: kv_ops where "kv_ops_ku32_vu64 = fixed_ops cmp_uint32_t"
definition btree_kv_get_kb64_vb64 :: kv_ops where "btree_kv_get_kb64_vb64 = fixed_ops cmp_binary64"
definition btree_kv_get_kb32_vb64 :: kv_ops where "btree_kv_get_kb32_vb64 = fixed_ops cmp_binary32"
definition btree_kv_get_kbn_vb64 :: "nat \<Rightarrow> kv_ops" where
  "btree_kv_get_kbn_vb64 chunksize = fixed_ops (cmp_binary_general chunksize)"

section \<open>Entries as a list\<close>

definition flat :: "(buf \<times> buf) list \<Rightarrow> buf" where
  "flat es = concat (map (\<lambda>(k, v). k @ v) es)"

definition sized :: "nat \<Rightarrow> nat \<Rightarrow> (buf \<times> buf) list \<Rightarrow> bool" where
  "sized K V es \<longleftrightarrow> (\<forall>(k, v) \<in> set es. length k = K \<and> length v = V)"

text \<open>A node holds a list of entries; at least the byte of the block marker stays free.\<close>

definition node_rep :: "nat \<Rightarrow> nat \<Rightarrow> bnode \<Rightarrow> (buf \<times> buf) list \<Rightarrow> bool" where
  "node_rep K V n es \<longleftrightarrow> ksz n = K \<and> vsz n = V \<and> bn_nentry n = length es \<and> sized K V es \<and>
     (\<exists>rest. bn_data n = flat es @ rest \<and> rest \<noteq> [])"

definition room :: "nat \<Rightarrow> nat \<Rightarrow> bnode \<Rightarrow> nat \<Rightarrow> bool" where
  "room K V n m \<longleftrightarrow> m * (K + V) < length (bn_data n)"

lemma flat_simps [simp]: "flat [] = []" "flat ((k, v) # es) = k @ v @ flat es" "flat (es @ fs) = flat es @ flat fs"
  by (simp_all add: flat_def)

lemma sized_simps [simp]:
  "sized K V []" "sized K V ((k, v) # es) \<longleftrightarrow> length k = K \<and> length v = V \<and> sized K V es"
  "sized K V (es @ fs) \<longleftrightarrow> sized K V es \<and> sized K V fs"
  by (auto simp: sized_def)

lemma length_flat: "sized K V es \<Longrightarrow> length (flat es) = length es * (K + V)"
  by (induction es) auto

lemma sized_take: "sized K V es \<Longrightarrow> sized K V (take i es)" and sized_drop: "sized K V es \<Longrightarrow> sized K V (drop i es)"
  by (auto simp: sized_def dest: in_set_takeD in_set_dropD)

lemma node_rep_length: "node_rep K V n es \<Longrightarrow> length es * (K + V) < length (bn_data n)"
  by (auto simp: node_rep_def length_flat)

text \<open>Splitting a list of entries at an index splits the bytes.\<close>

lemma split_at: "i < length es \<Longrightarrow> es = take i es @ es ! i # drop (Suc i) es"
  by (rule id_take_nth_drop)

lemma flat_split:
  assumes "sized K V es" "i < length es" "es ! i = (k, v)"
  shows "flat es = flat (take i es) @ k @ v @ flat (drop (Suc i) es)" "length (flat (take i es)) = i * (K + V)"
    "length k = K" "length v = V"
proof -
  have e: "es = take i es @ (k, v) # drop (Suc i) es" using split_at [OF assms(2)] assms(3) by simp
  show "flat es = flat (take i es) @ k @ v @ flat (drop (Suc i) es)" by (subst e) simp
  show "length (flat (take i es)) = i * (K + V)" using length_flat [OF sized_take [OF assms(1)], of i] assms(2) by simp
  show "length k = K" "length v = V" using assms nth_mem [OF assms(2)] by (auto simp: sized_def)
qed

lemma get_kv_rep:
  assumes "node_rep K V n es" "i < length es"
  shows "get_kv n i = es ! i"
proof -
  obtain k v where kv: "es ! i = (k, v)" by (cases "es ! i")
  obtain rest where r: "bn_data n = flat es @ rest" and sz: "sized K V es" "ksz n = K" "vsz n = V"
    using assms(1) by (auto simp: node_rep_def)
  note f = flat_split [OF sz(1) assms(2) kv]
  show ?thesis using sz f(2-4) unfolding get_kv_def Let_def r f(1) kv by (simp add: mem_read_def)
qed

lemma set_kv_rep:
  assumes "node_rep K V n es" "i < length es" "length k = K" "length v = V"
  shows "node_rep K V (set_kv n i k v) (es[i := (k, v)])"
proof -
  obtain k0 v0 where kv: "es ! i = (k0, v0)" by (cases "es ! i")
  obtain rest where r: "bn_data n = flat es @ rest" "rest \<noteq> []" and sz: "sized K V es" "ksz n = K" "vsz n = V" "bn_nentry n = length es"
    using assms(1) by (auto simp: node_rep_def)
  note f = flat_split [OF sz(1) assms(2) kv]
  have e: "es[i := (k, v)] = take i es @ (k, v) # drop (Suc i) es" using assms(2) by (rule upd_conv_take_nth_drop)
  have "bn_data (set_kv n i k v) = flat (es[i := (k, v)]) @ rest"
    using sz f(2-4) assms(3,4) unfolding set_kv_def Let_def r(1) f(1) e by (simp add: mem_write_def)
  moreover have "sized K V (es[i := (k, v)])" unfolding e using sz(1) assms(3,4) by (simp add: sized_take sized_drop)
  ultimately show ?thesis using sz r(2) by (simp add: node_rep_def set_kv_def Let_def)
qed

lemma set_kv_end:
  assumes "node_rep K V n es" "room K V n (Suc (length es))" "length k = K" "length v = V"
  shows "node_rep K V ((set_kv n (length es) k v)\<lparr>bn_nentry := Suc (length es)\<rparr>) (es @ [(k, v)])"
proof -
  obtain rest where r: "bn_data n = flat es @ rest" and sz: "sized K V es" "ksz n = K" "vsz n = V"
    using assms(1) by (auto simp: node_rep_def)
  note l = length_flat [OF sz(1)]
  have rm: "K + V < length rest" using assms(2) l by (simp add: room_def r)
  have "bn_data (set_kv n (length es) k v) = flat (es @ [(k, v)]) @ drop (K + V) rest"
    using sz assms(3,4) l unfolding set_kv_def Let_def r by (simp add: mem_write_def add.commute)
  then show ?thesis using sz rm assms(3,4) by (simp add: node_rep_def set_kv_def Let_def)
qed

lemma ins_kv_rep:
  assumes "node_rep K V n es" "i \<le> length es" "room K V n (Suc (length es))" "length k = K" "length v = V"
  shows "node_rep K V ((ins_kv n i (Some (k, v)))\<lparr>bn_nentry := Suc (length es)\<rparr>) (take i es @ (k, v) # drop i es)"
proof -
  obtain rest where r: "bn_data n = flat es @ rest" and sz: "sized K V es" "ksz n = K" "vsz n = V" "bn_nentry n = length es"
    using assms(1) by (auto simp: node_rep_def)
  have fl: "flat es = flat (take i es) @ flat (drop i es)" by (metis append_take_drop_id flat_simps(3))
  have l: "length (flat (take i es)) = i * (K + V)" "length (flat (drop i es)) = (length es - i) * (K + V)"
    using length_flat [OF sized_take [OF sz(1)], of i] length_flat [OF sized_drop [OF sz(1)], of i] assms(2) by auto
  have rm: "K + V < length rest" using assms(3) length_flat [OF sz(1)] by (simp add: room_def r)
  have d: "bn_data n = flat (take i es) @ flat (drop i es) @ rest" by (simp add: r fl)
  have rd: "mem_read (bn_data n) (i * (K + V)) ((length es - i) * (K + V)) = flat (drop i es)"
    unfolding d using l by (simp add: mem_read_def)
  obtain a b where rest: "rest = a @ b" "length a = K + V" "b \<noteq> []"
    using rm by (metis append_take_drop_id drop_eq_Nil leD length_take less_imp_le min.absorb2)
  define gap where "gap = take (K + V) (flat (drop i es) @ a)"
  have gap: "length gap = K + V" using rest(2) by (simp add: gap_def)
  have d1: "mem_write (bn_data n) ((i + 1) * (K + V)) (flat (drop i es)) = flat (take i es) @ gap @ flat (drop i es) @ b"
    unfolding d using l rest(2) by (simp add: mem_write_def rest(1) gap_def)
  have "bn_data (ins_kv n i (Some (k, v))) = flat (take i es @ (k, v) # drop i es) @ b"
    unfolding ins_kv_def Let_def option.case prod.case sz(2-4) rd d1
    using l gap assms(4,5) by (simp add: mem_write_def)
  then show ?thesis using sz assms(2,4,5) rest(3)
    by (simp add: node_rep_def ins_kv_def Let_def sized_take sized_drop)
qed

lemma ins_kv_remove:
  assumes "node_rep K V n es" "i < length es"
  shows "node_rep K V ((ins_kv n i None)\<lparr>bn_nentry := length es - 1\<rparr>) (take i es @ drop (Suc i) es)"
proof -
  obtain k v where kv: "es ! i = (k, v)" by (cases "es ! i")
  obtain rest where r: "bn_data n = flat es @ rest" "rest \<noteq> []" and sz: "sized K V es" "ksz n = K" "vsz n = V" "bn_nentry n = length es"
    using assms(1) by (auto simp: node_rep_def)
  note f = flat_split [OF sz(1) assms(2) kv]
  have l: "length (flat (drop (Suc i) es)) = (length es - Suc i) * (K + V)"
    using length_flat [OF sized_drop [OF sz(1)], of "Suc i"] by simp
  have rd: "mem_read (bn_data n) ((i + 1) * (K + V)) ((length es - (i + 1)) * (K + V)) = flat (drop (Suc i) es)"
    unfolding r(1) f(1) using f(2-4) l by (simp add: mem_read_def)
  have "bn_data (ins_kv n i None) = flat (take i es @ drop (Suc i) es) @
      drop (length (flat (drop (Suc i) es))) (k @ v @ flat (drop (Suc i) es) @ rest)"
    unfolding ins_kv_def Let_def option.case sz(2-4) rd unfolding r(1) f(1) using f(2) by (simp add: mem_write_def)
  moreover have "drop (length (flat (drop (Suc i) es))) (k @ v @ flat (drop (Suc i) es) @ rest) \<noteq> []"
    using r(2) by simp
  ultimately show ?thesis using sz assms(2)
    by (simp add: node_rep_def ins_kv_def Let_def sized_take sized_drop)
qed

lemma node_rep_prefix:
  assumes "node_rep K V n es" "j \<le> length es"
  shows "node_rep K V (n\<lparr>bn_nentry := j\<rparr>) (take j es)"
proof -
  have "flat es = flat (take j es) @ flat (drop j es)" by (metis append_take_drop_id flat_simps(3))
  then show ?thesis using assms by (auto simp: node_rep_def sized_take)
qed

text \<open>Copying a run of entries into an empty node.\<close>

lemma copy_kv_rep:
  assumes "node_rep K V src es" "ksz dst = K" "vsz dst = V" "s + len \<le> length es" "room K V dst len"
  shows "node_rep K V ((copy_kv False dst src 0 s len)\<lparr>bn_nentry := len\<rparr>) (take len (drop s es))"
proof -
  obtain rest where r: "bn_data src = flat es @ rest" and sz: "sized K V es" "ksz src = K" "vsz src = V"
    using assms(1) by (auto simp: node_rep_def)
  have fl: "flat es = flat (take s es) @ flat (take len (drop s es)) @ flat (drop len (drop s es))"
    by (metis append_take_drop_id flat_simps(3))
  have l: "length (flat (take s es)) = s * (K + V)" "length (flat (take len (drop s es))) = len * (K + V)"
    using length_flat [OF sized_take [OF sz(1)], of s] length_flat [OF sized_take [OF sized_drop [OF sz(1)]], of len s] assms(4)
    by auto
  have rd: "mem_read (bn_data src) ((K + V) * s) ((K + V) * len) = flat (take len (drop s es))"
    unfolding r fl using l by (simp add: mem_read_def mult.commute)
  have "bn_data (copy_kv False dst src 0 s len) = flat (take len (drop s es)) @ drop (len * (K + V)) (bn_data dst)"
    unfolding copy_kv_def Let_def sz(2,3) rd using l by (simp add: mem_write_def)
  then show ?thesis using sz assms by (simp add: node_rep_def copy_kv_def Let_def sized_take sized_drop room_def)
qed

section \<open>The interface towards the tree\<close>

text \<open>The comparison is a strict total order on keys of the tree's size, with results in the range of a C integer.\<close>

locale key_order =
  fixes cmp :: "buf \<Rightarrow> buf \<Rightarrow> int" and K :: nat
  assumes cmp_zero: "length x = K \<Longrightarrow> length y = K \<Longrightarrow> cmp x y = 0 \<longleftrightarrow> x = y"
    and cmp_swap: "length x = K \<Longrightarrow> length y = K \<Longrightarrow> cmp x y < 0 \<longleftrightarrow> cmp y x > 0"
    and cmp_less_trans: "length x = K \<Longrightarrow> length y = K \<Longrightarrow> length z = K \<Longrightarrow> cmp x y < 0 \<Longrightarrow> cmp y z < 0 \<Longrightarrow> cmp x z < 0"
    and cmp_range: "- (2 ^ 31) \<le> cmp x y \<and> cmp x y < 2 ^ 31"
begin

lemma cmp_map: "MAP (word_of_int (cmp x y)) = sgn (cmp x y)"
  using cmp_range [of x y] by (simp add: MAP_sgn sint_sbintrunc' signed_take_bit_int_eq_self)

lemma cmp_linear:
  assumes "length x = K" "length y = K"
  obtains (less) "cmp x y < 0" | (equal) "x = y" | (greater) "cmp y x < 0"
  using cmp_zero [OF assms] cmp_swap [OF assms] cmp_swap [OF assms(2,1)] by (cases "cmp x y" "0 :: int" rule: linorder_cases) auto

lemma cmp_not_less: "length x = K \<Longrightarrow> length y = K \<Longrightarrow> \<not> cmp x y < 0 \<longleftrightarrow> x = y \<or> cmp y x < 0"
  using cmp_zero [of x y] cmp_swap [of x y] cmp_swap [of y x] by (cases "cmp x y" "0 :: int" rule: linorder_cases) auto

end

lemma key_order_by_word:
  fixes w :: "buf \<Rightarrow> 'a::len word"
  assumes "\<And>x y. length x = K \<Longrightarrow> length y = K \<Longrightarrow> w x = w y \<Longrightarrow> x = y"
    and "\<And>x y. c (w x) (w y) < 0 \<longleftrightarrow> w x < w y" "\<And>x y. c (w x) (w y) = 0 \<longleftrightarrow> w x = w y"
    and "\<And>x y. - (2 ^ 31) \<le> c (w x) (w y) \<and> c (w x) (w y) < 2 ^ 31"
  shows "key_order (\<lambda>x y. c (w x) (w y)) K"
proof
  fix x y z :: buf
  have pos: "c (w x) (w y) > 0 \<longleftrightarrow> w y < w x" for x y
    using assms(2) [of x y] assms(3) [of x y] less_linear [of "w x" "w y"] by (cases "c (w x) (w y)" "0 :: int" rule: linorder_cases) auto
  show "c (w x) (w y) = 0 \<longleftrightarrow> x = y" if "length x = K" "length y = K" using assms(1,3) that by blast
  show "c (w x) (w y) < 0 \<longleftrightarrow> c (w y) (w x) > 0" using assms(2) pos by simp
  show "c (w x) (w z) < 0" if "c (w x) (w y) < 0" "c (w y) (w z) < 0" using that assms(2) by (meson less_trans)
  show "- (2 ^ 31) \<le> c (w x) (w y) \<and> c (w x) (w y) < 2 ^ 31" by (rule assms(4))
qed

lemma word_mem_mem_word:
  assumes "LENGTH('a::len) = 8 * n" "length bs = n"
  shows "word_mem n (mem_word bs :: 'a word) = bs"
proof (rule nth_equalityI)
  fix i assume "i < length (word_mem n (mem_word bs :: 'a word))"
  then have i: "i < n" by simp
  show "word_mem n (mem_word bs :: 'a word) ! i = bs ! i"
  proof (rule bit_word_eqI)
    fix k assume k: "k < LENGTH(8)"
    then have "(8 * i + k) div 8 = i" "(8 * i + k) mod 8 = k" "8 * i + k < LENGTH('a)" using i assms(1) by auto
    then show "bit (word_mem n (mem_word bs :: 'a word) ! i) k = bit (bs ! i) k"
      using i k assms(2) by (simp add: nth_word_mem bit_ucast_iff bit_drop_bit_eq bit_mem_word)
  qed
qed (simp add: assms(2))

lemma mem_word_inj:
  assumes "LENGTH('a::len) = 8 * n" "length x = n" "length y = n" "(mem_word x :: 'a word) = mem_word y"
  shows "x = y"
  using arg_cong [OF assms(4), of "word_mem n"] unfolding word_mem_mem_word [OF assms(1,2)] word_mem_mem_word [OF assms(1,3)] .

lemma sint32_range: "- (2 ^ 31) \<le> sint (w :: u32) \<and> sint w < 2 ^ 31"
  using sint_range_size [of w] by (simp add: word_size)

lemma CMP_range: "- (2 ^ 31) \<le> CMP_U64 a b \<and> CMP_U64 a b < 2 ^ 31" "- (2 ^ 31) \<le> CMP_U32 c d \<and> CMP_U32 c d < 2 ^ 31"
  unfolding CMP_U64_def CMP_U32_def by (rule sint32_range)+

lemma key_order_u64:
  assumes "\<And>x y. length x = 8 \<Longrightarrow> length y = 8 \<Longrightarrow> w x = w y \<Longrightarrow> x = y"
  shows "key_order (\<lambda>x y. CMP_U64 (w x) (w y)) 8"
  by (rule key_order_by_word [OF assms]) (assumption | rule CMP_U64_sign CMP_range)+

lemma key_order_u32:
  assumes "\<And>x y. length x = 4 \<Longrightarrow> length y = 4 \<Longrightarrow> w x = w y \<Longrightarrow> x = y"
  shows "key_order (\<lambda>x y. CMP_U32 (w x) (w y)) 4"
  by (rule key_order_by_word [OF assms]) (assumption | rule CMP_U32_sign CMP_range)+

lemma enc_inj: "enc64 a = enc64 b \<Longrightarrow> a = b" "enc32 c = enc32 d \<Longrightarrow> c = d"
  using dec_enc by metis+

interpretation ku64: key_order cmp_uint64_t 8
  unfolding cmp_uint64_t_def [abs_def] by (rule key_order_u64) (rule mem_word_inj [of 8], auto)

interpretation ku32: key_order cmp_uint32_t 4
  unfolding cmp_uint32_t_def [abs_def] by (rule key_order_u32) (rule mem_word_inj [of 4], auto)

interpretation kb64: key_order cmp_binary64 8
  unfolding cmp_binary64_def [abs_def] by (rule key_order_u64) (rule mem_word_inj [of 8], auto dest: enc_inj)

interpretation kb32: key_order cmp_binary32 4
  unfolding cmp_binary32_def [abs_def] by (rule key_order_u32) (rule mem_word_inj [of 4], auto dest: enc_inj)

lemma memcmp_zero: "length x = n \<Longrightarrow> length y = n \<Longrightarrow> memcmp x y n = 0 \<longleftrightarrow> x = y"
  by (induction x y n rule: memcmp.induct) auto

lemma memcmp_swap: "memcmp x y n < 0 \<longleftrightarrow> memcmp y x n > 0"
  by (induction x y n rule: memcmp.induct) auto

lemma memcmp_trans:
  "length x = n \<Longrightarrow> length y = n \<Longrightarrow> length z = n \<Longrightarrow> memcmp x y n < 0 \<Longrightarrow> memcmp y z n < 0 \<Longrightarrow> memcmp x z n < 0"
proof (induction n arbitrary: x y z)
  case (Suc n)
  then obtain a b c x' y' z' where e: "x = a # x'" "y = b # y'" "z = c # z'" by (auto simp: length_Suc_conv)
  show ?case using Suc.prems Suc.IH [of x' y' z'] unfolding e by (auto split: if_splits)
qed simp

lemma memcmp_range: "memcmp x y n \<in> {-1, 0, 1}"
  by (induction x y n rule: memcmp.induct) auto

interpretation kbn: key_order "cmp_binary_general n" n for n
proof
  show "- (2 ^ 31) \<le> cmp_binary_general n x y \<and> cmp_binary_general n x y < 2 ^ 31" for x y
    using memcmp_range [of x y n] by (auto simp: cmp_binary_general_def)
qed (auto simp: cmp_binary_general_def memcmp_zero memcmp_swap [symmetric] intro: memcmp_trans)

text \<open>
  The operations of a table on nodes that hold a list of entries. Only the data of a node changes,
  and never the block marker at its end.
\<close>

definition same_end :: "buf \<Rightarrow> buf \<Rightarrow> bool" where
  "same_end b b' \<longleftrightarrow> length b' = length b \<and> last b' = last b"

lemma same_end_write:
  assumes "off + length src < length b" "same_end a b"
  shows "same_end a (mem_write b off src)"
proof -
  have l: "length (mem_write b off src) = length b" using assms(1) by (simp add: length_mem_write)
  moreover have "last (mem_write b off src) = last b"
    using assms(1) by (cases "b = []") (auto simp: mem_write_def)
  ultimately show ?thesis using assms(2) by (simp add: same_end_def)
qed

lemma same_end_refl: "same_end b b"
  by (simp add: same_end_def)

lemma same_end_length: "same_end a b \<Longrightarrow> length b = length a"
  by (simp add: same_end_def)

definition data_change :: "bnode \<Rightarrow> bnode \<Rightarrow> bool" where
  "data_change n n' \<longleftrightarrow> n' = n\<lparr>bn_data := bn_data n'\<rparr> \<and> same_end (bn_data n) (bn_data n')"

locale kv_layer = key_order "kv_cmp ops" K for ops :: kv_ops and K :: nat +
  fixes V :: nat
  assumes get: "node_rep K V n es \<Longrightarrow> i < length es \<Longrightarrow> kv_get ops n i = es ! i"
    and set_at: "node_rep K V n es \<Longrightarrow> i < length es \<Longrightarrow> length k = K \<Longrightarrow> length v = V \<Longrightarrow>
      node_rep K V (kv_set ops n i k v) (es[i := (k, v)]) \<and> data_change n (kv_set ops n i k v)"
    and set_end: "node_rep K V n es \<Longrightarrow> room K V n (Suc (length es)) \<Longrightarrow> length k = K \<Longrightarrow> length v = V \<Longrightarrow>
      node_rep K V ((kv_set ops n (length es) k v)\<lparr>bn_nentry := Suc (length es)\<rparr>) (es @ [(k, v)]) \<and>
      data_change n (kv_set ops n (length es) k v)"
    and insert_at: "node_rep K V n es \<Longrightarrow> i < length es \<Longrightarrow> room K V n (Suc (length es)) \<Longrightarrow> length k = K \<Longrightarrow> length v = V \<Longrightarrow>
      node_rep K V ((kv_ins ops n i (Some (k, v)))\<lparr>bn_nentry := Suc (length es)\<rparr>) (take i es @ (k, v) # drop i es) \<and>
      data_change n (kv_ins ops n i (Some (k, v)))"
    and remove_at: "node_rep K V n es \<Longrightarrow> i < length es \<Longrightarrow>
      node_rep K V ((kv_ins ops n i None)\<lparr>bn_nentry := length es - 1\<rparr>) (take i es @ drop (Suc i) es) \<and>
      data_change n (kv_ins ops n i None)"
    and copy: "node_rep K V src es \<Longrightarrow> ksz dst = K \<Longrightarrow> vsz dst = V \<Longrightarrow> s + len \<le> length es \<Longrightarrow> room K V dst len \<Longrightarrow>
      node_rep K V ((kv_copy ops False dst src 0 s len)\<lparr>bn_nentry := len\<rparr>) (take len (drop s es)) \<and>
      data_change dst (kv_copy ops False dst src 0 s len)"
    and copy_same: "kv_copy ops True dst src i s len = dst"
    and data_size: "node_rep K V n es \<Longrightarrow> kv_data_size ops n mk kvs = (length es + length kvs) * (K + V)"
    and nth_idx: "node_rep K V n es \<Longrightarrow> kv_nth_idx ops n j den = length es div den * j + min j (length es mod den)"
    and splitter: "node_rep K V n es \<Longrightarrow> es \<noteq> [] \<Longrightarrow> kv_nth_splitter ops p n = fst (hd es)"
    and bid_value: "kv_value2bid ops (kv_bid2value ops b) = b" "length (kv_bid2value ops b) = V"

lemma set_kv_change:
  assumes "node_rep K V n es" "i < length es \<or> i = length es \<and> room K V n (Suc (length es))" "length k = K" "length v = V"
  shows "data_change n (set_kv n i k v)"
proof -
  have "Suc i * (K + V) < length (bn_data n)"
  proof (cases "i < length es")
    case True
    then have "Suc i * (K + V) \<le> length es * (K + V)" by (intro mult_le_mono1) simp
    then show ?thesis using node_rep_length [OF assms(1)] by simp
  next
    case False
    then show ?thesis using assms(2) by (simp add: room_def)
  qed
  then show ?thesis using assms
    by (simp add: data_change_def set_kv_def Let_def node_rep_def same_end_write same_end_refl length_mem_write)
qed

lemma entry_bounds:
  fixes c m i :: nat
  assumes "i < m"
  shows "i * c + (m - i) * c = m * c" "(i + 1) * c + (m - i) * c = Suc m * c" "i * c + c \<le> m * c"
    "(i + 1) * c + (m - (i + 1)) * c = m * c"
proof -
  obtain d where d: "m = i + Suc d" using assms less_iff_Suc_add by auto
  show "i * c + (m - i) * c = m * c" "(i + 1) * c + (m - i) * c = Suc m * c" "i * c + c \<le> m * c"
    "(i + 1) * c + (m - (i + 1)) * c = m * c"
    by (simp_all add: d distrib_right)
qed

lemma ins_kv_change:
  assumes "node_rep K V n es" "i < length es" "room K V n (Suc (length es))" "length k = K" "length v = V"
  shows "data_change n (ins_kv n i (Some (k, v)))"
proof -
  have s: "ksz n = K" "vsz n = V" "bn_nentry n = length es" using assms(1) by (auto simp: node_rep_def)
  note b = entry_bounds [OF assms(2), of "K + V"]
  have a: "Suc (length es) * (K + V) < length (bn_data n)" using assms(3) by (simp add: room_def)
  let ?d = "mem_write (bn_data n) ((i + 1) * (K + V)) (mem_read (bn_data n) (i * (K + V)) ((length es - i) * (K + V)))"
  have m: "length es * (K + V) < length (bn_data n)" using a by simp
  have "length (mem_read (bn_data n) (i * (K + V)) ((length es - i) * (K + V))) = (length es - i) * (K + V)"
    using m b(1) by (intro length_mem_read) simp
  then have d: "same_end (bn_data n) ?d" using a b(2) by (intro same_end_write same_end_refl) simp
  have f: "i * (K + V) + K + V < length (bn_data n)" using m b(3) by simp
  have e: "same_end (bn_data n) (mem_write ?d (i * (K + V)) k)"
    using f assms(4) same_end_length [OF d] by (intro same_end_write [OF _ d]) simp
  have "same_end (bn_data n) (mem_write (mem_write ?d (i * (K + V)) k) (i * (K + V) + K) v)"
    using f assms(5) same_end_length [OF e] by (intro same_end_write [OF _ e]) simp
  then show ?thesis using s assms(4,5) by (simp add: data_change_def ins_kv_def Let_def)
qed

lemma rmv_kv_change:
  assumes "node_rep K V n es" "i < length es"
  shows "data_change n (ins_kv n i None)"
proof -
  have s: "ksz n = K" "vsz n = V" "bn_nentry n = length es" using assms(1) by (auto simp: node_rep_def)
  note b = entry_bounds [OF assms(2), of "K + V"] and m = node_rep_length [OF assms(1)]
  have "length (mem_read (bn_data n) ((i + 1) * (K + V)) ((length es - (i + 1)) * (K + V))) = (length es - (i + 1)) * (K + V)"
    using m b(4) by (intro length_mem_read) simp
  then have "same_end (bn_data n) (mem_write (bn_data n) (i * (K + V)) (mem_read (bn_data n) ((i + 1) * (K + V)) ((length es - (i + 1)) * (K + V))))"
    using m b(4) by (intro same_end_write same_end_refl) simp
  then show ?thesis using s by (simp add: data_change_def ins_kv_def Let_def)
qed

lemma copy_kv_change:
  assumes "node_rep K V src es" "s + len \<le> length es" "room K V dst len"
  shows "data_change dst (copy_kv False dst src 0 s len)"
proof -
  have "ksz src = K" "vsz src = V" using assms(1) by (auto simp: node_rep_def)
  moreover have "length (mem_read (bn_data src) ((K + V) * s) ((K + V) * len)) \<le> (K + V) * len" by (simp add: mem_read_def)
  moreover have "(K + V) * len < length (bn_data dst)" using assms(3) by (simp add: room_def mult.commute)
  ultimately show ?thesis by (simp add: data_change_def copy_kv_def Let_def same_end_write same_end_refl)
qed

lemma fixed_kv_layer:
  assumes "key_order cmp K"
  shows "kv_layer (fixed_ops cmp) K 8"
proof (intro kv_layer.intro kv_layer_axioms.intro)
  show "key_order (kv_cmp (fixed_ops cmp)) K" using assms by (simp add: fixed_ops_def)
  fix n p es and k v :: buf and i
  assume n: "node_rep K 8 n es"
  show "i < length es \<Longrightarrow> kv_get (fixed_ops cmp) n i = es ! i" using get_kv_rep [OF n] by (simp add: fixed_ops_def)
  show "kv_data_size (fixed_ops cmp) n mk kvs = (length es + length kvs) * (K + 8)" for mk kvs
    using n by (simp add: fixed_ops_def get_data_size_def node_rep_def distrib_right mult.commute)
  show "kv_nth_idx (fixed_ops cmp) n j den = length es div den * j + min j (length es mod den)" for j den
    using n by (simp add: fixed_ops_def get_nth_idx_def node_rep_def Let_def minus_div_mult_eq_mod min_def)
  show "es \<noteq> [] \<Longrightarrow> kv_nth_splitter (fixed_ops cmp) p n = fst (hd es)"
    using n by (cases es) (auto simp: fixed_ops_def get_nth_splitter_def node_rep_def)
  show "i < length es \<Longrightarrow> length k = K \<Longrightarrow> length v = 8 \<Longrightarrow>
      node_rep K 8 (kv_set (fixed_ops cmp) n i k v) (es[i := (k, v)]) \<and> data_change n (kv_set (fixed_ops cmp) n i k v)"
    using set_kv_rep [OF n] set_kv_change [OF n] by (simp add: fixed_ops_def)
  show "i < length es \<Longrightarrow>
      node_rep K 8 ((kv_ins (fixed_ops cmp) n i None)\<lparr>bn_nentry := length es - 1\<rparr>) (take i es @ drop (Suc i) es) \<and>
      data_change n (kv_ins (fixed_ops cmp) n i None)"
    using ins_kv_remove [OF n] rmv_kv_change [OF n] by (simp add: fixed_ops_def)
  show "ksz p = K \<Longrightarrow> vsz p = 8 \<Longrightarrow> s + len \<le> length es \<Longrightarrow> room K 8 p len \<Longrightarrow>
      node_rep K 8 ((kv_copy (fixed_ops cmp) False p n 0 s len)\<lparr>bn_nentry := len\<rparr>) (take len (drop s es)) \<and>
      data_change p (kv_copy (fixed_ops cmp) False p n 0 s len)" for s len
    using copy_kv_rep [OF n, of p s len] copy_kv_change [OF n, of s len p] by (simp add: fixed_ops_def)
next
  show "kv_copy (fixed_ops cmp) True dst src i s len = dst" for dst src i s len by (simp add: fixed_ops_def copy_kv_def)
qed (auto simp: fixed_ops_def set_kv_end ins_kv_rep set_kv_change ins_kv_change value_to_bid_64_def bid_to_value_64_def
  mem_word_word_mem)

interpretation ku64_vu64: kv_layer kv_ops_ku64_vu64 8 8
  unfolding kv_ops_ku64_vu64_def by (rule fixed_kv_layer) (rule ku64.key_order_axioms)

interpretation ku32_vu64: kv_layer kv_ops_ku32_vu64 4 8
  unfolding kv_ops_ku32_vu64_def by (rule fixed_kv_layer) (rule ku32.key_order_axioms)

interpretation kb64_vb64: kv_layer btree_kv_get_kb64_vb64 8 8
  unfolding btree_kv_get_kb64_vb64_def by (rule fixed_kv_layer) (rule kb64.key_order_axioms)

interpretation kb32_vb64: kv_layer btree_kv_get_kb32_vb64 4 8
  unfolding btree_kv_get_kb32_vb64_def by (rule fixed_kv_layer) (rule kb32.key_order_axioms)

interpretation kbn_vb64: kv_layer "btree_kv_get_kbn_vb64 n" n 8 for n
  unfolding btree_kv_get_kbn_vb64_def by (rule fixed_kv_layer) (rule kbn.key_order_axioms)

end
