(* ===== verification/Btree_Node.thy ===== *)
theory Btree_Node
  imports Btree_KV File_Manager
begin

text \<open>
  Operations on one node of the B+-tree (\<^verbatim>\<open>src/btree.cc\<close>): its layout with the metadata section of
  a root, its size, and finding, adding and removing an entry. A node stands for the contents of the
  block it lives in; the operations on entries come from a table as in \<open>Btree_KV\<close>.
\<close>

unbundle bit_operations_syntax

section \<open>Layout\<close>

text \<open>The sizes of \<^verbatim>\<open>struct bnode\<close> and of \<^verbatim>\<open>metasize_t\<close>; metadata with its size is a multiple of 16 bytes.\<close>

definition sizeof_bnode :: nat where "sizeof_bnode = 16"
definition sizeof_metasize :: nat where "sizeof_metasize = 2"
definition METASIZE_ALIGN_UNIT :: nat where "METASIZE_ALIGN_UNIT = 16"

definition metasize_align :: "nat \<Rightarrow> nat" where
  "metasize_align sz =
     ((sz + sizeof_metasize) + (METASIZE_ALIGN_UNIT - 1)) div METASIZE_ALIGN_UNIT * METASIZE_ALIGN_UNIT - sizeof_metasize"

definition payload :: "bnode \<Rightarrow> buf" where "payload node = bn_meta node @ bn_data node"

definition has_meta :: "bnode \<Rightarrow> bool" where "has_meta node \<longleftrightarrow> bn_flag node AND BNODE_MASK_METADATA \<noteq> 0"

text \<open>The size field at the head of the metadata section.\<close>

definition metasize :: "bnode \<Rightarrow> nat" where
  "metasize node = unat (dec16 (mem_word (take sizeof_metasize (payload node))))"

text \<open>Setting the data pointer divides the bytes behind the header.\<close>

definition set_data :: "bnode \<Rightarrow> nat \<Rightarrow> bnode" where
  "set_data node off = node\<lparr>bn_meta := take off (payload node), bn_data := drop off (payload node)\<rparr>"

definition fetch_bnode :: "bnode \<Rightarrow> bnode" where
  "fetch_bnode node = set_data node (if has_meta node then sizeof_metasize + metasize_align (metasize node) else 0)"

definition bnode_size :: "kv_ops \<Rightarrow> bnode \<Rightarrow> buf option \<Rightarrow> (buf \<times> buf) list \<Rightarrow> nat" where
  "bnode_size ops node new_minkey kvs =
     (if has_meta node
      then sizeof_bnode + kv_data_size ops node new_minkey kvs + metasize_align (metasize node) + sizeof_metasize
      else sizeof_bnode + kv_data_size ops node new_minkey kvs)"

text \<open>The size of a node with the pending entries added, and whether it fits into the block.\<close>

definition bnode_size_check :: "kv_ops \<Rightarrow> nat \<Rightarrow> bnode \<Rightarrow> buf option \<Rightarrow> (buf \<times> buf) list \<Rightarrow> bool \<times> nat" where
  "bnode_size_check ops blksize node new_minkey kv_ins_list =
     (let nodesize = blksize - BLK_MARKER_SIZE; cursize = bnode_size ops node new_minkey kv_ins_list
      in (cursize \<le> nodesize, cursize))"

definition btree_init_node :: "nat \<Rightarrow> nat \<Rightarrow> bnode \<Rightarrow> u16 \<Rightarrow> nat \<Rightarrow> buf option \<Rightarrow> bnode" where
  "btree_init_node ksize vsize addr flags level meta =
     (let node = addr\<lparr>bn_kvsize := push_bit 8 (word_of_nat ksize) OR word_of_nat vsize, bn_nentry := 0,
                     bn_level := level, bn_flag := flags\<rparr>
      in case meta of
           Some data \<Rightarrow>
             if flags AND BNODE_MASK_METADATA \<noteq> 0
             then set_data (node\<lparr>bn_meta := [],
                    bn_data := mem_write (payload node) 0 (word_mem 2 (enc16 (word_of_nat (length data))) @ data)\<rparr>)
                    (sizeof_metasize + metasize_align (length data))
             else set_data node 0
         | None \<Rightarrow> set_data node 0)"

definition btree_get_nsplitnode :: "nat \<Rightarrow> bnode \<Rightarrow> nat \<Rightarrow> nat" where
  "btree_get_nsplitnode blksize node sz =
     (let nodesize = blksize - BLK_MARKER_SIZE;
          headersize = (if has_meta node then sizeof_bnode + metasize_align (metasize node) + sizeof_metasize else sizeof_bnode);
          dataspace = nodesize - headersize
      in ((sz - headersize) + (dataspace - 1)) div dataspace)"

section \<open>Entries\<close>

text \<open>
  The binary search with the bit-arithmetic comparison: the sign of the comparison selects which of
  the bounds the middle replaces, and equality also clears the end, which stops the loop.
\<close>

function find_entry_loop :: "kv_ops \<Rightarrow> bnode \<Rightarrow> buf \<Rightarrow> nat \<Rightarrow> nat \<Rightarrow> nat" where
  "find_entry_loop ops node key start endp =
     (if start + 1 < endp then
        (let middle = (start + endp) div 2;
             cmp = MAP (word_of_int (kv_cmp ops key (fst (kv_get ops node middle)))) + 1
         in if cmp = 0 then find_entry_loop ops node key start middle
            else if cmp = 1 then find_entry_loop ops node key middle 0
            else find_entry_loop ops node key middle endp)
      else start)"
  by pat_completeness auto
termination by (relation "measure (\<lambda>(ops, node, key, start, endp). endp - start)") auto

declare find_entry_loop.simps [simp del]

definition btree_find_entry :: "kv_ops \<Rightarrow> bnode \<Rightarrow> buf \<Rightarrow> nat option" where
  "btree_find_entry ops node key =
     (if bn_nentry node > 0 then
        if kv_cmp ops key (fst (kv_get ops node 0)) < 0 then None
        else if kv_cmp ops key (fst (kv_get ops node (bn_nentry node - 1))) \<ge> 0 then Some (bn_nentry node - 1)
        else Some (find_entry_loop ops node key 0 (bn_nentry node))
      else None)"

definition btree_add_entry :: "kv_ops \<Rightarrow> bnode \<Rightarrow> buf \<Rightarrow> buf \<Rightarrow> nat \<times> bnode" where
  "btree_add_entry ops node key val =
     (let place = (\<lambda>idx_insert.
            (idx_insert, (if idx_insert < bn_nentry node then kv_ins ops node idx_insert (Some (key, val))
              else kv_set ops node idx_insert key val)\<lparr>bn_nentry := bn_nentry node + 1\<rparr>))
      in if bn_nentry node > 0 then
           (case btree_find_entry ops node key of
              None \<Rightarrow> place 0
            | Some idx \<Rightarrow>
                if kv_cmp ops key (fst (kv_get ops node idx)) = 0 then (idx, kv_set ops node idx key val)
                else place (idx + 1))
         else place 0)"

definition btree_remove_entry :: "kv_ops \<Rightarrow> bnode \<Rightarrow> buf \<Rightarrow> nat option \<times> bnode" where
  "btree_remove_entry ops node key =
     (if bn_nentry node > 0 then
        (case btree_find_entry ops node key of
           None \<Rightarrow> (None, node)
         | Some idx \<Rightarrow> (Some idx, (kv_ins ops node idx None)\<lparr>bn_nentry := bn_nentry node - 1\<rparr>))
      else (None, node))"

section \<open>Sorted lists of entries\<close>

text \<open>
  What the entries of a node mean: a list in strictly ascending key order. \<open>rank\<close> counts the leading
  entries whose key does not exceed the given one, \<open>put\<close> is the update of the finite map.
\<close>

definition asc :: "(buf \<Rightarrow> buf \<Rightarrow> int) \<Rightarrow> (buf \<times> 'v) list \<Rightarrow> bool" where
  "asc cmp es = sorted_wrt (\<lambda>a b. cmp (fst a) (fst b) < 0) es"

definition rank :: "(buf \<Rightarrow> buf \<Rightarrow> int) \<Rightarrow> buf \<Rightarrow> (buf \<times> 'v) list \<Rightarrow> nat" where
  "rank cmp key es = length (takeWhile (\<lambda>e. \<not> cmp key (fst e) < 0) es)"

fun put :: "(buf \<Rightarrow> buf \<Rightarrow> int) \<Rightarrow> buf \<Rightarrow> 'v \<Rightarrow> (buf \<times> 'v) list \<Rightarrow> (buf \<times> 'v) list" where
  "put cmp key val [] = [(key, val)]"
| "put cmp key val ((k, v) # es) =
     (if cmp key k < 0 then (key, val) # (k, v) # es
      else if cmp key k = 0 then (key, val) # es
      else (k, v) # put cmp key val es)"

definition keyed :: "nat \<Rightarrow> (buf \<times> 'v) list \<Rightarrow> bool" where
  "keyed K es \<longleftrightarrow> (\<forall>e \<in> set es. length (fst e) = K)"

lemma keyed_simps [simp]:
  "keyed K []" "keyed K (e # es) \<longleftrightarrow> length (fst e) = K \<and> keyed K es" "keyed K (es @ fs) \<longleftrightarrow> keyed K es \<and> keyed K fs"
  by (auto simp: keyed_def)

lemma sized_keyed: "sized K V es \<Longrightarrow> keyed K es"
  by (auto simp: sized_def keyed_def)

lemma keyed_nth: "keyed K es \<Longrightarrow> i < length es \<Longrightarrow> length (fst (es ! i)) = K"
  by (simp add: keyed_def)

lemma asc_simps [simp]:
  "asc cmp []" "asc cmp (e # es) \<longleftrightarrow> (\<forall>e' \<in> set es. cmp (fst e) (fst e') < 0) \<and> asc cmp es"
  "asc cmp (es @ fs) \<longleftrightarrow> asc cmp es \<and> asc cmp fs \<and> (\<forall>e \<in> set es. \<forall>e' \<in> set fs. cmp (fst e) (fst e') < 0)"
  by (auto simp: asc_def sorted_wrt_append)

lemma asc_nth: "asc cmp es \<Longrightarrow> i < j \<Longrightarrow> j < length es \<Longrightarrow> cmp (fst (es ! i)) (fst (es ! j)) < 0"
  using sorted_wrt_nth_less [of "\<lambda>a b. cmp (fst a) (fst b) < 0" es i j] by (simp add: asc_def)

lemma rank_le: "rank cmp key es \<le> length es"
  by (simp add: rank_def length_takeWhile_le)

lemma rank_less: "i < rank cmp key es \<Longrightarrow> \<not> cmp key (fst (es ! i)) < 0"
  using nth_mem [of i "takeWhile (\<lambda>e. \<not> cmp key (fst e) < 0) es"] takeWhile_nth [of i "\<lambda>e. \<not> cmp key (fst e) < 0" es] set_takeWhileD
  by (fastforce simp: rank_def)

lemma rank_end: "rank cmp key es < length es \<Longrightarrow> cmp key (fst (es ! rank cmp key es)) < 0"
  using nth_length_takeWhile [of "\<lambda>e. \<not> cmp key (fst e) < 0" es] by (auto simp: rank_def)

lemma put_keyed: "keyed K es \<Longrightarrow> length k = K \<Longrightarrow> keyed K (put cmp k v es)"
  by (induction cmp k v es rule: put.induct) auto

lemma put_sized: "sized K V es \<Longrightarrow> length k = K \<Longrightarrow> length v = V \<Longrightarrow> sized K V (put cmp k v es)"
  by (induction cmp k v es rule: put.induct) auto

lemma put_not_Nil [simp]: "put cmp k v es \<noteq> []"
  by (induction cmp k v es rule: put.induct) auto

lemma set_put: "set (put cmp k v es) \<subseteq> insert (k, v) (set es)"
  by (induction cmp k v es rule: put.induct) auto

context key_order
begin

lemma cmp_refl [simp]: "length x = K \<Longrightarrow> cmp x x = 0"
  by (simp add: cmp_zero)

lemma cmp_asym: "length x = K \<Longrightarrow> length y = K \<Longrightarrow> cmp x y < 0 \<Longrightarrow> \<not> cmp y x < 0"
  using cmp_swap [of x y] by simp

lemma cmp_le_trans: "length x = K \<Longrightarrow> length y = K \<Longrightarrow> length z = K \<Longrightarrow> \<not> cmp x y < 0 \<Longrightarrow> cmp z y < 0 \<Longrightarrow> cmp z x < 0"
  using cmp_not_less [of x y] cmp_less_trans by blast

lemma rank_eq:
  assumes "asc cmp es" "keyed K es" "length key = K" "r < length es"
    "\<not> cmp key (fst (es ! r)) < 0" "Suc r < length es \<Longrightarrow> cmp key (fst (es ! Suc r)) < 0"
  shows "rank cmp key es = Suc r"
proof -
  have "\<not> cmp key (fst (es ! i)) < 0" if "i < Suc r" for i
  proof (cases "i = r")
    case False
    then have "cmp (fst (es ! i)) (fst (es ! r)) < 0" using that assms(1,4) by (intro asc_nth) auto
    then show ?thesis using assms(3,4,5) that keyed_nth [OF assms(2)] cmp_less_trans [of key "fst (es ! i)" "fst (es ! r)"] by auto
  qed (use assms in simp)
  then have "takeWhile (\<lambda>e. \<not> cmp key (fst e) < 0) es = take (Suc r) es"
    using assms(6) by (intro takeWhile_eq_take_P_nth) auto
  then show ?thesis using assms(4) by (simp add: rank_def)
qed

lemma rank_zero: "rank cmp key es = 0 \<longleftrightarrow> es = [] \<or> cmp key (fst (hd es)) < 0"
  by (cases es) (auto simp: rank_def)

lemma put_rank:
  assumes "asc cmp es" "keyed K es" "length k = K"
  shows "put cmp k v es = (let p = rank cmp k es in
    if p > 0 \<and> cmp k (fst (es ! (p - 1))) = 0 then es[p - 1 := (k, v)] else take p es @ (k, v) # drop p es)"
  using assms
proof (induction es)
  case (Cons e es)
  obtain a b where e: "e = (a, b)" by (cases e)
  consider "cmp k a < 0" | "cmp k a = 0" | "cmp k a > 0" by linarith
  then show ?case
  proof cases
    case 2
    then have "k = a" using Cons.prems e cmp_zero by auto
    then have "rank cmp k es = 0" using Cons.prems e by (cases es) (auto simp: rank_zero)
    then show ?thesis using 2 by (simp add: e rank_def)
  next
    case 3
    then have r: "rank cmp k (e # es) = Suc (rank cmp k es)" by (simp add: e rank_def)
    have z: "rank cmp k es = 0 \<Longrightarrow> \<not> cmp k a = 0" using 3 by simp
    show ?thesis unfolding r using 3 Cons z by (cases "rank cmp k es") (auto simp: e Let_def)
  qed (simp add: e rank_def)
qed (simp add: rank_def)

lemma put_asc:
  assumes "asc cmp es" "keyed K es" "length k = K"
  shows "asc cmp (put cmp k v es)"
  using assms
proof (induction es)
  case (Cons e es)
  obtain a b where e: "e = (a, b)" by (cases e)
  have s: "\<forall>e' \<in> set es. cmp a (fst e') < 0" "length a = K" "\<forall>e' \<in> set es. length (fst e') = K"
    using Cons.prems e by (auto simp: keyed_def)
  show ?case
  proof (cases "cmp k a" "0 :: int" rule: linorder_cases)
    case less
    then show ?thesis using Cons.prems s e cmp_less_trans [of k a] by (auto simp: keyed_def)
  next
    case equal
    then have "k = a" using s Cons.prems(3) cmp_zero by simp
    then show ?thesis using Cons.prems e s by simp
  next
    case greater
    then have "cmp a k < 0" using s Cons.prems(3) cmp_swap by simp
    then show ?thesis using greater Cons s e set_put [of cmp k v es] by auto
  qed
qed simp

lemma put_map:
  assumes "asc cmp es" "keyed K es" "length k = K"
  shows "map_of (put cmp k v es) = (map_of es)(k \<mapsto> v)"
  using assms
proof (induction es)
  case (Cons e es)
  obtain a b where e: "e = (a, b)" by (cases e)
  show ?case using Cons e cmp_zero [of k a] by (cases "cmp k a" "0 :: int" rule: linorder_cases) (auto simp: fun_eq_iff)
qed auto

lemma put_left:
  assumes "keyed K (xs @ ys)" "length k = K" "ys = [] \<or> cmp k (fst (hd ys)) < 0"
  shows "put cmp k v (xs @ ys) = put cmp k v xs @ ys"
  using assms
proof (induction xs)
  case Nil
  then show ?case by (cases ys) auto
qed auto

lemma put_right:
  assumes "asc cmp (xs @ ys)" "keyed K (xs @ ys)" "length k = K" "ys \<noteq> []" "\<not> cmp k (fst (hd ys)) < 0"
  shows "put cmp k v (xs @ ys) = xs @ put cmp k v ys"
  using assms
proof (induction xs)
  case (Cons e xs)
  obtain a b where e: "e = (a, b)" by (cases e)
  have "cmp a (fst (hd ys)) < 0" "length a = K" "length (fst (hd ys)) = K"
    using Cons.prems(1,2,4) e by (auto simp: neq_Nil_conv)
  then have "cmp a k < 0" using cmp_le_trans [of k "fst (hd ys)" a] Cons.prems(3,5) by simp
  then have "cmp k a > 0" using cmp_swap [of a k] Cons.prems(3) \<open>length a = K\<close> by simp
  then show ?case using Cons e by auto
qed simp

lemma hd_put:
  assumes "keyed K es" "length k = K"
  shows "fst (hd (put cmp k v es)) = (if es = [] \<or> cmp k (fst (hd es)) < 0 then k else fst (hd es))"
proof (cases es)
  case (Cons e fs)
  then show ?thesis using assms cmp_zero [of k "fst e"] by (cases e) auto
qed simp

lemma length_put:
  assumes "asc cmp es" "keyed K es" "length k = K"
  shows "length (put cmp k v es) = (if k \<in> fst ` set es then length es else Suc (length es))"
  using assms
proof (induction es)
  case (Cons e es)
  obtain a b where e: "e = (a, b)" by (cases e)
  have f: "a \<notin> fst ` set es" if "k = a" using that Cons.prems e cmp_zero [of a a] by auto
  have g: "k \<notin> fst ` set es" if "cmp k a < 0"
    using that Cons.prems e cmp_swap [of a k] by (auto simp: keyed_def)
  show ?case using Cons e f g cmp_zero [of k a] by (cases "cmp k a" "0 :: int" rule: linorder_cases) auto
qed simp

end

section \<open>Nodes as sorted lists\<close>

text \<open>Adding and removing entries changes the number of entries and the data.\<close>

definition entry_change :: "bnode \<Rightarrow> bnode \<Rightarrow> bool" where
  "entry_change n n' \<longleftrightarrow> n' = n\<lparr>bn_nentry := bn_nentry n', bn_data := bn_data n'\<rparr> \<and> same_end (bn_data n) (bn_data n')"

lemma data_entry_change: "data_change n n' \<Longrightarrow> entry_change n (n'\<lparr>bn_nentry := m\<rparr>)" "data_change n n' \<Longrightarrow> entry_change n n'"
  by (cases n; cases n'; simp add: data_change_def entry_change_def)+

lemma entry_change_refl: "entry_change n n"
  by (simp add: entry_change_def same_end_def)

lemma entry_change_trans: "entry_change a b \<Longrightarrow> entry_change b c \<Longrightarrow> entry_change a c"
  by (cases a; cases b; cases c) (simp add: entry_change_def same_end_def)

text \<open>
  A node fills its block of \<open>N\<close> bytes, its sections agree with the header, and the last byte is the
  block marker.
\<close>

definition node_ok :: "nat \<Rightarrow> bnode \<Rightarrow> bool" where
  "node_ok N n \<longleftrightarrow> sizeof_bnode + length (payload n) = N \<and> bn_data n \<noteq> [] \<and> last (bn_data n) = BLK_MARKER_BNODE \<and>
     length (bn_meta n) = (if has_meta n then sizeof_metasize + metasize_align (metasize n) else 0)"

lemma metasize_align_le: "m \<le> metasize_align m"
  unfolding metasize_align_def sizeof_metasize_def METASIZE_ALIGN_UNIT_def by linarith

lemma fetch_node_ok: "node_ok N n \<Longrightarrow> fetch_bnode n = n"
  by (simp add: fetch_bnode_def set_data_def payload_def node_ok_def split: if_splits)

lemma metasize_meta: "2 \<le> length (bn_meta n) \<Longrightarrow> metasize n = unat (dec16 (mem_word (take 2 (bn_meta n))))"
  by (simp add: metasize_def payload_def sizeof_metasize_def)

lemma node_ok_metasize: "node_ok N n \<Longrightarrow> has_meta n \<Longrightarrow> metasize n = unat (dec16 (mem_word (take 2 (bn_meta n))))"
  by (intro metasize_meta) (simp add: node_ok_def sizeof_metasize_def)

lemma node_ok_entry_change:
  assumes "node_ok N n" "entry_change n n'"
  shows "node_ok N n'"
proof -
  have e: "bn_meta n' = bn_meta n" "bn_flag n' = bn_flag n" "length (bn_data n') = length (bn_data n)" "last (bn_data n') = last (bn_data n)"
    using assms(2) by (cases n; cases n'; simp add: entry_change_def same_end_def)+
  moreover have "metasize n' = metasize n" if "has_meta n"
    using that assms(1) e(1) metasize_meta [of n] metasize_meta [of n'] by (simp add: node_ok_def sizeof_metasize_def)
  moreover have "bn_data n' \<noteq> []" using assms(1) e(3) by (auto simp: node_ok_def)
  ultimately show ?thesis using assms(1) by (auto simp: node_ok_def payload_def has_meta_def)
qed

lemma node_ok_header: "node_ok N (n\<lparr>bn_nentry := x\<rparr>) = node_ok N n" "node_ok N (n\<lparr>bn_level := l\<rparr>) = node_ok N n"
  by (simp_all add: node_ok_def payload_def has_meta_def metasize_def)

lemma kvsize_roundtrip:
  assumes "k < 256" "v < 256"
  shows "ksize_of (push_bit 8 (word_of_nat k) OR word_of_nat v) = k" "vsize_of (push_bit 8 (word_of_nat k) OR word_of_nat v) = v"
proof -
  have b: "i < 8" if "m < 256" "bit m i" for m i :: nat
  proof (rule ccontr)
    assume "\<not> i < 8"
    then have "m < 2 ^ i" using that(1) power_increasing [of 8 i "2 :: nat"] by simp
    then show False using that(2) by (simp add: bit_iff_odd)
  qed
  let ?x = "push_bit 8 (word_of_nat k) OR word_of_nat v :: u16"
  have m: "0xff00 = push_bit 8 (mask 8 :: u16)" "0x00ff = (mask 8 :: u16)" by (simp_all add: mask_eq_exp_minus_1 push_bit_eq_mult)
  have "drop_bit 8 (?x AND 0xff00) = word_of_nat k"
    using b [OF assms(1)] b [OF assms(2)] unfolding m by (intro bit_word_eqI) (auto simp: bit_simps)
  then show "ksize_of ?x = k" using assms(1) by (simp add: ksize_of_def unat_of_nat)
  have "?x AND 0x00ff = word_of_nat v"
    using b [OF assms(2)] unfolding m by (intro bit_word_eqI) (auto simp: bit_simps)
  then show "vsize_of ?x = v" using assms(2) by (simp add: vsize_of_def unat_of_nat)
qed

context kv_layer
begin

abbreviation rep :: "bnode \<Rightarrow> (buf \<times> buf) list \<Rightarrow> bool" where "rep n es \<equiv> node_rep K V n es"

lemma rep_keyed: "rep n es \<Longrightarrow> keyed K es" and rep_sized: "rep n es \<Longrightarrow> sized K V es" and rep_nentry: "rep n es \<Longrightarrow> bn_nentry n = length es"
  by (auto simp: node_rep_def sized_keyed)

lemma find_loop_spec:
  assumes "rep n es" "asc (kv_cmp ops) es" "length key = K"
    "start < length es" "\<not> kv_cmp ops key (fst (es ! start)) < 0"
    "endp = 0 \<and> key = fst (es ! start) \<or>
      start < endp \<and> endp \<le> length es \<and> (endp < length es \<longrightarrow> kv_cmp ops key (fst (es ! endp)) < 0)"
  shows "rank (kv_cmp ops) key es = Suc (find_entry_loop ops n key start endp)"
  using assms(4-)
proof (induction "endp - start" arbitrary: start endp rule: less_induct)
  case less
  have k: "length (fst (es ! i)) = K" if "i < length es" for i using that rep_keyed [OF assms(1)] by (rule keyed_nth [rotated])
  show ?case
  proof (cases "start + 1 < endp")
    case False
    then have "find_entry_loop ops n key start endp = start" by (simp add: find_entry_loop.simps)
    moreover have "kv_cmp ops key (fst (es ! Suc start)) < 0" if "Suc start < length es"
    proof (cases "endp = 0")
      case True
      then show ?thesis using less.prems(3) asc_nth [OF assms(2), of start "Suc start"] that by simp
    next
      case nz: False
      then have "endp = Suc start" using False less.prems(3) by simp
      then show ?thesis using less.prems(3) that by simp
    qed
    ultimately show ?thesis using rank_eq [OF assms(2) rep_keyed [OF assms(1)] assms(3) less.prems(1,2)] by simp
  next
    case True
    define m where "m = (start + endp) div 2"
    have m: "start < m" "m < endp" using True by (auto simp: m_def)
    have e: "endp \<le> length es" "endp < length es \<longrightarrow> kv_cmp ops key (fst (es ! endp)) < 0" using True less.prems(3) by auto
    have g: "fst (kv_get ops n m) = fst (es ! m)" using get [OF assms(1), of m] m e by simp
    define c where "c = kv_cmp ops key (fst (es ! m))"
    have u: "find_entry_loop ops n key start endp =
      (if c < 0 then find_entry_loop ops n key start m else if c = 0 then find_entry_loop ops n key m 0 else find_entry_loop ops n key m endp)"
      using True by (subst find_entry_loop.simps) (simp add: Let_def g cmp_map sgn_if flip: m_def c_def)
    show ?thesis
    proof (cases c "0 :: int" rule: linorder_cases)
      case less
      with u m e c_def less.hyps [of m start] less.prems show ?thesis by auto
    next
      case equal
      then have "key = fst (es ! m)" using cmp_zero [of key "fst (es ! m)"] assms(3) k [of m] m e by (simp add: c_def)
      with u equal m e c_def less.hyps [of 0 m] less.prems show ?thesis by auto
    next
      case greater
      with u m e c_def less.hyps [of endp m] less.prems show ?thesis by auto
    qed
  qed
qed

lemma find_entry_spec:
  assumes "rep n es" "asc (kv_cmp ops) es" "length key = K"
  shows "btree_find_entry ops n key = (case rank (kv_cmp ops) key es of 0 \<Rightarrow> None | Suc r \<Rightarrow> Some r)"
proof (cases "es = [] \<or> kv_cmp ops key (fst (hd es)) < 0")
  case True
  then show ?thesis using rank_zero [of key es] rep_nentry [OF assms(1)] get [OF assms(1), of 0]
    by (cases "es = []") (auto simp: btree_find_entry_def hd_conv_nth)
next
  case False
  let ?l = "length es - 1"
  have ne: "es \<noteq> []" and h: "\<not> kv_cmp ops key (fst (es ! 0)) < 0" using False by (auto simp: hd_conv_nth)
  note rank_eq' = rank_eq [OF assms(2) rep_keyed [OF assms(1)] assms(3)]
  have g: "kv_get ops n i = es ! i" if "i < length es" for i using get [OF assms(1) that] .
  show ?thesis
  proof (cases "kv_cmp ops key (fst (es ! ?l)) < 0")
    case True
    have "rank (kv_cmp ops) key es = Suc (find_entry_loop ops n key 0 (length es))"
      using ne h by (intro find_loop_spec [OF assms]) auto
    then show ?thesis using ne h True g rep_nentry [OF assms(1)] by (simp add: btree_find_entry_def)
  next
    case l: False
    have "rank (kv_cmp ops) key es = Suc ?l" using ne l by (intro rank_eq') auto
    then show ?thesis using ne h l g rep_nentry [OF assms(1)] by (auto simp: btree_find_entry_def split: nat.splits)
  qed
qed

lemma add_entry_spec:
  assumes "rep n es" "asc (kv_cmp ops) es" "length key = K" "length val = V"
    "room K V n (Suc (length es)) \<or> key \<in> fst ` set es"
  shows "rep (snd (btree_add_entry ops n key val)) (put (kv_cmp ops) key val es) \<and>
    entry_change n (snd (btree_add_entry ops n key val))"
proof -
  note f = find_entry_spec [OF assms(1-3)] and p = put_rank [OF assms(2) rep_keyed [OF assms(1)] assms(3), of val]
  let ?r = "rank (kv_cmp ops) key es"
  have rl: "?r \<le> length es" by (rule rank_le)
  have ne: "bn_nentry n = length es" by (rule rep_nentry [OF assms(1)])
  show ?thesis
  proof (cases "?r > 0 \<and> kv_cmp ops key (fst (es ! (?r - 1))) = 0")
    case True
    then have i: "?r - 1 < length es" "btree_find_entry ops n key = Some (?r - 1)" "0 < length es"
      using rl f by (auto split: nat.splits)
    moreover have "kv_cmp ops key (fst (kv_get ops n (?r - 1))) = 0" using True get [OF assms(1) i(1)] by simp
    ultimately have "snd (btree_add_entry ops n key val) = kv_set ops n (?r - 1) key val"
      using ne by (auto simp: btree_add_entry_def)
    then show ?thesis using True p set_at [OF assms(1) i(1) assms(3,4)] data_entry_change by auto
  next
    case False
    have pr: "put (kv_cmp ops) key val es = take ?r es @ (key, val) # drop ?r es" using p False by (auto simp: Let_def)
    have "key \<notin> fst ` set es"
    proof
      assume "key \<in> fst ` set es"
      then have "length (put (kv_cmp ops) key val es) = length es"
        using length_put [OF assms(2) rep_keyed [OF assms(1)] assms(3)] by simp
      then show False unfolding pr by simp
    qed
    then have rm: "room K V n (Suc (length es))" using assms(5) by simp
    have "snd (btree_add_entry ops n key val) =
      (if ?r < length es then kv_ins ops n ?r (Some (key, val)) else kv_set ops n ?r key val)\<lparr>bn_nentry := Suc (length es)\<rparr>"
    proof (cases "?r = 0")
      case True
      then show ?thesis using f ne by (auto simp: btree_add_entry_def)
    next
      case r: False
      then have i: "?r - 1 < length es" "btree_find_entry ops n key = Some (?r - 1)" using rl f by (auto split: nat.splits)
      with False r have "kv_cmp ops key (fst (kv_get ops n (?r - 1))) \<noteq> 0" using get [OF assms(1) i(1)] by simp
      with i r ne show ?thesis by (auto simp: btree_add_entry_def)
    qed
    then show ?thesis
      using insert_at [OF assms(1) _ rm assms(3,4), of ?r] set_end [OF assms(1) rm assms(3,4)] rl data_entry_change
      unfolding pr by (cases "?r < length es") auto
  qed
qed

text \<open>Removing the entry of a key that is present.\<close>

lemma rank_present:
  assumes "asc (kv_cmp ops) es" "keyed K es" "i < length es"
  shows "rank (kv_cmp ops) (fst (es ! i)) es = Suc i"
  using assms keyed_nth [OF assms(2,3)] asc_nth [OF assms(1), of i "Suc i"] by (intro rank_eq) auto

lemma remove_entry_spec:
  assumes "rep n es" "asc (kv_cmp ops) es" "i < length es"
  shows "rep (snd (btree_remove_entry ops n (fst (es ! i)))) (take i es @ drop (Suc i) es) \<and>
    entry_change n (snd (btree_remove_entry ops n (fst (es ! i))))"
proof -
  have "btree_find_entry ops n (fst (es ! i)) = Some i"
    using find_entry_spec [OF assms(1,2)] keyed_nth [OF rep_keyed [OF assms(1)] assms(3)]
      rank_present [OF assms(2) rep_keyed [OF assms(1)] assms(3)] by simp
  then show ?thesis using remove_at [OF assms(1,3)] rep_nentry [OF assms(1)] assms(3) data_entry_change
    by (auto simp: btree_remove_entry_def)
qed

text \<open>The size check asks whether the entries leave room for the marker; a full node splits in two.\<close>

lemma size_check:
  assumes "rep n es" "node_ok N n"
  shows "bnode_size_check ops N n mk kvs =
    (room K V n (length es + length kvs), sizeof_bnode + length (bn_meta n) + (length es + length kvs) * (K + V))"
proof -
  have "bn_data n \<noteq> []" using assms(2) by (simp add: node_ok_def)
  then show ?thesis using assms(2) data_size [OF assms(1), of mk kvs]
    by (cases "bn_data n")
      (auto simp: bnode_size_check_def bnode_size_def node_ok_def room_def payload_def BLK_MARKER_SIZE_def Let_def sizeof_bnode_def sizeof_metasize_def)
qed

lemma nsplitnode:
  assumes "rep n es" "node_ok N n" "es \<noteq> []" "\<not> room K V n (Suc (length es))"
  shows "btree_get_nsplitnode N n (sizeof_bnode + length (bn_meta n) + Suc (length es) * (K + V)) = 2"
proof -
  define D where "D = length (bn_data n) - 1"
  have d: "bn_data n \<noteq> []" using assms(2) by (simp add: node_ok_def)
  have c: "length es * (K + V) \<le> D" "D < Suc (length es) * (K + V)"
    using node_rep_length [OF assms(1)] assms(4) d by (auto simp: D_def room_def)
  have kv: "K + V \<le> length es * (K + V)" using assms(3) by (cases es) auto
  have pos: "0 < D" using c kv by (cases "K + V") auto
  have hd: "N - BLK_MARKER_SIZE - (sizeof_bnode + length (bn_meta n)) = D"
    "(if has_meta n then sizeof_bnode + metasize_align (metasize n) + sizeof_metasize else sizeof_bnode) = sizeof_bnode + length (bn_meta n)"
    using assms(2) by (auto simp: node_ok_def payload_def BLK_MARKER_SIZE_def D_def)
  define x where "x = Suc (length es) * (K + V)"
  have x: "x = K + V + length es * (K + V)" by (simp add: x_def)
  have "D < x" using c(2) by (simp only: x_def)
  moreover have "x \<le> 2 * D" using c(1) kv unfolding x by linarith
  ultimately have "(x + (D - 1)) div D = 2" using pos by (intro div_nat_eqI) auto
  then show ?thesis unfolding btree_get_nsplitnode_def Let_def hd(2) unfolding hd(1) x_def by simp
qed

lemma init_node_plain:
  assumes "sizeof_bnode + length (payload addr) = N" "payload addr \<noteq> []" "last (payload addr) = BLK_MARKER_BNODE"
    "K < 256" "V < 256" "flags AND BNODE_MASK_METADATA = 0"
    "n = btree_init_node K V addr flags level meta"
  shows "rep n []" "node_ok N n" "bn_flag n = flags" "bn_level n = level" "bn_meta n = []" "bn_data n = payload addr" "\<not> has_meta n"
proof -
  have n: "n = set_data (addr\<lparr>bn_kvsize := push_bit 8 (word_of_nat K) OR word_of_nat V, bn_nentry := 0, bn_level := level, bn_flag := flags\<rparr>) 0"
    using assms(6,7) by (simp add: btree_init_node_def Let_def split: option.splits)
  have p: "payload (addr\<lparr>bn_kvsize := x, bn_nentry := y, bn_level := z, bn_flag := w\<rparr>) = payload addr" for x y z w
    by (simp add: payload_def)
  show f: "bn_flag n = flags" "bn_level n = level" "bn_meta n = []" "bn_data n = payload addr" by (simp_all add: n set_data_def p)
  show h: "\<not> has_meta n" using assms(6) f by (simp add: has_meta_def)
  show "rep n []" using kvsize_roundtrip [OF assms(4,5)] assms(2) f unfolding node_rep_def by (simp add: n set_data_def)
  show "node_ok N n" using assms(1-3) f h by (simp add: node_ok_def payload_def)
qed

lemma init_node_meta:
  assumes "sizeof_bnode + length (payload addr) = N" "last (payload addr) = BLK_MARKER_BNODE"
    "K < 256" "V < 256" "flags AND BNODE_MASK_METADATA \<noteq> 0"
    "length data < 2 ^ 16" "sizeof_metasize + metasize_align (length data) < length (payload addr)"
    "n = btree_init_node K V addr flags level (Some data)"
  shows "rep n []" "node_ok N n" "bn_flag n = flags" "bn_level n = level" "metasize n = length data"
    "take (length data) (drop sizeof_metasize (bn_meta n)) = data" "has_meta n"
    "length (bn_meta n) = sizeof_metasize + metasize_align (length data)"
proof -
  let ?m = "word_mem 2 (enc16 (word_of_nat (length data))) @ data" and ?l = "sizeof_metasize + metasize_align (length data)"
  define q where "q = mem_write (payload addr) 0 ?m"
  have lm: "length ?m \<le> ?l" using metasize_align_le [of "length data"] by (simp add: sizeof_metasize_def)
  have q: "length q = length (payload addr)" "last q = last (payload addr)" "take (length ?m) q = ?m"
    using lm assms(7) same_end_write [OF _ same_end_refl, of 0 ?m "payload addr"] by (auto simp: q_def same_end_def mem_write_def)
  have n: "n = addr\<lparr>bn_kvsize := push_bit 8 (word_of_nat K) OR word_of_nat V, bn_nentry := 0, bn_level := level, bn_flag := flags,
      bn_meta := take ?l q, bn_data := drop ?l q\<rparr>"
    using assms(5,8) by (simp add: btree_init_node_def set_data_def Let_def payload_def q_def)
  show f: "bn_flag n = flags" "bn_level n = level" "has_meta n" "length (bn_meta n) = ?l"
    using assms(5,7) q(1) by (simp_all add: n has_meta_def)
  have t: "take (length ?m) (bn_meta n) = ?m" using q(3) lm by (simp add: n min_def)
  have "take 2 (bn_meta n) = take 2 (take (length ?m) (bn_meta n))" by (simp add: min_def)
  also have "\<dots> = word_mem 2 (enc16 (word_of_nat (length data)))" unfolding t by simp
  finally have t2: "take 2 (bn_meta n) = word_mem 2 (enc16 (word_of_nat (length data)))" .
  show ms: "metasize n = length data"
    using metasize_meta [of n] f(4) assms(6) unfolding t2 by (simp add: sizeof_metasize_def mem_word_word_mem unat_of_nat)
  have "take (length data) (drop 2 (bn_meta n)) = drop 2 (take (length ?m) (bn_meta n))" by (simp add: drop_take)
  then show "take (length data) (drop sizeof_metasize (bn_meta n)) = data" unfolding t by (simp add: sizeof_metasize_def)
  have dn: "drop ?l q \<noteq> []" "last (drop ?l q) = last (payload addr)" using q(1,2) assms(7) by auto
  show "rep n []" using kvsize_roundtrip [OF assms(3,4)] dn(1) unfolding node_rep_def by (simp add: n)
  have "length (payload n) = length (payload addr)" using q(1) by (simp add: n payload_def)
  then show "node_ok N n" using assms(1,2) f(3,4) ms dn by (simp add: node_ok_def) (simp add: n)
qed

end

end
