(* ===== verification/Btree.thy ===== *)
theory Btree
  imports Btree_Node "HOL-Library.Monad_Syntax"
begin

text \<open>
  The B+-tree (\<^verbatim>\<open>src/btree.cc\<close>): creating and opening a tree, the metadata of the root, finding,
  inserting and removing keys. The tree reaches its blocks through a table of operations on a block
  handle and its entries through a table of operations on nodes. \<open>None\<close> stands for the use of a block
  that could not be read or allocated, and for a failed assertion.
\<close>

unbundle bit_operations_syntax

section \<open>Trees\<close>

datatype btree_result = BTREE_RESULT_SUCCESS | BTREE_RESULT_UPDATE | BTREE_RESULT_FAIL

text \<open>
  The block operations. The code gets an address from reading, allocating and moving and changes the
  block through it; here these operations return the contents and \<open>blk_store\<close> is an assignment
  through the address. The entries for sub-blocks and for the end of an operation are null in the
  table that the tree is used with.
\<close>

record 'h btree_blk_ops =
  blk_alloc :: "'h \<Rightarrow> (nat \<times> bnode \<times> 'h) option"
  blk_read :: "'h \<Rightarrow> nat \<Rightarrow> (bnode \<times> 'h) option"
  blk_store :: "'h \<Rightarrow> nat \<Rightarrow> bnode \<Rightarrow> 'h"
  blk_move :: "'h \<Rightarrow> nat \<Rightarrow> (nat \<times> bnode \<times> 'h) option"
  blk_remove :: "'h \<Rightarrow> nat \<Rightarrow> 'h"
  blk_is_writable :: "'h \<Rightarrow> nat \<Rightarrow> bool"
  blk_get_size :: "'h \<Rightarrow> nat \<Rightarrow> nat"
  blk_set_dirty :: "'h \<Rightarrow> nat \<Rightarrow> 'h"

record 'h btree =
  bt_ksize :: nat
  bt_vsize :: nat
  bt_height :: nat
  bt_blksize :: nat
  bt_root_bid :: nat
  bt_handle :: 'h
  bt_blk_ops :: "'h btree_blk_ops"
  bt_kv_ops :: kv_ops
  bt_root_flag :: u16

text \<open>Block operations on the handle of a tree. A block is always fetched as a node when it is read.\<close>

definition bt_read :: "'h btree \<Rightarrow> nat \<Rightarrow> (bnode \<times> 'h btree) option" where
  "bt_read bt bid = map_option (\<lambda>(n, h). (fetch_bnode n, bt\<lparr>bt_handle := h\<rparr>)) (blk_read (bt_blk_ops bt) (bt_handle bt) bid)"

definition bt_store :: "'h btree \<Rightarrow> nat \<Rightarrow> bnode \<Rightarrow> 'h btree" where
  "bt_store bt bid n = bt\<lparr>bt_handle := blk_store (bt_blk_ops bt) (bt_handle bt) bid n\<rparr>"

definition bt_alloc :: "'h btree \<Rightarrow> (nat \<times> bnode \<times> 'h btree) option" where
  "bt_alloc bt = map_option (\<lambda>(b, n, h). (b, n, bt\<lparr>bt_handle := h\<rparr>)) (blk_alloc (bt_blk_ops bt) (bt_handle bt))"

definition bt_move :: "'h btree \<Rightarrow> nat \<Rightarrow> (nat \<times> bnode \<times> 'h btree) option" where
  "bt_move bt bid = map_option (\<lambda>(b, n, h). (b, fetch_bnode n, bt\<lparr>bt_handle := h\<rparr>)) (blk_move (bt_blk_ops bt) (bt_handle bt) bid)"

definition bt_remove :: "'h btree \<Rightarrow> nat \<Rightarrow> 'h btree" where
  "bt_remove bt bid = bt\<lparr>bt_handle := blk_remove (bt_blk_ops bt) (bt_handle bt) bid\<rparr>"

definition bt_set_dirty :: "'h btree \<Rightarrow> nat \<Rightarrow> 'h btree" where
  "bt_set_dirty bt bid = bt\<lparr>bt_handle := blk_set_dirty (bt_blk_ops bt) (bt_handle bt) bid\<rparr>"

definition bt_is_writable :: "'h btree \<Rightarrow> nat \<Rightarrow> bool" where
  "bt_is_writable bt bid = blk_is_writable (bt_blk_ops bt) (bt_handle bt) bid"

definition bt_get_size :: "'h btree \<Rightarrow> nat \<Rightarrow> nat" where
  "bt_get_size bt bid = blk_get_size (bt_blk_ops bt) (bt_handle bt) bid"

text \<open>The block number in the value of an index entry is stored in big-endian byte order.\<close>

definition value_bid :: "kv_ops \<Rightarrow> buf \<Rightarrow> nat" where "value_bid ops v = unat (dec64 (kv_value2bid ops v))"
definition bid_val :: "kv_ops \<Rightarrow> nat \<Rightarrow> buf" where "bid_val ops bid = kv_bid2value ops (enc64 (word_of_nat bid))"

section \<open>Metadata of the root\<close>

definition btree_read_meta :: "'h btree \<Rightarrow> (buf \<times> 'h btree) option" where
  "btree_read_meta bt = do {
     (node, bt1) \<leftarrow> bt_read bt (bt_root_bid bt);
     Some (if has_meta node then mem_read (payload node) sizeof_metasize (metasize node) else [], bt1)
   }"

text \<open>
  Overwriting the metadata moves the entries when the section shrinks; removing it moves them behind
  the header. The size of missing metadata counts as 0xffff.
\<close>

definition overwrite_meta :: "kv_ops \<Rightarrow> bnode \<Rightarrow> buf \<Rightarrow> bnode option" where
  "overwrite_meta ops node data =
     (let old = (if has_meta node then metasize node else 0xffff); msize = length data;
          p1 = (if msize > 0 then mem_write (payload node) 0 (word_mem 2 (enc16 (word_of_nat msize)) @ data) else payload node);
          flags = (if msize > 0 then bn_flag node OR BNODE_MASK_METADATA else bn_flag node AND NOT BNODE_MASK_METADATA);
          p2 = (if metasize_align msize < metasize_align old
                then mem_write p1 (sizeof_metasize + metasize_align msize)
                       (mem_read p1 (length (bn_meta node)) (kv_data_size ops node None []))
                else p1)
      in if msize \<le> old then Some (fetch_bnode (node\<lparr>bn_flag := flags, bn_meta := [], bn_data := p2\<rparr>)) else None)"

definition strip_meta :: "kv_ops \<Rightarrow> bnode \<Rightarrow> bnode" where
  "strip_meta ops node =
     (if has_meta node
      then node\<lparr>bn_flag := bn_flag node AND NOT BNODE_MASK_METADATA, bn_meta := [],
             bn_data := mem_write (payload node) 0 (mem_read (bn_data node) 0 (kv_data_size ops node None []))\<rparr>
      else node)"

text \<open>The first component is the contents of the old root block, which the caller may still point to.\<close>

definition btree_update_meta :: "'h btree \<Rightarrow> buf option \<Rightarrow> (bnode \<times> 'h btree) option" where
  "btree_update_meta bt meta = do {
     (node, bt1) \<leftarrow> bt_read bt (bt_root_bid bt);
     node1 \<leftarrow> (case meta of Some data \<Rightarrow> overwrite_meta (bt_kv_ops bt) node data | None \<Rightarrow> Some (strip_meta (bt_kv_ops bt) node));
     let bt2 = bt_store bt1 (bt_root_bid bt) node1;
     if \<not> bt_is_writable bt2 (bt_root_bid bt) then do {
       (new_bid, _, bt3) \<leftarrow> bt_move bt2 (bt_root_bid bt);
       Some (node1, bt3\<lparr>bt_root_bid := new_bid\<rparr>)
     } else Some (node1, bt_set_dirty bt2 (bt_root_bid bt))
   }"

section \<open>Opening and creating\<close>

definition btree_init_from_bid :: "'h \<Rightarrow> 'h btree_blk_ops \<Rightarrow> kv_ops \<Rightarrow> nat \<Rightarrow> nat \<Rightarrow> 'h btree option" where
  "btree_init_from_bid handle blk_ops kv_ops nodesize root_bid = do {
     let bt = \<lparr>bt_ksize = 0, bt_vsize = 0, bt_height = 0, bt_blksize = nodesize, bt_root_bid = root_bid,
               bt_handle = handle, bt_blk_ops = blk_ops, bt_kv_ops = kv_ops, bt_root_flag = 0\<rparr>;
     (root, bt1) \<leftarrow> bt_read bt root_bid;
     Some (bt1\<lparr>bt_root_flag := bn_flag root, bt_height := bn_level root, bt_ksize := ksz root, bt_vsize := vsz root\<rparr>)
   }"

definition btree_init ::
    "'h \<Rightarrow> 'h btree_blk_ops \<Rightarrow> kv_ops \<Rightarrow> nat \<Rightarrow> nat \<Rightarrow> nat \<Rightarrow> u16 \<Rightarrow> buf option \<Rightarrow> (btree_result \<times> 'h btree) option" where
  "btree_init handle blk_ops kv_ops nodesize ksize vsize flags meta = do {
     let bt = \<lparr>bt_ksize = ksize, bt_vsize = vsize, bt_height = 1, bt_blksize = nodesize, bt_root_bid = 0,
               bt_handle = handle, bt_blk_ops = blk_ops, bt_kv_ops = kv_ops,
               bt_root_flag = (BNODE_MASK_ROOT OR flags) OR (if meta = None then 0 else BNODE_MASK_METADATA)\<rparr>;
     let min_nodesize = (case meta of
           Some data \<Rightarrow> sizeof_bnode + metasize_align (length data) + sizeof_metasize + BLK_MARKER_SIZE
         | None \<Rightarrow> sizeof_bnode + BLK_MARKER_SIZE);
     if min_nodesize > nodesize then Some (BTREE_RESULT_FAIL, bt)
     else do {
       (root_bid, addr, bt1) \<leftarrow> bt_alloc bt;
       let bt2 = bt1\<lparr>bt_root_bid := root_bid\<rparr>;
       Some (BTREE_RESULT_SUCCESS, bt_store bt2 root_bid (btree_init_node ksize vsize addr (bt_root_flag bt2) 1 meta))
     }
   }"

section \<open>Finding\<close>

fun btree_find_at :: "'h btree \<Rightarrow> buf \<Rightarrow> nat \<Rightarrow> nat \<Rightarrow> (btree_result \<times> buf option \<times> 'h btree) option" where
  "btree_find_at bt key 0 bid = Some (BTREE_RESULT_SUCCESS, None, bt)"
| "btree_find_at bt key (Suc i) bid = do {
     (node, bt1) \<leftarrow> bt_read bt bid;
     (case btree_find_entry (bt_kv_ops bt) node key of
        None \<Rightarrow> Some (BTREE_RESULT_FAIL, None, bt1)
      | Some idx \<Rightarrow>
          (let (k, v) = kv_get (bt_kv_ops bt) node idx in
           if i > 0 then btree_find_at bt1 key i (value_bid (bt_kv_ops bt) v)
           else if kv_cmp (bt_kv_ops bt) key k = 0 then Some (BTREE_RESULT_SUCCESS, Some v, bt1)
           else Some (BTREE_RESULT_FAIL, None, bt1)))
   }"

definition btree_find :: "'h btree \<Rightarrow> buf \<Rightarrow> (btree_result \<times> buf option \<times> 'h btree) option" where
  "btree_find bt key = btree_find_at bt key (bt_height bt) (bt_root_bid bt)"

section \<open>Inserting\<close>

text \<open>
  The path from the root to the leaf, leaf first: the block number, the node and the index of each
  level. In an index node the smallest entry is followed when the key is smaller than all.
\<close>

type_synonym path = "(nat \<times> bnode \<times> nat option) list"

fun insert_path :: "'h btree \<Rightarrow> buf \<Rightarrow> nat \<Rightarrow> nat \<Rightarrow> (path \<times> 'h btree) option" where
  "insert_path bt key 0 bid = Some ([], bt)"
| "insert_path bt key (Suc i) bid = do {
     (node, bt1) \<leftarrow> bt_read bt bid;
     let idx = btree_find_entry (bt_kv_ops bt) node key;
     if i > 0 then do {
       let j = (case idx of None \<Rightarrow> 0 | Some j \<Rightarrow> j);
       (rest, bt2) \<leftarrow> insert_path bt1 key i (value_bid (bt_kv_ops bt) (snd (kv_get (bt_kv_ops bt) node j)));
       Some (rest @ [(bid, node, Some j)], bt2)
     } else Some ([(bid, node, idx)], bt1)
   }"

text \<open>Allocating the blocks that a split needs; the result has the numbers and the empty nodes.\<close>

fun alloc_nodes :: "'h btree \<Rightarrow> nat \<Rightarrow> nat \<Rightarrow> ((nat \<times> bnode) list \<times> 'h btree) option" where
  "alloc_nodes bt level 0 = Some ([], bt)"
| "alloc_nodes bt level (Suc j) = do {
     (b, addr, bt1) \<leftarrow> bt_alloc bt;
     (rest, bt2) \<leftarrow> alloc_nodes bt1 level j;
     Some ((b, btree_init_node (bt_ksize bt) (bt_vsize bt) addr 0 level None) # rest, bt2)
   }"

text \<open>The nodes after the entries of the full node were distributed; the first one is the node itself.\<close>

definition distribute :: "kv_ops \<Rightarrow> bnode \<Rightarrow> bnode list \<Rightarrow> bnode list" where
  "distribute ops node fresh =
     (let nnode = Suc (length fresh);
          split_idx = (\<lambda>j. kv_nth_idx ops node j nnode);
          nentry = (\<lambda>j. split_idx (j + 1) - split_idx j);
          copied = map (\<lambda>j. kv_copy ops False (fresh ! (j - 1)) node 0 (split_idx j) (nentry j)) [1..<nnode];
          first = kv_copy ops True node node 0 (split_idx 0) (nentry 0)
      in map (\<lambda>j. (if j = 0 then first else copied ! (j - 1))\<lparr>bn_nentry := nentry j\<rparr>) [0..<nnode])"

text \<open>A pending entry goes before the first node, other than the first one, whose smallest key exceeds it.\<close>

fun split_slot :: "kv_ops \<Rightarrow> buf \<Rightarrow> bnode list \<Rightarrow> nat \<Rightarrow> nat" where
  "split_slot ops key [] j = j"
| "split_slot ops key (n # ns) j = (if kv_cmp ops key (fst (kv_get ops n 0)) < 0 then j else split_slot ops key ns (j + 1))"

definition split_insert :: "kv_ops \<Rightarrow> bnode list \<Rightarrow> buf \<times> buf \<Rightarrow> bnode list" where
  "split_insert ops nodes item =
     (let j = split_slot ops (fst item) (tl nodes) 0
      in nodes[j := snd (btree_add_entry ops (nodes ! j) (fst item) (snd item))])"

definition replace_key :: "kv_ops \<Rightarrow> bnode \<Rightarrow> nat \<Rightarrow> buf \<Rightarrow> bnode" where
  "replace_key ops node idx key = kv_set ops node idx key (snd (kv_get ops node idx))"

fun store_nodes :: "'h btree \<Rightarrow> (nat \<times> bnode) list \<Rightarrow> 'h btree" where
  "store_nodes bt [] = bt"
| "store_nodes bt ((b, n) # ns) = store_nodes (bt_store bt b n) ns"

text \<open>The entries for the new nodes: their splitters and block numbers.\<close>

fun splitters :: "kv_ops \<Rightarrow> bnode \<Rightarrow> (nat \<times> bnode) list \<Rightarrow> (buf \<times> buf) list" where
  "splitters ops prev [] = []"
| "splitters ops prev ((b, n) # ns) = (kv_nth_splitter ops prev n, bid_val ops b) # splitters ops n ns"

text \<open>
  A full root is split: its metadata goes to a new root above it, which gets an entry for the old
  root and for each new node. The old root moves if it must not be overwritten.
\<close>

definition grow_root :: "'h btree \<Rightarrow> nat \<Rightarrow> bnode \<Rightarrow> (nat \<times> bnode) list \<Rightarrow> 'h btree option" where
  "grow_root bt bid node news = do {
     let ops = bt_kv_ops bt;
     (meta, bt1) \<leftarrow> btree_read_meta bt;
     (node1, bt2) \<leftarrow> btree_update_meta bt1 None;
     let bt3 = bt2\<lparr>bt_height := bt_height bt2 + 1\<rparr>;
     (new_root_bid, addr, bt4) \<leftarrow> bt_alloc bt3;
     let new_root = btree_init_node (bt_ksize bt) (bt_vsize bt) addr (bt_root_flag bt) (bn_level node + 1)
           (if length meta > 0 then Some meta else None);
     let node2 = node1\<lparr>bn_flag := bn_flag node1 AND NOT BNODE_MASK_ROOT AND NOT BNODE_MASK_SEQTREE\<rparr>;
     let bt5 = (bt_store bt4 bid node2)\<lparr>bt_root_bid := new_root_bid\<rparr>;
     (bid1, node3, bt6) \<leftarrow> (if \<not> bt_is_writable bt5 bid then bt_move bt5 bid else Some (bid, node2, bt_set_dirty bt5 bid));
     let entries = (fst (kv_get ops node3 0), bid_val ops bid1) # splitters ops node3 news;
     Some (bt_store bt6 new_root_bid (foldl (\<lambda>n (k, v). snd (btree_add_entry ops n k v)) new_root entries))
   }"

text \<open>
  What the levels of the cascade hand on: whether the node was moved and its block number, the
  entries to be inserted into the parent, whether there are any, whether a key was updated in place,
  and whether the tree grew.
\<close>

record cascade =
  moved :: bool
  moved_bid :: nat
  kv_ins_list :: "(buf \<times> buf) list"
  ins :: bool
  is_update :: bool
  height_growup :: bool

text \<open>Splitting a node. \<open>Inl\<close> is a tree that has grown, \<open>Inr\<close> the entries for the parent.\<close>

definition btree_split_node ::
    "'h btree \<Rightarrow> buf \<Rightarrow> nat \<Rightarrow> nat \<times> bnode \<times> nat option \<Rightarrow> nat \<Rightarrow> bool \<Rightarrow> cascade \<Rightarrow> ('h btree + (buf \<times> buf) list \<times> 'h btree) option" where
  "btree_split_node bt key i p nsplitnode minkey_replace c = do {
     let (bid, node, idx) = p;
     let ops = bt_kv_ops bt;
     (news, bt1) \<leftarrow> alloc_nodes bt (bn_level node) (nsplitnode - 1);
     let nodes1 = distribute ops node (map snd news);
     let nodes2 = (if ins c then foldl (split_insert ops) nodes1 (kv_ins_list c) else nodes1);
     let first = (if minkey_replace then replace_key ops (hd nodes2) (the idx) key else hd nodes2);
     let news2 = zip (map fst news) (tl nodes2);
     let bt2 = store_nodes bt1 ((bid, first) # news2);
     if i + 1 < bt_height bt then Some (Inr (splitters ops first news2, bt2))
     else map_option Inl (grow_root bt2 bid first news2)
   }"

text \<open>A modified node moves if it must not be overwritten, and is marked for writing otherwise.\<close>

definition btree_move_modified_node :: "'h btree \<Rightarrow> nat \<Rightarrow> nat \<Rightarrow> (bool \<times> nat \<times> 'h btree) option" where
  "btree_move_modified_node bt i bid =
     (if \<not> bt_is_writable bt bid then do {
        (b, _, bt1) \<leftarrow> bt_move bt bid;
        Some (True, b, if i + 1 = bt_height bt then bt1\<lparr>bt_root_bid := b\<rparr> else bt1)
      } else Some (False, bid, bt_set_dirty bt bid))"

text \<open>Writing back a modified node, and what its parent learns.\<close>

definition finish_level :: "'h btree \<Rightarrow> nat \<Rightarrow> nat \<Rightarrow> bool \<Rightarrow> cascade \<Rightarrow> ('h btree \<times> cascade) option" where
  "finish_level bt i bid modified c =
     (if modified then do {
        (mv, b, bt1) \<leftarrow> btree_move_modified_node bt i bid;
        Some (bt1, c\<lparr>moved := mv, moved_bid := b\<rparr>)
      } else Some (bt, c\<lparr>moved := False, moved_bid := bid\<rparr>))"

text \<open>One level of the cascade of an insertion.\<close>

definition insert_level :: "'h btree \<Rightarrow> buf \<Rightarrow> nat \<Rightarrow> nat \<times> bnode \<times> nat option \<Rightarrow> cascade \<Rightarrow> ('h btree \<times> cascade) option" where
  "insert_level bt key i p c = do {
     let (bid, node, idx) = p;
     let ops = bt_kv_ops bt;
     let k = (case idx of Some j \<Rightarrow> fst (kv_get ops node j) | None \<Rightarrow> []);
     let minkey_replace = (i > 0 \<and> idx = Some 0 \<and> kv_cmp ops key k < 0);
     let relink = (i > 0 \<and> moved c);
     let node1 = (if relink then kv_set ops node (the idx) k (bid_val ops (moved_bid c)) else node);
     let bt1 = (if relink then bt_store bt bid node1 else bt);
     if ins c \<or> minkey_replace then do {
       let upd = (i = 0 \<and> idx \<noteq> None \<and> kv_cmp ops (fst (hd (kv_ins_list c))) k = 0);
       let (fits, nodesize) = bnode_size_check ops (bt_get_size bt bid) node1 (if minkey_replace then Some key else None) (kv_ins_list c);
       if fits \<or> upd then do {
         let node2 = (if ins c then foldl (\<lambda>n (a, b). snd (btree_add_entry ops n a b)) node1 (kv_ins_list c) else node1);
         let node3 = (if minkey_replace then replace_key ops node2 (the idx) key else node2);
         finish_level (bt_store bt1 bid node3) i bid True (c\<lparr>kv_ins_list := [], ins := False, is_update := upd\<rparr>)
       } else do {
         let nsplit = btree_get_nsplitnode (bt_get_size bt BLK_NOT_FOUND) node1 nodesize;
         res \<leftarrow> btree_split_node bt1 key i (bid, node1, idx) (if nsplit = 1 then 2 else nsplit) minkey_replace c;
         (case res of
            Inl bt2 \<Rightarrow> Some (bt2, c\<lparr>is_update := upd, height_growup := True\<rparr>)
          | Inr (items, bt2) \<Rightarrow> finish_level bt2 i bid True (c\<lparr>kv_ins_list := items, ins := True, is_update := upd\<rparr>))
       }
     } else finish_level bt1 i bid relink (c\<lparr>kv_ins_list := [], ins := False\<rparr>)
   }"

fun insert_levels :: "'h btree \<Rightarrow> buf \<Rightarrow> nat \<Rightarrow> path \<Rightarrow> cascade \<Rightarrow> ('h btree \<times> cascade) option" where
  "insert_levels bt key i [] c = Some (bt, c)"
| "insert_levels bt key i (p # ps) c = do {
     (bt1, c1) \<leftarrow> insert_level bt key i p c;
     if height_growup c1 then Some (bt1, c1) else insert_levels bt1 key (i + 1) ps c1
   }"

definition btree_insert :: "'h btree \<Rightarrow> buf \<Rightarrow> buf \<Rightarrow> (btree_result \<times> 'h btree) option" where
  "btree_insert bt key val = do {
     let item = (take (bt_ksize bt) key, take (bt_vsize bt) val);
     (ps, bt1) \<leftarrow> insert_path bt key (bt_height bt) (bt_root_bid bt);
     (bt2, c) \<leftarrow> insert_levels bt1 key 0 ps \<lparr>moved = False, moved_bid = 0, kv_ins_list = [item], ins = True, is_update = False, height_growup = False\<rparr>;
     Some (if is_update c then BTREE_RESULT_UPDATE else BTREE_RESULT_SUCCESS, bt2)
   }"

section \<open>Removing\<close>

text \<open>\<open>Inl\<close> is a tree in which some level has no entry for the key.\<close>

fun remove_path :: "'h btree \<Rightarrow> buf \<Rightarrow> nat \<Rightarrow> nat \<Rightarrow> ('h btree + (nat \<times> bnode \<times> nat) list \<times> 'h btree) option" where
  "remove_path bt key 0 bid = Some (Inr ([], bt))"
| "remove_path bt key (Suc i) bid = do {
     (node, bt1) \<leftarrow> bt_read bt bid;
     (case btree_find_entry (bt_kv_ops bt) node key of
        None \<Rightarrow> Some (Inl bt1)
      | Some idx \<Rightarrow>
          if i > 0 then do {
            res \<leftarrow> remove_path bt1 key i (value_bid (bt_kv_ops bt) (snd (kv_get (bt_kv_ops bt) node idx)));
            Some (case res of Inl bt2 \<Rightarrow> Inl bt2 | Inr (rest, bt2) \<Rightarrow> Inr (rest @ [(bid, node, idx)], bt2))
          } else Some (Inr ([(bid, node, idx)], bt1)))
   }"

text \<open>
  When the root is left with at most one entry, its child's entries are copied to a new root one
  level below if they fit together with the metadata. \<open>None\<close> in the result means that they do not.
\<close>

definition shrink_root :: "'h btree \<Rightarrow> bnode \<Rightarrow> ('h btree option \<times> 'h btree) option" where
  "shrink_root bt node = do {
     let ops = bt_kv_ops bt;
     let child_bid = value_bid ops (snd (kv_get ops node 0));
     (child, bt1) \<leftarrow> bt_read bt child_bid;
     let nodesize = bt_get_size bt1 child_bid - BLK_MARKER_SIZE;
     (meta, bt2) \<leftarrow> btree_read_meta bt1;
     let new_rootsize = (if length meta > 0 then metasize_align (length meta) + sizeof_metasize else 0) +
           kv_data_size ops child None [] + sizeof_bnode;
     if new_rootsize < nodesize then do {
       let bt3 = bt2\<lparr>bt_height := bt_height bt2 - 1\<rparr>;
       (new_root_bid, addr, bt4) \<leftarrow> bt_alloc bt3;
       let new_root = fetch_bnode (btree_init_node (bt_ksize bt) (bt_vsize bt) addr (bt_root_flag bt) (bt_height bt3) (Some meta));
       let new_root1 = (kv_copy ops False new_root child 0 0 (bn_nentry child))\<lparr>bn_nentry := bn_nentry child\<rparr>;
       Some (Some ((bt_remove (bt_store bt4 new_root_bid new_root1) child_bid)\<lparr>bt_root_bid := new_root_bid\<rparr>), bt2)
     } else Some (None, bt2)
   }"

text \<open>
  What a level hands on: the node and its block number, whether it was moved, and whether its entry
  in the parent has to go.
\<close>

record removal =
  rm_node :: bnode
  rm_bid :: nat
  rm_moved :: bool
  rmv :: bool

definition remove_level :: "'h btree \<Rightarrow> nat \<Rightarrow> nat \<times> bnode \<times> nat \<Rightarrow> removal \<Rightarrow> ('h btree \<times> removal) option" where
  "remove_level bt i p r = do {
     let (bid, node, idx) = p;
     let ops = bt_kv_ops bt;
     let (k, v) = kv_get ops node idx;
     let kk = fst (kv_get ops (rm_node r) 0);
     let rekey = (i > 0 \<and> bn_nentry (rm_node r) > 0 \<and> kv_cmp ops kk k \<noteq> 0);
     let node1 = (if rekey then kv_set ops node idx kk v else node);
     let relink = (i > 0 \<and> rm_moved r);
     let node2 = (if relink then kv_set ops node1 idx (if rekey then kk else k) (bid_val ops (rm_bid r)) else node1);
     let node3 = (if rmv r then snd (btree_remove_entry ops node2 (fst (kv_get ops node2 idx))) else node2);
     let modified = (rekey \<or> relink \<or> rmv r);
     let bt1 = (if modified then bt_store bt bid node3 else bt);
     let drop_node = (rmv r \<and> (bn_nentry node3 < 1 \<and> i + 1 < bt_height bt \<or> bn_nentry node3 \<le> 1 \<and> i + 1 = bt_height bt) \<and>
           bt_height bt > 1);
     let bt2 = (if drop_node then bt_remove bt1 bid else bt1);
     (shrunk, bt3) \<leftarrow> (if drop_node \<and> i + 1 = bt_height bt then shrink_root bt2 node3 else Some (None, bt2));
     (case shrunk of
        Some bt4 \<Rightarrow> Some (bt4, r\<lparr>rm_node := node3, rm_bid := bid, rm_moved := False, rmv := False\<rparr>)
      | None \<Rightarrow>
          if modified \<and> \<not> bt_is_writable bt3 bid then do {
            (b, n, bt4) \<leftarrow> bt_move bt3 bid;
            Some (if i + 1 = bt_height bt then bt4\<lparr>bt_root_bid := b\<rparr> else bt4,
              \<lparr>rm_node = n, rm_bid = b, rm_moved = True, rmv = drop_node\<rparr>)
          } else Some (if modified then bt_set_dirty bt3 bid else bt3,
              \<lparr>rm_node = node3, rm_bid = bid, rm_moved = False, rmv = drop_node\<rparr>))
   }"

fun remove_levels :: "'h btree \<Rightarrow> nat \<Rightarrow> (nat \<times> bnode \<times> nat) list \<Rightarrow> removal \<Rightarrow> ('h btree \<times> removal) option" where
  "remove_levels bt i [] r = Some (bt, r)"
| "remove_levels bt i (p # ps) r = do { (bt1, r1) \<leftarrow> remove_level bt i p r; remove_levels bt1 (i + 1) ps r1 }"

definition btree_remove :: "'h btree \<Rightarrow> buf \<Rightarrow> (btree_result \<times> 'h btree) option" where
  "btree_remove bt key = do {
     res \<leftarrow> remove_path bt key (bt_height bt) (bt_root_bid bt);
     (case res of
        Inl bt1 \<Rightarrow> Some (BTREE_RESULT_FAIL, bt1)
      | Inr (ps, bt1) \<Rightarrow> do {
          (bt2, _) \<leftarrow> remove_levels bt1 0 ps
            \<lparr>rm_node = \<lparr>bn_kvsize = 0, bn_flag = 0, bn_level = 0, bn_nentry = 0, bn_meta = [], bn_data = []\<rparr>,
             rm_bid = 0, rm_moved = False, rmv = True\<rparr>;
          Some (BTREE_RESULT_SUCCESS, bt2)
        })
   }"

end
