(* ===== verification/Btree_Map.thy ===== *)
theory Btree_Map
  imports Btree
begin

text \<open>
  The B+-tree as a finite map. The locale \<open>block_layer\<close> states what the tree relies on from the
  blocks below it; inside it, and over any table of entry operations, the operations of the tree
  are shown to refine the operations of a sorted list of entries.
\<close>

section \<open>What the tree relies on\<close>

text \<open>
  What a block handle shows to the tree: the contents of the blocks, those that would survive closing
  the handle after writing it back, those that may be overwritten, those that are new and not yet
  written, those that are held in memory, and how many more blocks can be allocated.
\<close>

record view =
  nd :: "nat \<Rightarrow> bnode option"
  saved :: "nat set"
  writable :: "nat set"
  unwritten :: "nat set"
  cached :: "nat set"
  spare :: nat

text \<open>
  A new block gets a number that was not in use, and a moved block keeps its old number as well. A
  store through an address may put the block out of step with the file unless it has not been
  written at all. The relation \<open>ext\<close> is what all operations keep of the file.
\<close>

locale block_layer =
  fixes bops :: "'h btree_blk_ops" and inv :: "'h \<Rightarrow> bool" and view :: "'h \<Rightarrow> view" and N :: nat and ext :: "'h \<Rightarrow> 'h \<Rightarrow> bool"
  assumes ext_refl: "ext h h" and ext_trans: "ext h h1 \<Longrightarrow> ext h1 h2 \<Longrightarrow> ext h h2"
    and bid_bound: "inv h \<Longrightarrow> nd (view h) b = Some n \<Longrightarrow> b < 2 ^ 64"
    and size_of: "inv h \<Longrightarrow> nd (view h) b = Some n \<Longrightarrow> sizeof_bnode + length (payload n) = N"
    and rd: "inv h \<Longrightarrow> nd (view h) b = Some n \<Longrightarrow>
      \<exists>h'. blk_read bops h b = Some (n, h') \<and> inv h' \<and> ext h h' \<and> view h' = (view h)\<lparr>cached := insert b (cached (view h))\<rparr>"
    and al: "inv h \<Longrightarrow> 0 < spare (view h) \<Longrightarrow>
      \<exists>b n h'. blk_alloc bops h = Some (b, n, h') \<and> inv h' \<and> ext h h' \<and> nd (view h) b = None \<and>
        payload n \<noteq> [] \<and> last (payload n) = BLK_MARKER_BNODE \<and>
        view h' = \<lparr>nd = (nd (view h))(b \<mapsto> n), saved = insert b (saved (view h)), writable = insert b (writable (view h)),
          unwritten = insert b (unwritten (view h)), cached = insert b (cached (view h)), spare = spare (view h) - 1\<rparr>"
    and st: "inv h \<Longrightarrow> b \<in> cached (view h) \<Longrightarrow> nd (view h) b = Some m \<Longrightarrow> node_ok N n \<Longrightarrow>
      inv (blk_store bops h b n) \<and> ext h (blk_store bops h b n) \<and>
      (\<exists>S. saved (view h) - ({b} - unwritten (view h)) \<subseteq> S \<and>
        view (blk_store bops h b n) = (view h)\<lparr>nd := (nd (view h))(b \<mapsto> n), saved := S\<rparr>)"
    and mv: "inv h \<Longrightarrow> nd (view h) b = Some n \<Longrightarrow> node_ok N n \<Longrightarrow> 0 < spare (view h) \<Longrightarrow>
      \<exists>b' h'. blk_move bops h b = Some (b', n, h') \<and> inv h' \<and> ext h h' \<and> nd (view h) b' = None \<and>
        view h' = \<lparr>nd = (nd (view h))(b' \<mapsto> n), saved = insert b' (saved (view h)), writable = insert b' (writable (view h)),
          unwritten = insert b' (unwritten (view h)), cached = insert b' (insert b (cached (view h))), spare = spare (view h) - 1\<rparr>"
    and rm: "inv h \<Longrightarrow> inv (blk_remove bops h b) \<and> ext h (blk_remove bops h b) \<and> view (blk_remove bops h b) = view h"
    and dt: "inv h \<Longrightarrow> b \<in> cached (view h) \<Longrightarrow> b \<in> writable (view h) \<Longrightarrow>
      inv (blk_set_dirty bops h b) \<and> ext h (blk_set_dirty bops h b) \<and>
      view (blk_set_dirty bops h b) = (view h)\<lparr>saved := insert b (saved (view h))\<rparr>"
    and wr: "inv h \<Longrightarrow> nd (view h) b = Some n \<Longrightarrow> blk_is_writable bops h b \<longleftrightarrow> b \<in> writable (view h)"
    and gs: "inv h \<Longrightarrow> blk_get_size bops h b = N"
    and uw: "inv h \<Longrightarrow> unwritten (view h) \<subseteq> saved (view h)"

section \<open>Trees\<close>

datatype tree = Leaf nat "(buf \<times> buf) list" | Index nat "(buf \<times> tree) list"

fun rbid :: "tree \<Rightarrow> nat" where
  "rbid (Leaf b es) = b"
| "rbid (Index b cs) = b"

fun entries :: "tree \<Rightarrow> (buf \<times> buf) list" where
  "entries (Leaf b es) = es"
| "entries (Index b cs) = concat (map (\<lambda>(k, c). entries c) cs)"

fun bids :: "tree \<Rightarrow> nat list" where
  "bids (Leaf b es) = [b]"
| "bids (Index b cs) = b # concat (map (\<lambda>(k, c). bids c) cs)"

text \<open>The entries and the blocks of a list of children.\<close>

definition ents :: "(buf \<times> tree) list \<Rightarrow> (buf \<times> buf) list" where "ents cs = concat (map (\<lambda>(k, c). entries c) cs)"
definition bidss :: "(buf \<times> tree) list \<Rightarrow> nat list" where "bidss cs = concat (map (\<lambda>(k, c). bids c) cs)"

lemma ents_simps [simp]:
  "entries (Index b cs) = ents cs" "ents [] = []" "ents ((k, c) # cs) = entries c @ ents cs" "ents (cs @ ds) = ents cs @ ents ds"
  by (simp_all add: ents_def)

lemma bidss_simps [simp]:
  "bids (Index b cs) = b # bidss cs" "bidss [] = []" "bidss ((k, c) # cs) = bids c @ bidss cs" "bidss (cs @ ds) = bidss cs @ bidss ds"
  by (simp_all add: bidss_def)

declare entries.simps(2) [simp del] bids.simps(2) [simp del]

definition fkey :: "tree \<Rightarrow> buf" where "fkey t = fst (hd (entries t))"

text \<open>Index entries are never missing, and their keys are the first keys of the subtrees.\<close>

fun wf :: "tree \<Rightarrow> bool" where
  "wf (Leaf b es) \<longleftrightarrow> True"
| "wf (Index b cs) \<longleftrightarrow> cs \<noteq> [] \<and> (\<forall>(k, c) \<in> set cs. wf c \<and> entries c \<noteq> [] \<and> k = fkey c)"

definition index_entries :: "kv_ops \<Rightarrow> (buf \<times> tree) list \<Rightarrow> (buf \<times> buf) list" where
  "index_entries ops cs = map (\<lambda>(k, c). (k, bid_val ops (rbid c))) cs"

text \<open>A tree of the given height lies in the blocks; every node has room for two entries at least.\<close>

definition node_on :: "nat \<Rightarrow> nat \<Rightarrow> nat \<Rightarrow> (nat \<Rightarrow> bnode option) \<Rightarrow> nat \<Rightarrow> nat \<Rightarrow> (buf \<times> buf) list \<Rightarrow> bool" where
  "node_on K V N blocks b level es \<longleftrightarrow>
     (\<exists>n. blocks b = Some n \<and> node_ok N n \<and> node_rep K V n es \<and> bn_level n = level \<and> room K V n 2)"

fun tree_on :: "kv_ops \<Rightarrow> nat \<Rightarrow> nat \<Rightarrow> nat \<Rightarrow> (nat \<Rightarrow> bnode option) \<Rightarrow> nat \<Rightarrow> tree \<Rightarrow> bool" where
  "tree_on ops K V N blocks 0 t \<longleftrightarrow> False"
| "tree_on ops K V N blocks (Suc l) (Leaf b es) \<longleftrightarrow> l = 0 \<and> node_on K V N blocks b 1 es"
| "tree_on ops K V N blocks (Suc l) (Index b cs) \<longleftrightarrow>
     0 < l \<and> node_on K V N blocks b (Suc l) (index_entries ops cs) \<and> (\<forall>(k, c) \<in> set cs. tree_on ops K V N blocks l c)"

section \<open>Children of an index node\<close>

definition wfs :: "(buf \<times> tree) list \<Rightarrow> bool" where
  "wfs cs \<longleftrightarrow> (\<forall>(k, c) \<in> set cs. wf c \<and> entries c \<noteq> [] \<and> k = fkey c)"

lemma wfs_simps [simp]:
  "wfs []" "wfs ((k, c) # cs) \<longleftrightarrow> wf c \<and> entries c \<noteq> [] \<and> k = fkey c \<and> wfs cs" "wfs (cs @ ds) \<longleftrightarrow> wfs cs \<and> wfs ds"
  by (auto simp: wfs_def)

lemma wf_Index: "wf (Index b cs) \<longleftrightarrow> cs \<noteq> [] \<and> wfs cs"
  by (simp add: wfs_def)

declare wf.simps(2) [simp del]

lemma wfs_take: "wfs cs \<Longrightarrow> wfs (take j cs)" and wfs_drop: "wfs cs \<Longrightarrow> wfs (drop j cs)"
  by (auto simp: wfs_def dest: in_set_takeD in_set_dropD)

lemma wfs_nth: "wfs cs \<Longrightarrow> j < length cs \<Longrightarrow> wf (snd (cs ! j)) \<and> entries (snd (cs ! j)) \<noteq> [] \<and> fst (cs ! j) = fkey (snd (cs ! j))"
  using nth_mem [of j cs] by (auto simp: wfs_def case_prod_unfold)

lemma ents_split:
  assumes "j < length cs"
  shows "ents cs = ents (take j cs) @ entries (snd (cs ! j)) @ ents (drop (Suc j) cs)"
    "bidss cs = bidss (take j cs) @ bids (snd (cs ! j)) @ bidss (drop (Suc j) cs)"
proof -
  obtain k c where c: "cs ! j = (k, c)" by (cases "cs ! j")
  have e: "cs = take j cs @ (k, c) # drop (Suc j) cs" using id_take_nth_drop [OF assms] c by simp
  show "ents cs = ents (take j cs) @ entries (snd (cs ! j)) @ ents (drop (Suc j) cs)"
    using arg_cong [OF e, of ents] c by simp
  show "bidss cs = bidss (take j cs) @ bids (snd (cs ! j)) @ bidss (drop (Suc j) cs)"
    using arg_cong [OF e, of bidss] c by simp
qed

lemma hd_ents: "wfs cs \<Longrightarrow> cs \<noteq> [] \<Longrightarrow> fst (hd (ents cs)) = fst (hd cs) \<and> ents cs \<noteq> []"
  by (cases cs) (auto simp: fkey_def)

lemma wfs_key_in: "wfs cs \<Longrightarrow> e \<in> set cs \<Longrightarrow> fst e \<in> fst ` set (ents cs)"
proof (induction cs)
  case (Cons d cs)
  obtain k c where d: "d = (k, c)" by (cases d)
  then have "k \<in> fst ` set (entries c)" using Cons.prems(1) by (simp add: fkey_def)
  then show ?case using Cons d by (cases "e = d") (simp_all add: image_Un)
qed simp

context key_order
begin

lemma cs_asc: "wfs cs \<Longrightarrow> asc cmp (ents cs) \<Longrightarrow> asc cmp cs"
proof (induction cs)
  case (Cons e cs)
  obtain k c where e: "e = (k, c)" by (cases e)
  have "k \<in> fst ` set (entries c)" using Cons.prems(1) e by (auto simp: fkey_def)
  then obtain x where x: "x \<in> set (entries c)" "k = fst x" by auto
  have "cmp k (fst e') < 0" if "e' \<in> set cs" for e'
  proof -
    have "fst e' \<in> fst ` set (ents cs)" using Cons.prems(1) e that by (intro wfs_key_in) auto
    then obtain y where "y \<in> set (ents cs)" "fst e' = fst y" by (rule imageE) simp
    then show ?thesis using x Cons.prems(2) e by simp
  qed
  then show ?case using Cons e by simp
qed simp

lemma cs_keyed: "wfs cs \<Longrightarrow> keyed K (ents cs) \<Longrightarrow> keyed K cs"
proof -
  assume a: "wfs cs" "keyed K (ents cs)"
  show ?thesis unfolding keyed_def
  proof
    fix e assume "e \<in> set cs"
    from wfs_key_in [OF a(1) this] obtain y where "y \<in> set (ents cs)" "fst e = fst y" by (rule imageE) simp
    with a(2) show "length (fst e) = K" unfolding keyed_def by simp
  qed
qed

text \<open>The child that the search descends to, and the entries before and behind it.\<close>

lemma child_pos:
  assumes "cs \<noteq> []" "wfs cs" "length key = K" "asc cmp (ents cs)" "keyed K (ents cs)"
  defines "j \<equiv> rank cmp key cs - 1"
  shows "j < length cs"
    "ents (drop (Suc j) cs) = [] \<or> cmp key (fst (hd (ents (drop (Suc j) cs)))) < 0"
    "0 < rank cmp key cs \<Longrightarrow> \<not> cmp key (fkey (snd (cs ! j))) < 0"
    "rank cmp key cs = 0 \<Longrightarrow> cmp key (fkey (snd (cs ! j))) < 0"
proof -
  show j: "j < length cs" using assms(1) rank_le [of cmp key cs] by (cases cs) (auto simp: j_def)
  show "ents (drop (Suc j) cs) = [] \<or> cmp key (fst (hd (ents (drop (Suc j) cs)))) < 0"
  proof (cases "Suc j < length cs")
    case True
    have d: "fst (hd (ents (drop (Suc j) cs))) = fst (cs ! Suc j)"
      using hd_ents [OF wfs_drop [OF assms(2)], of "Suc j"] True by (simp add: hd_drop_conv_nth)
    show ?thesis
    proof (cases "rank cmp key cs = 0")
      case rz: True
      then have "cmp key (fst (cs ! 0)) < 0" using rank_zero [of key cs] assms(1) by (simp add: hd_conv_nth)
      moreover have "cmp (fst (cs ! 0)) (fst (cs ! 1)) < 0"
        using asc_nth [OF cs_asc [OF assms(2,4)], of 0 1] True by simp
      moreover have "length (fst (cs ! 0)) = K" "length (fst (cs ! 1)) = K"
        using keyed_nth [OF cs_keyed [OF assms(2,5)], of 0] keyed_nth [OF cs_keyed [OF assms(2,5)], of 1] True assms(1) by simp_all
      ultimately show ?thesis using d rz assms(3) cmp_less_trans [of key "fst (cs ! 0)" "fst (cs ! 1)"] by (simp add: j_def)
    next
      case False
      then have "rank cmp key cs = Suc j" by (simp add: j_def)
      then show ?thesis using rank_end [of cmp key cs] True d by simp
    qed
  qed simp
  show "\<not> cmp key (fkey (snd (cs ! j))) < 0" if "0 < rank cmp key cs"
    using rank_less [of j cmp key cs] wfs_nth [OF assms(2) j] that by (simp add: j_def)
  show "cmp key (fkey (snd (cs ! j))) < 0" if "rank cmp key cs = 0"
    using that rank_zero [of key cs] assms(1) wfs_nth [OF assms(2) j] by (simp add: j_def hd_conv_nth)
qed

lemma put_ents:
  assumes "cs \<noteq> []" "wfs cs" "length key = K" "asc cmp (ents cs)" "keyed K (ents cs)"
  defines "j \<equiv> rank cmp key cs - 1"
  shows "put cmp key val (ents cs) = ents (take j cs) @ put cmp key val (entries (snd (cs ! j))) @ ents (drop (Suc j) cs)"
proof -
  note p = child_pos [OF assms(1-5), folded j_def]
  let ?A = "ents (take j cs)" and ?E = "entries (snd (cs ! j))" and ?B = "ents (drop (Suc j) cs)"
  note e = ents_split(1) [OF p(1)]
  have EB: "put cmp key val (?E @ ?B) = put cmp key val ?E @ ?B"
    using p(2) assms(5) unfolding e by (intro put_left) (simp_all add: assms(3))
  show ?thesis
  proof (cases "rank cmp key cs = 0")
    case True
    then have "?A = []" by (simp add: j_def)
    then show ?thesis using EB e by simp
  next
    case False
    have ne: "?E \<noteq> []" using wfs_nth [OF assms(2) p(1)] by simp
    have "put cmp key val (?A @ ?E @ ?B) = ?A @ put cmp key val (?E @ ?B)"
    proof (rule put_right)
      show "asc cmp (?A @ ?E @ ?B)" "keyed K (?A @ ?E @ ?B)" using assms(4,5) by (simp_all only: e [symmetric])
      show "\<not> cmp key (fst (hd (?E @ ?B))) < 0" using p(3) False ne by (simp add: fkey_def)
    qed (use assms(3) ne in simp_all)
    then show ?thesis using EB e by simp
  qed
qed

lemma asc_key_unique:
  assumes "asc cmp es" "keyed K es" "length key = K" "es \<noteq> []" "cmp key (fst (hd es)) < 0"
  shows "key \<notin> fst ` set es"
proof
  assume "key \<in> fst ` set es"
  then obtain e where e: "e \<in> set es" "key = fst e" by auto
  obtain x xs where x: "es = x # xs" using assms(4) by (cases es) auto
  then have "e = x \<or> cmp (fst x) (fst e) < 0" using e(1) assms(1) by auto
  then show False using assms(2,3,5) x e cmp_swap [of "fst x" key] by auto
qed

lemma lookup_rank:
  assumes "asc cmp es" "keyed K es" "length key = K"
  shows "map_of es key = (case rank cmp key es of 0 \<Rightarrow> None | Suc r \<Rightarrow> if cmp key (fst (es ! r)) = 0 then Some (snd (es ! r)) else None)"
  using assms
proof (induction es)
  case (Cons e es)
  obtain a b where e: "e = (a, b)" by (cases e)
  have l: "length a = K" using Cons.prems e by simp
  show ?case
  proof (cases "cmp key a" "0 :: int" rule: linorder_cases)
    case less
    then have "key \<notin> fst ` set (e # es)" using asc_key_unique [OF Cons.prems] e by simp
    then show ?thesis using less e by (simp add: rank_def map_of_eq_None_iff)
  next
    case equal
    then have k: "key = a" using cmp_zero l Cons.prems(3) by simp
    then have "rank cmp key es = 0" using Cons.prems e by (cases es) (auto simp: rank_zero)
    then show ?thesis using equal k e by (simp add: rank_def)
  next
    case greater
    then have "key \<noteq> a" using cmp_refl [OF l] by auto
    moreover have "rank cmp key (e # es) = Suc (rank cmp key es)" using greater e by (simp add: rank_def)
    ultimately show ?thesis using Cons e greater by (auto split: nat.splits)
  qed
qed (simp add: rank_def)

lemma lookup_ents:
  assumes "cs \<noteq> []" "wfs cs" "length key = K" "asc cmp (ents cs)" "keyed K (ents cs)"
  shows "map_of (ents cs) key = (if rank cmp key cs = 0 then None else map_of (entries (snd (cs ! (rank cmp key cs - 1)))) key)"
proof -
  define j where "j = rank cmp key cs - 1"
  note p = child_pos [OF assms(1-5), folded j_def]
  let ?A = "ents (take j cs)" and ?E = "entries (snd (cs ! j))" and ?B = "ents (drop (Suc j) cs)"
  note e = ents_split(1) [OF p(1)]
  have "asc cmp (?A @ ?E @ ?B)" "keyed K (?A @ ?E @ ?B)" using assms(4,5) by (simp_all only: e [symmetric])
  then have s: "asc cmp ?A" "asc cmp ?E" "asc cmp ?B" "keyed K ?A" "keyed K ?E" "keyed K ?B"
    "\<forall>a \<in> set ?A. \<forall>x \<in> set ?E. cmp (fst a) (fst x) < 0" by auto
  have ne: "?E \<noteq> []" using wfs_nth [OF assms(2) p(1)] by simp
  have B: "map_of ?B key = None"
    using p(2) asc_key_unique [OF s(3,6) assms(3)] by (cases "?B = []") (simp_all add: map_of_eq_None_iff)
  show ?thesis
  proof (cases "rank cmp key cs = 0")
    case True
    then have "?A = []" by (simp add: j_def)
    moreover have "map_of ?E key = None"
      using p(4) True ne asc_key_unique [OF s(2,5) assms(3)] by (simp add: map_of_eq_None_iff fkey_def)
    ultimately show ?thesis using B True unfolding e by (simp add: map_add_def)
  next
    case False
    have "key \<notin> fst ` set ?A"
    proof
      assume "key \<in> fst ` set ?A"
      then obtain a where a: "a \<in> set ?A" "key = fst a" by auto
      then have "cmp key (fkey (snd (cs ! j))) < 0" using s(7) ne by (simp add: fkey_def)
      then show False using p(3) False by simp
    qed
    then have "map_of ?A key = None" by (simp add: map_of_eq_None_iff)
    then show ?thesis using B False unfolding e by (simp add: map_add_def j_def split: option.splits)
  qed
qed

end

section \<open>Reading a tree\<close>

text \<open>A tree over a table of entry operations and a block layer, with blocks for two entries at least.\<close>

locale tree_layers = kv_layer ops K V + block_layer bops inv view N ext
  for ops K V and bops :: "'h btree_blk_ops" and inv view N ext +
  assumes small: "K < 256" "V < 256" and capacity: "sizeof_bnode + 2 * (K + V) < N"
begin

abbreviation tab :: "'h btree \<Rightarrow> bool" where
  "tab bt \<equiv> bt_kv_ops bt = ops \<and> bt_blk_ops bt = bops \<and> bt_ksize bt = K \<and> bt_vsize bt = V"

abbreviation vw :: "'h btree \<Rightarrow> view" where "vw bt \<equiv> view (bt_handle bt)"

abbreviation lt :: "buf \<Rightarrow> buf \<Rightarrow> bool" where "lt x y \<equiv> kv_cmp ops x y < 0"

abbreviation on :: "(nat \<Rightarrow> bnode option) \<Rightarrow> nat \<Rightarrow> tree \<Rightarrow> bool" where "on \<equiv> tree_on ops K V N"

abbreviation sorted_entries :: "(buf \<times> buf) list \<Rightarrow> bool" where
  "sorted_entries es \<equiv> asc (kv_cmp ops) es \<and> sized K V es"

lemma bid_val_roundtrip: "b < 2 ^ 64 \<Longrightarrow> value_bid ops (bid_val ops b) = b"
  by (simp add: value_bid_def bid_val_def bid_value unat_of_nat)

lemma length_bid_val: "length (bid_val ops b) = V"
  by (simp add: bid_val_def bid_value)

text \<open>Reading only brings blocks into memory.\<close>

definition reads :: "'h \<Rightarrow> 'h \<Rightarrow> bool" where
  "reads h h' \<longleftrightarrow> inv h' \<and> ext h h' \<and> (\<exists>C. cached (view h) \<subseteq> C \<and> view h' = (view h)\<lparr>cached := C\<rparr>)"

lemma reads_refl: "inv h \<Longrightarrow> reads h h"
  unfolding reads_def using ext_refl by (intro conjI exI [of _ "cached (view h)"]) auto

lemma reads_trans:
  assumes "reads h h1" "reads h1 h2"
  shows "reads h h2"
proof -
  obtain C where C: "cached (view h) \<subseteq> C" "view h1 = (view h)\<lparr>cached := C\<rparr>" using assms(1) by (auto simp: reads_def)
  obtain D where D: "C \<subseteq> D" "view h2 = (view h1)\<lparr>cached := D\<rparr>" using assms(2) C(2) by (auto simp: reads_def)
  have "cached (view h) \<subseteq> D" "view h2 = (view h)\<lparr>cached := D\<rparr>" using C D by auto
  then show ?thesis using assms ext_trans [of h h1 h2] unfolding reads_def by blast
qed

lemma reads_nd: "reads h h' \<Longrightarrow> nd (view h') = nd (view h)" and reads_inv: "reads h h' \<Longrightarrow> inv h'"
  by (auto simp: reads_def)

lemma read_node:
  assumes "tab bt" "inv (bt_handle bt)" "nd (vw bt) b = Some n" "node_ok N n"
  shows "\<exists>h'. bt_read bt b = Some (n, bt\<lparr>bt_handle := h'\<rparr>) \<and> reads (bt_handle bt) h' \<and> b \<in> cached (view h')"
proof -
  obtain h' where h: "blk_read bops (bt_handle bt) b = Some (n, h')" "inv h'" "ext (bt_handle bt) h'"
    "view h' = (vw bt)\<lparr>cached := insert b (cached (vw bt))\<rparr>" using rd [OF assms(2,3)] by blast
  then have "reads (bt_handle bt) h' \<and> b \<in> cached (view h')"
    unfolding reads_def by (auto intro!: exI [of _ "insert b (cached (vw bt))"])
  moreover have "bt_read bt b = Some (n, bt\<lparr>bt_handle := h'\<rparr>)"
    using h(1) assms(1) fetch_node_ok [OF assms(4)] by (simp add: bt_read_def)
  ultimately show ?thesis by blast
qed

lemma index_rank: "rank (kv_cmp ops) key (index_entries ops cs) = rank (kv_cmp ops) key cs"
  by (induction cs) (auto simp: index_entries_def rank_def)

lemma index_asc: "wfs cs \<Longrightarrow> asc (kv_cmp ops) (ents cs) \<Longrightarrow> asc (kv_cmp ops) (index_entries ops cs)"
  using cs_asc [of cs] by (simp add: index_entries_def asc_def sorted_wrt_map case_prod_unfold)

lemma length_index_entries [simp]: "length (index_entries ops cs) = length cs"
  by (simp add: index_entries_def)

lemma index_entries_nth: "j < length cs \<Longrightarrow> index_entries ops cs ! j = (fst (cs ! j), bid_val ops (rbid (snd (cs ! j))))"
  by (simp add: index_entries_def case_prod_unfold)

text \<open>The node at the root of a subtree.\<close>

fun node_entries :: "tree \<Rightarrow> (buf \<times> buf) list" where
  "node_entries (Leaf b es) = es"
| "node_entries (Index b cs) = index_entries ops cs"

lemma on_node: "on blocks l t \<Longrightarrow> node_on K V N blocks (rbid t) l (node_entries t)"
  by (cases l; cases t) auto

lemma on_bids: "on blocks l t \<Longrightarrow> b \<in> set (bids t) \<Longrightarrow> \<exists>n. blocks b = Some n"
proof (induction l arbitrary: t)
  case (Suc l)
  show ?case
  proof (cases t)
    case (Leaf x es)
    then show ?thesis using Suc.prems by (auto simp: node_on_def)
  next
    case (Index x cs)
    have "\<exists>n. blocks b = Some n" if "b \<in> set (bidss cs)"
      using that Suc Index by (auto simp: bidss_def)
    then show ?thesis using Suc.prems Index by (auto simp: node_on_def)
  qed
qed simp

lemma on_cong: "on blocks l t \<Longrightarrow> (\<And>b. b \<in> set (bids t) \<Longrightarrow> blocks' b = blocks b) \<Longrightarrow> on blocks' l t"
proof (induction l arbitrary: t)
  case (Suc l)
  show ?case
  proof (cases t)
    case (Index x cs)
    have "on blocks' l c" if "(k, c) \<in> set cs" for k c
      using that Suc Index by (intro Suc.IH) (fastforce simp: bidss_def)+
    then show ?thesis using Suc.prems Index by (auto simp: node_on_def)
  qed (use Suc.prems in \<open>auto simp: node_on_def\<close>)
qed simp

lemma on_child_bid:
  assumes "inv h" "on (nd (view h)) l c"
  shows "value_bid ops (bid_val ops (rbid c)) = rbid c"
  using on_node [OF assms(2)] bid_bound [OF assms(1)] by (auto simp: node_on_def intro: bid_val_roundtrip)

lemma find_at:
  assumes "tab bt" "inv (bt_handle bt)" "on (nd (vw bt)) l t" "wf t" "sorted_entries (entries t)" "length key = K"
  shows "\<exists>h'. btree_find_at bt key l (rbid t) =
    Some (if map_of (entries t) key = None then BTREE_RESULT_FAIL else BTREE_RESULT_SUCCESS, map_of (entries t) key, bt\<lparr>bt_handle := h'\<rparr>) \<and>
    reads (bt_handle bt) h'"
  using assms
proof (induction l arbitrary: bt t)
  case (Suc l)
  obtain n where n: "nd (vw bt) (rbid t) = Some n" "node_ok N n" "rep n (node_entries t)"
    using on_node [OF Suc.prems(3)] by (auto simp: node_on_def)
  obtain h1 where h1: "bt_read bt (rbid t) = Some (n, bt\<lparr>bt_handle := h1\<rparr>)" "reads (bt_handle bt) h1"
    using read_node [OF Suc.prems(1,2) n(1,2)] by blast
  note f = find_entry_spec [OF n(3) _ Suc.prems(6)]
  show ?case
  proof (cases t)
    case (Leaf b es)
    then have l: "l = 0" "asc (kv_cmp ops) es" "keyed K es" using Suc.prems by (auto intro: sized_keyed)
    then show ?thesis using h1 f Leaf lookup_rank [OF l(2,3) Suc.prems(6)] get [OF n(3)] rank_le [of "kv_cmp ops" key es] Suc.prems(1)
      by (intro exI [of _ h1]) (auto simp: case_prod_unfold split: nat.splits)
  next
    case (Index b cs)
    then have c: "cs \<noteq> []" "wfs cs" "asc (kv_cmp ops) (ents cs)" "keyed K (ents cs)" "sized K V (ents cs)" "0 < l"
      and on_c: "\<And>k c. (k, c) \<in> set cs \<Longrightarrow> on (nd (vw bt)) l c"
      using Suc.prems by (auto simp: wf_Index intro: sized_keyed)
    show ?thesis
    proof (cases "rank (kv_cmp ops) key cs")
      case 0
      then show ?thesis
        using h1 f index_asc [OF c(2,3)] Index lookup_ents [OF c(1,2) Suc.prems(6) c(3,4)] Suc.prems(1)
        by (intro exI [of _ h1]) (simp add: index_rank)
    next
      case (Suc j)
      then have j: "j < length cs" using rank_le [of "kv_cmp ops" key cs] by simp
      let ?c = "snd (cs ! j)"
      have oc: "on (nd (vw bt)) l ?c" using on_c [of "fst (cs ! j)" ?c] nth_mem [OF j] by simp
      have fe: "btree_find_entry ops n key = Some j" using f index_asc [OF c(2,3)] Index Suc by (simp add: index_rank)
      have "sorted_entries (entries ?c)" using ents_split(1) [OF j] c(3,5) by simp
      then have "\<exists>h2. btree_find_at (bt\<lparr>bt_handle := h1\<rparr>) key l (rbid ?c) =
          Some (if map_of (entries ?c) key = None then BTREE_RESULT_FAIL else BTREE_RESULT_SUCCESS, map_of (entries ?c) key, bt\<lparr>bt_handle := h2\<rparr>) \<and> reads h1 h2"
        using Suc.IH [of "bt\<lparr>bt_handle := h1\<rparr>" ?c] Suc.prems(1,6) oc wfs_nth [OF c(2) j] reads_nd [OF h1(2)] reads_inv [OF h1(2)] by simp
      then obtain h2 where h2: "btree_find_at (bt\<lparr>bt_handle := h1\<rparr>) key l (rbid ?c) =
          Some (if map_of (entries ?c) key = None then BTREE_RESULT_FAIL else BTREE_RESULT_SUCCESS, map_of (entries ?c) key, bt\<lparr>bt_handle := h2\<rparr>)" "reads h1 h2"
        by blast
      moreover have "value_bid ops (snd (kv_get ops n j)) = rbid ?c"
        using get [OF n(3), of j] Index j on_child_bid [OF Suc.prems(2) oc] by (simp add: index_entries_nth)
      ultimately show ?thesis
        using h1 fe Index c(6) Suc lookup_ents [OF c(1,2) Suc.prems(6) c(3,4)] Suc.prems(1) reads_trans [OF h1(2)]
        by (intro exI [of _ h2]) (simp add: case_prod_unfold)
    qed
  qed
qed simp

end

end
