(* ===== verification/Btree_Insert.thy ===== *)
theory Btree_Insert
  imports Btree_Map
begin

text \<open>
  Insertion into the B+-tree is the update of the sorted list of its entries, whatever nodes have to
  be split or moved on the way.
\<close>

section \<open>Splitting a node\<close>

lemma entry_change_fields:
  "entry_change n n' \<Longrightarrow> bn_level n' = bn_level n \<and> bn_flag n' = bn_flag n \<and> bn_meta n' = bn_meta n \<and> length (bn_data n') = length (bn_data n)"
  by (cases n; cases n') (simp add: entry_change_def same_end_def)

context kv_layer
begin

lemma room_mono:
  assumes "room K V n m" "l \<le> m"
  shows "room K V n l"
  using le_less_trans [OF mult_le_mono1 [OF assms(2), of "K + V"]] assms(1) by (simp only: room_def)

lemma room_le: "room K V n m \<Longrightarrow> length (bn_data n) \<le> length (bn_data f) \<Longrightarrow> room K V f m"
  by (simp add: room_def)

lemma rep_room:
  assumes "rep n es" "m \<le> length es"
  shows "room K V n m"
proof (rule room_mono [OF _ assms(2)])
  show "room K V n (length es)" using node_rep_length [OF assms(1)] by (simp add: room_def)
qed

lemma entry_change_room: "entry_change n n' \<Longrightarrow> room K V n' m = room K V n m"
  by (simp add: entry_change_def room_def same_end_def)

lemma distribute_two:
  assumes "rep n es" "rep f []" "length (bn_data n) \<le> length (bn_data f)"
  defines "m \<equiv> length es div 2 + length es mod 2"
  shows "\<exists>L R. distribute ops n [f] = [L, R] \<and> rep L (take m es) \<and> rep R (drop m es) \<and> entry_change n L \<and> entry_change f R"
proof -
  have m: "m \<le> length es" unfolding m_def by presburger
  have i: "kv_nth_idx ops n 0 2 = 0" "kv_nth_idx ops n 1 2 = m" "kv_nth_idx ops n 2 2 = length es"
    using nth_idx [OF assms(1)] by (auto simp: m_def min_def)
  let ?L = "n\<lparr>bn_nentry := m\<rparr>" and ?R = "(kv_copy ops False f n 0 m (length es - m))\<lparr>bn_nentry := length es - m\<rparr>"
  have d: "distribute ops n [f] = [?L, ?R]"
    using i by (simp add: distribute_def copy_same numeral_2_eq_2)
  have "room K V f (length es - m)"
    using room_le [OF rep_room [OF assms(1)] assms(3)] by simp
  then have "rep ?R (take (length es - m) (drop m es))" "data_change f (kv_copy ops False f n 0 m (length es - m))"
    using copy [OF assms(1), of f m "length es - m"] assms(2) m by (auto simp: node_rep_def)
  moreover have "rep ?L (take m es)" using node_rep_prefix [OF assms(1) m] by simp
  moreover have "entry_change n ?L" by (simp add: entry_change_def same_end_def)
  ultimately show ?thesis using d data_entry_change(1) by (intro exI [of _ ?L] exI [of _ ?R]) simp
qed

lemma split_two:
  assumes "rep n es" "asc (kv_cmp ops) es" "node_ok N n" "room K V n 2" "\<not> room K V n (Suc (length es))"
    "rep f []" "length (bn_data n) \<le> length (bn_data f)"
    "length a = K" "length v = V" "a \<notin> fst ` set es"
  shows "\<exists>L R eL eR. split_insert ops (distribute ops n [f]) (a, v) = [L, R] \<and> rep L eL \<and> rep R eR \<and>
    eL @ eR = put (kv_cmp ops) a v es \<and> eL \<noteq> [] \<and> eR \<noteq> [] \<and> entry_change n L \<and> entry_change f R \<and>
    kv_cmp ops (fst (hd es)) (fst (hd eR)) < 0"
proof -
  define m where "m = length es div 2 + length es mod 2"
  have "2 \<le> length es" using assms(4,5) room_mono [of n 2 "Suc (length es)"] by (cases "length es < 2") auto
  then have m: "0 < m" "m < length es" "Suc m \<le> length es" "Suc (length es - m) \<le> length es" unfolding m_def by presburger+
  obtain L R where LR: "distribute ops n [f] = [L, R]" "rep L (take m es)" "rep R (drop m es)" "entry_change n L" "entry_change f R"
    using distribute_two [OF assms(1,6,7)] by (auto simp: m_def)
  let ?A = "take m es" and ?B = "drop m es"
  have AB: "?A \<noteq> []" "?B \<noteq> []" "hd ?A = hd es" "asc (kv_cmp ops) ?A" "asc (kv_cmp ops) ?B" "keyed K (?A @ ?B)"
    "asc (kv_cmp ops) (?A @ ?B)" "a \<notin> fst ` set ?A" "a \<notin> fst ` set ?B"
    using m assms(2,10) rep_keyed [OF assms(1)] asc_simps(3) [of "kv_cmp ops" ?A ?B]
    by (auto simp: hd_take dest!: in_set_takeD in_set_dropD)
  have g: "fst (kv_get ops R 0) = fst (hd ?B)" using get [OF LR(3), of 0] AB(2) by (simp add: hd_conv_nth)
  have less: "kv_cmp ops (fst (hd es)) (fst (hd ?B)) < 0" using AB(1,2,3,7) by (metis asc_simps(3) hd_in_set)
  show ?thesis
  proof (cases "kv_cmp ops a (fst (hd ?B)) < 0")
    case True
    have "room K V L (Suc (length ?A))" using rep_room [OF assms(1)] m(2,3) entry_change_room [OF LR(4)] by simp
    then have ad: "rep (snd (btree_add_entry ops L a v)) (put (kv_cmp ops) a v ?A)" "entry_change L (snd (btree_add_entry ops L a v))"
      using add_entry_spec [OF LR(2) AB(4) assms(8,9)] by auto
    have "put (kv_cmp ops) a v (?A @ ?B) = put (kv_cmp ops) a v ?A @ ?B" using True AB(6) assms(8) by (intro put_left) auto
    then show ?thesis using LR g True AB ad less entry_change_trans [OF LR(4)]
      by (intro exI [of _ "snd (btree_add_entry ops L a v)"] exI [of _ R] exI [of _ "put (kv_cmp ops) a v ?A"] exI [of _ ?B])
        (simp add: split_insert_def)
  next
    case False
    have "room K V f (Suc (length ?B))" using m(4) room_le [OF rep_room [OF assms(1)] assms(7)] by simp
    then have "room K V R (Suc (length ?B))" using entry_change_room [OF LR(5)] by simp
    then have ad: "rep (snd (btree_add_entry ops R a v)) (put (kv_cmp ops) a v ?B)" "entry_change R (snd (btree_add_entry ops R a v))"
      using add_entry_spec [OF LR(3) AB(5) assms(8,9)] by auto
    have p: "put (kv_cmp ops) a v (?A @ ?B) = ?A @ put (kv_cmp ops) a v ?B" using False AB assms(8) by (intro put_right) auto
    have "fst (hd (put (kv_cmp ops) a v ?B)) = fst (hd ?B)" using hd_put [OF rep_keyed [OF LR(3)] assms(8), of v] False AB(2) by simp
    then show ?thesis using LR g False AB ad less p entry_change_trans [OF LR(5)]
      by (intro exI [of _ L] exI [of _ "snd (btree_add_entry ops R a v)"] exI [of _ ?A] exI [of _ "put (kv_cmp ops) a v ?B"])
        (simp add: split_insert_def)
  qed
qed

end

section \<open>Effects on the blocks\<close>

context tree_layers
begin

text \<open>
  A change that may touch the blocks \<open>B\<close> and leaves the blocks \<open>C\<close> behind, some of them new, all of
  them safe; it needs at most \<open>k\<close> new blocks.
\<close>

definition evolves :: "'h \<Rightarrow> nat set \<Rightarrow> 'h \<Rightarrow> nat set \<Rightarrow> nat \<Rightarrow> bool" where
  "evolves h B h' C k \<longleftrightarrow> inv h' \<and> ext h h' \<and> dom (nd (view h)) \<subseteq> dom (nd (view h')) \<and>
     (\<forall>x \<in> dom (nd (view h)) - B. nd (view h') x = nd (view h) x) \<and> saved (view h) - B \<subseteq> saved (view h') \<and>
     C \<subseteq> saved (view h') \<and> C \<subseteq> dom (nd (view h')) \<and> C \<inter> dom (nd (view h)) \<subseteq> B \<and>
     cached (view h) \<subseteq> cached (view h') \<and> unwritten (view h) \<subseteq> unwritten (view h') \<and> spare (view h) \<le> spare (view h') + k"

lemma evolvesD:
  assumes "evolves h B h' C k"
  shows "inv h'" "ext h h'" "x \<in> dom (nd (view h)) \<Longrightarrow> x \<notin> B \<Longrightarrow> nd (view h') x = nd (view h) x"
    "x \<in> saved (view h) \<Longrightarrow> x \<notin> B \<Longrightarrow> x \<in> saved (view h')" "cached (view h) \<subseteq> cached (view h')"
    "C \<subseteq> saved (view h')" "C \<inter> dom (nd (view h)) \<subseteq> B" "spare (view h) \<le> spare (view h') + k"
    "unwritten (view h) \<subseteq> unwritten (view h')"
  using assms by (auto simp: evolves_def)

lemma evolves_reads: "reads h h' \<Longrightarrow> evolves h {} h' {} 0"
  by (auto simp: evolves_def reads_def)

lemma evolves_same: "inv h \<Longrightarrow> B \<subseteq> saved (view h) \<Longrightarrow> B \<subseteq> dom (nd (view h)) \<Longrightarrow> evolves h B h B 0"
  by (auto simp: evolves_def ext_refl)

lemma evolves_mono: "evolves h B h' C k \<Longrightarrow> k \<le> k' \<Longrightarrow> evolves h B h' C k'"
  by (auto simp: evolves_def)

lemma evolves_trans:
  assumes "evolves h B1 h1 C1 k1" "evolves h1 B2 h2 C2 k2" "C1 \<inter> B2 = {}"
  shows "evolves h (B1 \<union> B2) h2 (C1 \<union> C2) (k1 + k2)"
proof -
  have "nd (view h2) x = nd (view h) x" if "x \<in> dom (nd (view h)) - (B1 \<union> B2)" for x
  proof -
    have "nd (view h1) x = nd (view h) x" "x \<in> dom (nd (view h1))" using that assms(1) by (auto simp: evolves_def)
    then show ?thesis using that assms(2) by (auto simp: evolves_def)
  qed
  moreover have "ext h h2" using assms(1,2) ext_trans by (auto simp: evolves_def)
  moreover note a = assms(1) [unfolded evolves_def] and b = assms(2) [unfolded evolves_def]
  have a: "dom (nd (view h)) \<subseteq> dom (nd (view h1))" "saved (view h) - B1 \<subseteq> saved (view h1)" "C1 \<subseteq> saved (view h1)"
    "C1 \<subseteq> dom (nd (view h1))" "C1 \<inter> dom (nd (view h)) \<subseteq> B1" "cached (view h) \<subseteq> cached (view h1)" "spare (view h) \<le> spare (view h1) + k1"
    using a by simp_all
  have b: "inv h2" "dom (nd (view h1)) \<subseteq> dom (nd (view h2))" "saved (view h1) - B2 \<subseteq> saved (view h2)" "C2 \<subseteq> saved (view h2)"
    "C2 \<subseteq> dom (nd (view h2))" "C2 \<inter> dom (nd (view h1)) \<subseteq> B2" "cached (view h1) \<subseteq> cached (view h2)" "spare (view h1) \<le> spare (view h2) + k2"
    using b by simp_all
  have "C1 \<union> C2 \<subseteq> saved (view h2)" using a(3) b(3,4) assms(3) by blast
  moreover have "C1 \<union> C2 \<subseteq> dom (nd (view h2))" using a(4) b(2,5) by blast
  moreover have "(C1 \<union> C2) \<inter> dom (nd (view h)) \<subseteq> B1 \<union> B2" using a(1,5) b(6) by blast
  moreover have "saved (view h) - (B1 \<union> B2) \<subseteq> saved (view h2)" using a(2) b(3) by blast
  moreover have "dom (nd (view h)) \<subseteq> dom (nd (view h2))" "cached (view h) \<subseteq> cached (view h2)"
    "unwritten (view h) \<subseteq> unwritten (view h2)" using a b assms(1,2) by (auto simp: evolves_def)
  moreover have "spare (view h) \<le> spare (view h2) + (k1 + k2)" using a(7) b(8) by linarith
  ultimately show ?thesis using b(1) unfolding evolves_def by blast
qed

text \<open>The blocks that a change leaves behind stay as they are under a change elsewhere.\<close>

lemma evolves_keeps:
  assumes "evolves h B1 h1 C1 k1" "evolves h1 B2 h2 C2 k2" "C1 \<inter> B2 = {}" "x \<in> C1"
  shows "nd (view h2) x = nd (view h1) x"
proof -
  have "x \<in> dom (nd (view h1))" "x \<notin> B2" using assms(1,3,4) by (auto simp: evolves_def)
  then show ?thesis using evolvesD(3) [OF assms(2)] by blast
qed

lemma store_node:
  assumes "tab bt" "inv (bt_handle bt)" "nd (vw bt) b = Some m" "b \<in> cached (vw bt)" "node_ok N n"
  shows "inv (bt_handle (bt_store bt b n))" "ext (bt_handle bt) (bt_handle (bt_store bt b n))"
    "\<exists>S. saved (vw bt) - ({b} - unwritten (vw bt)) \<subseteq> S \<and> vw (bt_store bt b n) = (vw bt)\<lparr>nd := (nd (vw bt))(b \<mapsto> n), saved := S\<rparr>"
    "bt_store bt b n = bt\<lparr>bt_handle := bt_handle (bt_store bt b n)\<rparr>"
  using st [OF assms(2,4,3,5)] assms(1) by (simp_all add: bt_store_def)

lemma store_evolves:
  assumes "tab bt" "inv (bt_handle bt)" "nd (vw bt) b = Some m" "b \<in> cached (vw bt)" "node_ok N n"
    "evolves (bt_handle (bt_store bt b n)) {b} h' C k"
  shows "evolves (bt_handle bt) {b} h' C k"
proof -
  note s = store_node [OF assms(1-5)]
  obtain S where S: "saved (vw bt) - ({b} - unwritten (vw bt)) \<subseteq> S" "vw (bt_store bt b n) = (vw bt)\<lparr>nd := (nd (vw bt))(b \<mapsto> n), saved := S\<rparr>"
    using s(3) by blast
  have "evolves (bt_handle bt) {b} (bt_handle (bt_store bt b n)) {} 0"
    using s(1,2) S(1) assms(3) unfolding evolves_def S(2) by auto
  from evolves_trans [OF this assms(6)] show ?thesis by simp
qed

text \<open>The tree after a level: the root number follows a root that was moved.\<close>

definition level_tree :: "'h btree \<Rightarrow> nat \<Rightarrow> 'h \<Rightarrow> cascade \<Rightarrow> 'h btree" where
  "level_tree bt i h' c' =
     bt\<lparr>bt_handle := h', bt_root_bid := if moved c' \<and> i + 1 = bt_height bt then moved_bid c' else bt_root_bid bt\<rparr>"

lemma level_tree_store: "level_tree (bt_store bt b n) i h c = level_tree bt i h c"
  by (simp add: level_tree_def bt_store_def)

text \<open>Filling in a block that a change has just left behind and that was never written.\<close>

lemma evolves_store:
  assumes "evolves h B (bt_handle bt) C k" "tab bt" "x \<in> C" "x \<in> unwritten (vw bt)" "x \<in> cached (vw bt)" "nd (vw bt) x = Some m" "node_ok N n"
  shows "evolves h B (bt_handle (bt_store bt x n)) C k"
proof -
  note s = store_node [OF assms(2) evolvesD(1) [OF assms(1)] assms(6,5,7)]
  obtain S where S: "saved (vw bt) - ({x} - unwritten (vw bt)) \<subseteq> S" "vw (bt_store bt x n) = (vw bt)\<lparr>nd := (nd (vw bt))(x \<mapsto> n), saved := S\<rparr>"
    using s(3) by blast
  have "ext h (bt_handle (bt_store bt x n))" using ext_trans [OF evolvesD(2) [OF assms(1)] s(2)] .
  moreover have "{x} - unwritten (vw bt) = {}" using assms(4) by auto
  ultimately show ?thesis using assms(1,3) s(1) S(1) unfolding evolves_def S(2) by (auto simp: domIff)
qed

text \<open>Writing back a node that was changed in memory; the old block keeps its contents in memory.\<close>

lemma write_back:
  assumes "tab bt" "inv (bt_handle bt)" "nd (vw bt) b = Some n" "b \<in> cached (vw bt)" "node_ok N n" "0 < spare (vw bt)"
  shows "\<exists>h' b'. (if bt_is_writable bt b then b' = b \<and> bt_set_dirty bt b = bt\<lparr>bt_handle := h'\<rparr>
      else b' \<noteq> b \<and> bt_move bt b = Some (b', n, bt\<lparr>bt_handle := h'\<rparr>)) \<and>
    evolves (bt_handle bt) {b} h' {b'} 1 \<and> nd (view h') b' = Some n \<and> nd (view h') b = Some n"
proof (cases "b \<in> writable (vw bt)")
  case True
  let ?h = "bt_handle bt"
  have w: "bt_is_writable bt b" using wr [OF assms(2,3)] assms(1) True by (simp add: bt_is_writable_def)
  have d: "inv (blk_set_dirty bops ?h b)" "ext ?h (blk_set_dirty bops ?h b)"
    "view (blk_set_dirty bops ?h b) = (view ?h)\<lparr>saved := insert b (saved (view ?h))\<rparr>"
    using dt [OF assms(2,4)] True by auto
  have "evolves ?h {b} (blk_set_dirty bops ?h b) {b} 1" using d assms(3) by (auto simp: evolves_def)
  then show ?thesis using w d(3) assms(1,3)
    by (intro exI [of _ "blk_set_dirty bops ?h b"] exI [of _ b]) (simp add: bt_set_dirty_def)
next
  case False
  let ?h = "bt_handle bt"
  have w: "\<not> bt_is_writable bt b" using wr [OF assms(2,3)] assms(1) False by (simp add: bt_is_writable_def)
  obtain b' h' where m: "blk_move bops ?h b = Some (b', n, h')" "inv h'" "ext ?h h'" "nd (view ?h) b' = None"
    "view h' = \<lparr>nd = (nd (view ?h))(b' \<mapsto> n), saved = insert b' (saved (view ?h)), writable = insert b' (writable (view ?h)),
        unwritten = insert b' (unwritten (view ?h)), cached = insert b' (insert b (cached (view ?h))), spare = spare (view ?h) - 1\<rparr>"
    using mv [OF assms(2,3,5,6)] by auto
  have ne: "b' \<noteq> b" using m(4) assms(3) by auto
  have "evolves ?h {b} h' {b'} 1" using m assms(3,6) ne by (auto simp: evolves_def)
  then show ?thesis using w assms(1,3) m(1,5) ne fetch_node_ok [OF assms(5)]
    by (intro exI [of _ h'] exI [of _ b']) (simp add: bt_move_def)
qed

lemma finish_node:
  assumes "tab bt" "inv (bt_handle bt)" "nd (vw bt) b = Some n" "b \<in> cached (vw bt)" "node_ok N n" "0 < spare (vw bt)"
  shows "\<exists>h' b' c'. finish_level bt i b True c = Some (level_tree bt i h' c', c') \<and> c' = c\<lparr>moved := b' \<noteq> b, moved_bid := b'\<rparr> \<and>
    evolves (bt_handle bt) {b} h' {b'} 1 \<and> nd (view h') b' = Some n"
proof -
  obtain h' b' where w: "if bt_is_writable bt b then b' = b \<and> bt_set_dirty bt b = bt\<lparr>bt_handle := h'\<rparr>
      else b' \<noteq> b \<and> bt_move bt b = Some (b', n, bt\<lparr>bt_handle := h'\<rparr>)"
    "evolves (bt_handle bt) {b} h' {b'} 1" "nd (view h') b' = Some n" using write_back [OF assms] by blast
  then show ?thesis
    by (intro exI [of _ h'] exI [of _ b'] exI [of _ "c\<lparr>moved := b' \<noteq> b, moved_bid := b'\<rparr>"])
      (auto simp: finish_level_def btree_move_modified_node_def level_tree_def split: if_splits)
qed

lemma alloc_node:
  assumes "tab bt" "inv (bt_handle bt)" "0 < spare (vw bt)"
  shows "\<exists>nb n h'. bt_alloc bt = Some (nb, n, bt\<lparr>bt_handle := h'\<rparr>) \<and> inv h' \<and> ext (bt_handle bt) h' \<and> nd (vw bt) nb = None \<and>
    sizeof_bnode + length (payload n) = N \<and> payload n \<noteq> [] \<and> last (payload n) = BLK_MARKER_BNODE \<and>
    view h' = \<lparr>nd = (nd (vw bt))(nb \<mapsto> n), saved = insert nb (saved (vw bt)), writable = insert nb (writable (vw bt)),
      unwritten = insert nb (unwritten (vw bt)), cached = insert nb (cached (vw bt)), spare = spare (vw bt) - 1\<rparr>"
proof -
  obtain nb n h' where a: "blk_alloc bops (bt_handle bt) = Some (nb, n, h')" "inv h'" "ext (bt_handle bt) h'" "nd (vw bt) nb = None"
    "payload n \<noteq> []" "last (payload n) = BLK_MARKER_BNODE"
    "view h' = \<lparr>nd = (nd (vw bt))(nb \<mapsto> n), saved = insert nb (saved (vw bt)), writable = insert nb (writable (vw bt)),
      unwritten = insert nb (unwritten (vw bt)), cached = insert nb (cached (vw bt)), spare = spare (vw bt) - 1\<rparr>"
    using al [OF assms(2,3)] by blast
  have "nd (view h') nb = Some n" using a(7) by simp
  then have "sizeof_bnode + length (payload n) = N" by (rule size_of [OF a(2)])
  with a assms(1) show ?thesis by (auto simp: bt_alloc_def)
qed

text \<open>Splitting a full node: a new block gets the upper half, and the pending entry goes where it belongs.\<close>

lemma split_state:
  assumes t: "tab bt" "inv (bt_handle bt)" "0 < spare (vw bt)" and b: "nd (vw bt) b = Some m" "b \<in> cached (vw bt)"
    and n: "rep n es" "asc (kv_cmp ops) es" "node_ok N n" "room K V n 2" "\<not> room K V n (Suc (length es))"
    and c: "kv_ins_list c = [(a, v)]" "ins c" "length a = K" "length v = V" "a \<notin> fst ` set es"
    and mk: "mk \<longrightarrow> idx = Some 0 \<and> length key = K"
  shows "\<exists>h' nb L R eL eR. btree_split_node bt key i (b, n, idx) 2 mk c =
      (if i + 1 < bt_height bt then Some (Inr ([(fst (hd eR), bid_val ops nb)], bt\<lparr>bt_handle := h'\<rparr>))
       else map_option Inl (grow_root (bt\<lparr>bt_handle := h'\<rparr>) b L [(nb, R)])) \<and>
    inv h' \<and> ext (bt_handle bt) h' \<and> nd (vw bt) nb = None \<and> nd (view h') = (nd (vw bt))(b \<mapsto> L, nb \<mapsto> R) \<and>
    saved (vw bt) - {b} \<subseteq> saved (view h') \<and> nb \<in> saved (view h') \<and> insert nb (cached (vw bt)) \<subseteq> cached (view h') \<and>
    unwritten (vw bt) \<subseteq> unwritten (view h') \<and>
    spare (vw bt) \<le> spare (view h') + 1 \<and>
    rep L (if mk then (key, snd (hd eL)) # tl eL else eL) \<and> rep R eR \<and> eL @ eR = put (kv_cmp ops) a v es \<and> eL \<noteq> [] \<and> eR \<noteq> [] \<and>
    kv_cmp ops (fst (hd es)) (fst (hd eR)) < 0 \<and> entry_change n L \<and> node_ok N R \<and> bn_level R = bn_level n \<and> room K V R 2"
proof -
  obtain nb addr h1 where al: "bt_alloc bt = Some (nb, addr, bt\<lparr>bt_handle := h1\<rparr>)" "inv h1" "ext (bt_handle bt) h1" "nd (vw bt) nb = None"
    "sizeof_bnode + length (payload addr) = N" "payload addr \<noteq> []" "last (payload addr) = BLK_MARKER_BNODE"
    "view h1 = \<lparr>nd = (nd (vw bt))(nb \<mapsto> addr), saved = insert nb (saved (vw bt)), writable = insert nb (writable (vw bt)),
      unwritten = insert nb (unwritten (vw bt)), cached = insert nb (cached (vw bt)), spare = spare (vw bt) - 1\<rparr>"
    using alloc_node [OF t] by blast
  define f where "f = btree_init_node K V addr 0 (bn_level n) None"
  have f: "rep f []" "node_ok N f" "bn_level f = bn_level n" "bn_data f = payload addr"
    using init_node_plain [OF al(5-7) small, of 0 f "bn_level n" None] by (simp_all add: f_def)
  have le: "length (bn_data n) \<le> length (bn_data f)" using al(5) n(3) by (simp add: f(4) node_ok_def payload_def)
  obtain L R eL eR where LR: "split_insert ops (distribute ops n [f]) (a, v) = [L, R]" "rep L eL" "rep R eR"
    "eL @ eR = put (kv_cmp ops) a v es" "eL \<noteq> []" "eR \<noteq> []" "entry_change n L" "entry_change f R" "kv_cmp ops (fst (hd es)) (fst (hd eR)) < 0"
    using split_two [OF n f(1) le c(3-5)] by blast
  define L' where "L' = (if mk then replace_key ops L (the idx) key else L)"
  have L': "rep L' (if mk then (key, snd (hd eL)) # tl eL else eL)" "entry_change n L'"
  proof -
    have "rep L' (if mk then (key, snd (hd eL)) # tl eL else eL) \<and> entry_change n L'"
    proof (cases mk)
      case True
      obtain e es' where e: "eL = e # es'" using LR(5) by (cases eL) auto
      then have "snd (kv_get ops L 0) = snd e" "length (snd e) = V" using get [OF LR(2), of 0] rep_sized [OF LR(2)] by (auto simp: sized_def)
      then show ?thesis using set_at [OF LR(2), of 0 key "snd e"] True mk e LR(7) entry_change_trans data_entry_change(2)
        by (auto simp: L'_def replace_key_def)
    qed (use LR in \<open>simp add: L'_def\<close>)
    then show "rep L' (if mk then (key, snd (hd eL)) # tl eL else eL)" "entry_change n L'" by auto
  qed
  have ne: "nb \<noteq> b" using al(4) b(1) by auto
  have okL: "node_ok N L'" using node_ok_entry_change [OF n(3) L'(2)] .
  have okR: "node_ok N R" using node_ok_entry_change [OF f(2) LR(8)] .
  let ?b1 = "bt\<lparr>bt_handle := h1\<rparr>"
  define b2 where "b2 = bt_store ?b1 b L'"
  define b3 where "b3 = bt_store b2 nb R"
  obtain S1 where s1: "inv (bt_handle b2)" "ext h1 (bt_handle b2)" "saved (view h1) - ({b} - unwritten (view h1)) \<subseteq> S1"
    "vw b2 = (view h1)\<lparr>nd := (nd (view h1))(b \<mapsto> L'), saved := S1\<rparr>"
    using store_node [of ?b1 b m L'] t(1) al(2,8) ne b okL by (auto simp: b2_def)
  have t2: "tab b2" using t(1) by (simp add: b2_def bt_store_def)
  obtain S2 where s2: "inv (bt_handle b3)" "ext (bt_handle b2) (bt_handle b3)" "S1 - ({nb} - unwritten (vw b2)) \<subseteq> S2"
    "vw b3 = (vw b2)\<lparr>nd := (nd (vw b2))(nb \<mapsto> R), saved := S2\<rparr>"
    using store_node [OF t2 s1(1), of nb addr R] s1(4) al(8) ne okR by (auto simp: b3_def)
  have e: "bt\<lparr>bt_handle := bt_handle b3\<rparr> = b3" by (simp add: b3_def b2_def bt_store_def)
  have v: "vw b3 = \<lparr>nd = (nd (vw bt))(b \<mapsto> L', nb \<mapsto> R), saved = S2,
      writable = insert nb (writable (vw bt)), unwritten = insert nb (unwritten (vw bt)), cached = insert nb (cached (vw bt)), spare = spare (vw bt) - 1\<rparr>"
    "insert nb (saved (vw bt)) - {b} \<subseteq> S2"
    using s1(3,4) s2(3,4) al(8) ne by (auto simp: fun_upd_twist)
  have sp: "kv_nth_splitter ops L' R = fst (hd eR)" using splitter [OF LR(3,6)] .
  have "btree_split_node bt key i (b, n, idx) 2 mk c =
      (if i + 1 < bt_height bt then Some (Inr ([(fst (hd eR), bid_val ops nb)], b3)) else map_option Inl (grow_root b3 b L' [(nb, R)]))"
    using c(1,2) t(1) LR(1) sp by (cases mk) (simp_all add: btree_split_node_def al(1) b3_def b2_def Let_def L'_def flip: f_def)
  moreover have "ext (bt_handle bt) (bt_handle b3)" using ext_trans [OF al(3) ext_trans [OF s1(2) s2(2)]] .
  moreover have "room K V R 2" using entry_change_room [OF LR(8)] room_le [OF n(4) le] by simp
  moreover have "bn_level R = bn_level n" using LR(8) f(3) by (cases f; cases R) (simp add: entry_change_def)
  moreover have "nd (vw b3) = (nd (vw bt))(b \<mapsto> L', nb \<mapsto> R)" "saved (vw bt) - {b} \<subseteq> saved (vw b3)" "nb \<in> saved (vw b3)"
    "insert nb (cached (vw bt)) \<subseteq> cached (vw b3)" "spare (vw bt) \<le> spare (vw b3) + 1" "unwritten (vw bt) \<subseteq> unwritten (vw b3)"
    using ne v(2) by (auto simp: v(1))
  ultimately show ?thesis using e s2(1) al(4) L' LR(3-6,9) okR
    by (intro exI [of _ "bt_handle b3"] exI [of _ nb] exI [of _ L'] exI [of _ R] exI [of _ eL] exI [of _ eR]) simp
qed

section \<open>One level of the cascade\<close>

text \<open>The entries of a node after the pending entry was added and the smallest key replaced.\<close>

definition amend :: "bool \<Rightarrow> buf \<Rightarrow> (buf \<times> buf) list \<Rightarrow> (buf \<times> buf) list \<Rightarrow> (buf \<times> buf) list" where
  "amend mk key items es =
     (let es2 = (case items of [] \<Rightarrow> es | (a, v) # _ \<Rightarrow> put (kv_cmp ops) a v es)
      in if mk then (key, snd (hd es2)) # tl es2 else es2)"

text \<open>
  What a level leaves behind: one node, or two after a split, with the given entries, and what its
  parent has to know about them.
\<close>

definition node_change :: "view \<Rightarrow> nat \<Rightarrow> view \<Rightarrow> nat \<Rightarrow> bool" where
  "node_change v b v' b' \<longleftrightarrow> (\<exists>n n'. nd v b = Some n \<and> nd v' b' = Some n' \<and> entry_change n n')"

definition level_done :: "'h btree \<Rightarrow> nat \<Rightarrow> nat \<Rightarrow> nat \<Rightarrow> cascade \<Rightarrow> bool \<Rightarrow> (buf \<times> buf) list \<Rightarrow> (buf \<times> buf) list \<Rightarrow>
    'h \<Rightarrow> cascade \<Rightarrow> (nat \<times> (buf \<times> buf) list) list \<Rightarrow> bool" where
  "level_done bt b level i c upd es es' h' c' parts \<longleftrightarrow>
     evolves (bt_handle bt) {b} h' (fst ` set parts) 2 \<and>
     (\<forall>(x, e) \<in> set parts. node_on K V N (nd (view h')) x level e) \<and> concat (map snd parts) = es' \<and>
     node_change (vw bt) b (view h') (fst (hd parts)) \<and>
     distinct (map fst parts) \<and> parts \<noteq> [] \<and> length parts \<le> 2 \<and> (tl parts \<noteq> [] \<longrightarrow> ins c \<and> \<not> upd \<and> i + 1 < bt_height bt) \<and>
     (\<forall>(x, e) \<in> set (tl parts). e \<noteq> [] \<and> snd (hd parts) \<noteq> [] \<and> kv_cmp ops (fst (hd es)) (fst (hd e)) < 0) \<and>
     c' = c\<lparr>moved := fst (hd parts) \<noteq> b, moved_bid := fst (hd parts), is_update := upd, ins := tl parts \<noteq> [],
            kv_ins_list := map (\<lambda>(x, e). (fst (hd e), bid_val ops x)) (tl parts)\<rparr>"

lemma foldl_items:
  "length items \<le> 1 \<Longrightarrow> foldl (\<lambda>n (a, b). snd (btree_add_entry ops n a b)) n items =
     (case items of [] \<Rightarrow> n | (a, v) # _ \<Rightarrow> snd (btree_add_entry ops n a v))"
  by (cases items; cases "tl items") auto

lemma amend_fits:
  assumes "rep n es" "asc (kv_cmp ops) es" "length items \<le> 1" "sized K V items" "mk \<longrightarrow> length key = K \<and> es \<noteq> []"
    "\<forall>(a, v) \<in> set items. room K V n (Suc (length es)) \<or> a \<in> fst ` set es"
  defines "n2 \<equiv> case items of [] \<Rightarrow> n | (a, v) # _ \<Rightarrow> snd (btree_add_entry ops n a v)"
  shows "rep (if mk then replace_key ops n2 0 key else n2) (amend mk key items es)"
    "entry_change n (if mk then replace_key ops n2 0 key else n2)"
proof -
  let ?es2 = "case items of [] \<Rightarrow> es | (a, v) # _ \<Rightarrow> put (kv_cmp ops) a v es"
  have n2: "rep n2 ?es2 \<and> entry_change n n2"
  proof (cases items)
    case (Cons e xs)
    obtain a v where e: "e = (a, v)" by (cases e)
    have "length a = K" "length v = V" "room K V n (Suc (length es)) \<or> a \<in> fst ` set es" using assms(4,6) Cons e by auto
    then show ?thesis using add_entry_spec [OF assms(1,2)] Cons e by (simp add: n2_def)
  qed (use assms(1) entry_change_refl in \<open>simp add: n2_def\<close>)
  have "rep (if mk then replace_key ops n2 0 key else n2) (amend mk key items es) \<and>
    entry_change n (if mk then replace_key ops n2 0 key else n2)"
  proof (cases mk)
    case True
    then have "?es2 \<noteq> []" using assms(5) by (cases items) auto
    then obtain e es' where e: "?es2 = e # es'" by (cases ?es2) auto
    then have r: "rep n2 (e # es')" using n2 by simp
    then have "kv_get ops n2 0 = e" "length (snd e) = V" using get [OF r, of 0] rep_sized [OF r] by (auto simp: sized_def)
    then have "rep (replace_key ops n2 0 key) ((key, snd e) # es') \<and> data_change n2 (replace_key ops n2 0 key)"
      using set_at [OF r, of 0 key "snd e"] True assms(5) by (simp add: replace_key_def)
    then show ?thesis using True e n2 entry_change_trans data_entry_change(2) by (auto simp: amend_def)
  qed (use n2 in \<open>simp add: amend_def\<close>)
  then show "rep (if mk then replace_key ops n2 0 key else n2) (amend mk key items es)"
    "entry_change n (if mk then replace_key ops n2 0 key else n2)" by auto
qed

text \<open>The state of a node in the middle of the cascade; relinking a child keeps it.\<close>

definition at_node :: "'h btree \<Rightarrow> nat \<Rightarrow> bnode \<Rightarrow> nat \<Rightarrow> bool" where
  "at_node bt b n k \<longleftrightarrow> tab bt \<and> inv (bt_handle bt) \<and> k \<le> spare (vw bt) \<and> nd (vw bt) b = Some n \<and> b \<in> cached (vw bt) \<and>
     node_ok N n \<and> room K V n 2"

lemma at_node_store:
  assumes "at_node bt b n k" "entry_change n n'"
  shows "at_node (bt_store bt b n') b n' k"
proof -
  have a: "tab bt" "inv (bt_handle bt)" "nd (vw bt) b = Some n" "b \<in> cached (vw bt)" "node_ok N n'" "room K V n' 2"
    using assms node_ok_entry_change entry_change_room by (auto simp: at_node_def)
  note s = store_node [OF a(1-5)]
  have "tab (bt_store bt b n')" using a(1) by (simp add: bt_store_def)
  then show ?thesis using assms(1) a s(1,3) by (auto simp: at_node_def)
qed

lemma level_one:
  assumes "at_node bt b n 1" "entry_change n n'" "rep n' es'" "kv_ins_list c = []" "\<not> ins c"
  shows "\<exists>h' c' parts. finish_level (bt_store bt b n') i b True c = Some (level_tree bt i h' c', c') \<and>
    level_done bt b (bn_level n) i c (is_update c) es es' h' c' parts"
proof -
  note a = at_node_store [OF assms(1,2)]
  obtain h' b' c' where f: "finish_level (bt_store bt b n') i b True c = Some (level_tree bt i h' c', c')" "c' = c\<lparr>moved := b' \<noteq> b, moved_bid := b'\<rparr>"
    "evolves (bt_handle (bt_store bt b n')) {b} h' {b'} 1" "nd (view h') b' = Some n'"
    using finish_node [of "bt_store bt b n'" b n' i c] a unfolding at_node_def level_tree_store by auto
  have "evolves (bt_handle bt) {b} h' {b'} 2"
    using assms(1) a by (intro evolves_mono [OF store_evolves [OF _ _ _ _ _ f(3)]]) (auto simp: at_node_def)
  moreover have "node_on K V N (nd (view h')) b' (bn_level n) es'"
    using f(4) a assms(3) entry_change_fields [OF assms(2)] by (auto simp: node_on_def at_node_def)
  moreover have "node_change (vw bt) b (view h') b'" using f(4) assms(1,2) by (auto simp: node_change_def at_node_def)
  ultimately have "level_done bt b (bn_level n) i c (is_update c) es es' h' c' [(b', es')]"
    using assms(4,5) f(2) by (simp add: level_done_def)
  with f(1) show ?thesis by blast
qed

lemma level_two:
  assumes "at_node bt b n 2" "rep n es" "asc (kv_cmp ops) es" "\<not> room K V n (Suc (length es))" "i + 1 < bt_height bt"
    "kv_ins_list c = [(x, v)]" "ins c" "length x = K" "length v = V" "x \<notin> fst ` set es" "mk \<longrightarrow> idx = Some 0 \<and> length key = K" "\<not> upd"
  shows "\<exists>items bt2 h' c' parts. btree_split_node bt key i (b, n, idx) 2 mk c = Some (Inr (items, bt2)) \<and>
    finish_level bt2 i b True (c\<lparr>kv_ins_list := items, ins := True, is_update := upd\<rparr>) = Some (level_tree bt i h' c', c') \<and>
    level_done bt b (bn_level n) i c upd es (amend mk key [(x, v)] es) h' c' parts"
proof -
  have t: "tab bt" "inv (bt_handle bt)" "0 < spare (vw bt)" "nd (vw bt) b = Some n" "b \<in> cached (vw bt)" "node_ok N n" "room K V n 2"
    using assms(1) by (auto simp: at_node_def)
  obtain h1 nb L R eL eR where s: "btree_split_node bt key i (b, n, idx) 2 mk c = Some (Inr ([(fst (hd eR), bid_val ops nb)], bt\<lparr>bt_handle := h1\<rparr>))"
    "inv h1" "ext (bt_handle bt) h1" "nd (vw bt) nb = None" "nd (view h1) = (nd (vw bt))(b \<mapsto> L, nb \<mapsto> R)"
    "saved (vw bt) - {b} \<subseteq> saved (view h1)" "nb \<in> saved (view h1)" "insert nb (cached (vw bt)) \<subseteq> cached (view h1)"
    "spare (vw bt) \<le> spare (view h1) + 1" "unwritten (vw bt) \<subseteq> unwritten (view h1)"
    "rep L (if mk then (key, snd (hd eL)) # tl eL else eL)" "rep R eR" "eL @ eR = put (kv_cmp ops) x v es" "eL \<noteq> []" "eR \<noteq> []"
    "kv_cmp ops (fst (hd es)) (fst (hd eR)) < 0" "entry_change n L" "node_ok N R" "bn_level R = bn_level n" "room K V R 2"
    using split_state [OF t(1-5) assms(2,3) t(6,7) assms(4) assms(6-11), of i] assms(5) by auto
  let ?b1 = "bt\<lparr>bt_handle := h1\<rparr>" and ?c = "c\<lparr>kv_ins_list := [(fst (hd eR), bid_val ops nb)], ins := True, is_update := upd\<rparr>"
  have ne: "nb \<noteq> b" using s(4) t(4) by auto
  have L: "node_ok N L" "room K V L 2" "bn_level L = bn_level n"
    using node_ok_entry_change [OF t(6) s(17)] entry_change_room [OF s(17)] t(7) entry_change_fields [OF s(17)] by auto
  have "0 < spare (view h1)" using s(9) assms(1) by (simp add: at_node_def)
  then obtain h' b' c' where f: "finish_level ?b1 i b True ?c = Some (level_tree ?b1 i h' c', c')" "c' = ?c\<lparr>moved := b' \<noteq> b, moved_bid := b'\<rparr>"
    "evolves h1 {b} h' {b'} 1" "nd (view h') b' = Some L"
    using finish_node [of ?b1 b L i ?c] t(1,5) s(2,5,8) ne L(1) by auto
  have e1: "evolves (bt_handle bt) {b} h1 {nb} 1" using s(2-10) t(4) ne by (auto simp: evolves_def)
  have e: "evolves (bt_handle bt) {b} h' {nb, b'} 2" using evolves_trans [OF e1 f(3)] ne by (simp add: insert_commute numeral_2_eq_2)
  have nb: "nd (view h') nb = Some R" using evolves_keeps [OF e1 f(3), of nb] ne s(5) by simp
  have ne': "b' \<noteq> nb" using f(3) ne s(5) by (auto simp: evolves_def)
  let ?eL = "if mk then (key, snd (hd eL)) # tl eL else eL"
  have am: "?eL @ eR = amend mk key [(x, v)] es" using s(13,14) by (cases eL) (auto simp: amend_def simp flip: s(13))
  have "level_done bt b (bn_level n) i c upd es (amend mk key [(x, v)] es) h' c' [(b', ?eL), (nb, eR)]"
    unfolding level_done_def using e f(2,4) nb s(11,12,14-20) L ne' am assms(5,7,12) t(4) by (auto simp: node_on_def node_change_def insert_commute)
  moreover have "level_tree ?b1 i h' c' = level_tree bt i h' c'" by (simp add: level_tree_def)
  ultimately show ?thesis using s(1) f(1) by auto
qed

lemma level_done_store:
  assumes "at_node bt b n k" "entry_change n n1" "level_done (bt_store bt b n1) b level i c u es es' h' c' parts"
  shows "level_done bt b level i c u es es' h' c' parts"
proof -
  have "evolves (bt_handle bt) {b} h' (fst ` set parts) 2"
    using assms(1,3) node_ok_entry_change [OF _ assms(2)]
    by (intro store_evolves [of bt b n n1]) (auto simp: at_node_def level_done_def)
  moreover have "nd (vw (bt_store bt b n1)) b = Some n1" "nd (vw bt) b = Some n"
    using assms(1) at_node_store [OF assms(1,2)] by (auto simp: at_node_def)
  then have "node_change (vw bt) b (view h') (fst (hd parts))"
    using assms(3) entry_change_trans [OF assms(2)] by (auto simp: level_done_def node_change_def)
  moreover have "bt_height (bt_store bt b n1) = bt_height bt" by (simp add: bt_store_def)
  ultimately show ?thesis using assms(3) by (simp add: level_done_def)
qed

lemma level_done_cascade:
  "level_done bt b lv i (c\<lparr>kv_ins_list := xs, ins := False, is_update := z\<rparr>) u es es' h' c' parts \<Longrightarrow> level_done bt b lv i c u es es' h' c' parts"
  "level_done bt b lv i (c\<lparr>kv_ins_list := xs, ins := False\<rparr>) u es es' h' c' parts \<Longrightarrow> level_done bt b lv i c u es es' h' c' parts"
  by (auto simp: level_done_def)

text \<open>What the cascade knows when it arrives at a level, and the entries of the node after relinking.\<close>

definition level_pre :: "'h btree \<Rightarrow> buf \<Rightarrow> nat \<Rightarrow> nat \<Rightarrow> bnode \<Rightarrow> nat option \<Rightarrow> cascade \<Rightarrow> bnode \<Rightarrow> (buf \<times> buf) list \<Rightarrow> bool \<Rightarrow> bool \<Rightarrow> bool" where
  "level_pre bt key i b n idx c n1 es mk upd \<longleftrightarrow>
     (let k = (case idx of Some j \<Rightarrow> fst (kv_get ops n j) | None \<Rightarrow> []) in
      at_node bt b n 2 \<and> b \<in> saved (vw bt) \<and>
      n1 = (if i > 0 \<and> moved c then kv_set ops n (the idx) k (bid_val ops (moved_bid c)) else n) \<and>
      rep n1 es \<and> entry_change n n1 \<and> asc (kv_cmp ops) es \<and>
      (mk \<longleftrightarrow> i > 0 \<and> idx = Some 0 \<and> lt key k) \<and> (mk \<longrightarrow> length key = K \<and> es \<noteq> []) \<and>
      length (kv_ins_list c) \<le> 1 \<and> (ins c \<longleftrightarrow> kv_ins_list c \<noteq> []) \<and> sized K V (kv_ins_list c) \<and>
      (upd \<longleftrightarrow> i = 0 \<and> idx \<noteq> None \<and> kv_cmp ops (fst (hd (kv_ins_list c))) k = 0) \<and>
      (ins c \<longrightarrow> (fst (hd (kv_ins_list c)) \<in> fst ` set es \<longleftrightarrow> upd)))"

lemma level_preD:
  assumes "level_pre bt key i b n idx c n1 es mk upd"
  shows "at_node bt b n 2" "b \<in> saved (vw bt)" "rep n1 es" "entry_change n n1" "asc (kv_cmp ops) es"
    "mk \<longrightarrow> i > 0 \<and> idx = Some 0 \<and> length key = K \<and> es \<noteq> []"
    "length (kv_ins_list c) \<le> 1" "ins c \<longleftrightarrow> kv_ins_list c \<noteq> []" "sized K V (kv_ins_list c)"
    "ins c \<longrightarrow> (fst (hd (kv_ins_list c)) \<in> fst ` set es \<longleftrightarrow> upd)" "node_ok N n1" "\<not> (i > 0 \<and> moved c) \<longrightarrow> n1 = n"
proof -
  note p = assms [unfolded level_pre_def Let_def]
  show "at_node bt b n 2" "entry_change n n1" "\<not> (i > 0 \<and> moved c) \<longrightarrow> n1 = n" using p by metis+
  then show "node_ok N n1" using node_ok_entry_change by (auto simp: at_node_def)
  show "b \<in> saved (vw bt)" "rep n1 es" "asc (kv_cmp ops) es" "mk \<longrightarrow> i > 0 \<and> idx = Some 0 \<and> length key = K \<and> es \<noteq> []"
    "length (kv_ins_list c) \<le> 1" "ins c \<longleftrightarrow> kv_ins_list c \<noteq> []" "sized K V (kv_ins_list c)"
    "ins c \<longrightarrow> (fst (hd (kv_ins_list c)) \<in> fst ` set es \<longleftrightarrow> upd)" using p by metis+
qed

lemma level_unfold:
  assumes "level_pre bt key i b n idx c n1 es mk upd"
  defines "bt1 \<equiv> if i > 0 \<and> moved c then bt_store bt b n1 else bt"
    and "n2 \<equiv> case kv_ins_list c of [] \<Rightarrow> n1 | (a, v) # _ \<Rightarrow> snd (btree_add_entry ops n1 a v)"
    and "nsplit \<equiv> btree_get_nsplitnode N n1 (sizeof_bnode + length (bn_meta n1) + (length es + length (kv_ins_list c)) * (K + V))"
  shows "insert_level bt key i (b, n, idx) c =
    (if ins c \<or> mk then
       if room K V n1 (length es + length (kv_ins_list c)) \<or> upd
       then finish_level (bt_store bt1 b (if mk then replace_key ops n2 0 key else n2)) i b True (c\<lparr>kv_ins_list := [], ins := False, is_update := upd\<rparr>)
       else do {
         res \<leftarrow> btree_split_node bt1 key i (b, n1, idx) (if nsplit = 1 then 2 else nsplit) mk c;
         (case res of
            Inl bt2 \<Rightarrow> Some (bt2, c\<lparr>is_update := upd, height_growup := True\<rparr>)
          | Inr (items, bt2) \<Rightarrow> finish_level bt2 i b True (c\<lparr>kv_ins_list := items, ins := True, is_update := upd\<rparr>))
       }
     else finish_level bt1 i b (i > 0 \<and> moved c) (c\<lparr>kv_ins_list := [], ins := False\<rparr>))"
proof -
  note p = level_preD [OF assms(1)]
  have t: "tab bt" "inv (bt_handle bt)" using p(1) by (auto simp: at_node_def)
  have gs': "bt_get_size bt x = N" for x using gs [OF t(2)] t(1) by (simp add: bt_get_size_def)
  have f: "(if ins c then foldl (\<lambda>n (a, b). snd (btree_add_entry ops n a b)) n1 (kv_ins_list c) else n1) = n2"
    using p(8) foldl_items [OF p(7), of n1] by (simp add: n2_def)
  define k where "k = (case idx of Some j \<Rightarrow> fst (kv_get ops n j) | None \<Rightarrow> [])"
  have e: "(i > 0 \<and> idx = Some 0 \<and> lt key k) = mk" "(if i > 0 \<and> moved c then kv_set ops n (the idx) k (bid_val ops (moved_bid c)) else n) = n1"
    "(i = 0 \<and> idx \<noteq> None \<and> kv_cmp ops (fst (hd (kv_ins_list c))) k = 0) = upd"
    using assms(1) unfolding level_pre_def Let_def k_def by metis+
  have m: "(if mk then replace_key ops n2 (the idx) key else n2) = (if mk then replace_key ops n2 0 key else n2)" using p(6) by auto
  have tb: "bt_kv_ops bt = ops" using t(1) by simp
  show ?thesis
    unfolding insert_level_def Let_def split_beta fst_conv snd_conv prod.case tb k_def [symmetric] e bt1_def [symmetric]
      gs' size_check [OF p(3,11)] f m nsplit_def [symmetric]
    by (rule refl)
qed

lemma level_step:
  assumes "level_pre bt key i b n idx c n1 es mk upd"
    "i + 1 < bt_height bt \<or> \<not> ins c \<or> room K V n1 (Suc (length es)) \<or> upd"
  shows "\<exists>h' c' parts. insert_level bt key i (b, n, idx) c = Some (level_tree bt i h' c', c') \<and>
    level_done bt b (bn_level n) i c (if ins c \<or> mk then upd else is_update c) es (amend mk key (kv_ins_list c) es) h' c' parts"
proof -
  note p = level_preD [OF assms(1)]
  define bt1 where "bt1 = (if i > 0 \<and> moved c then bt_store bt b n1 else bt)"
  define n2 where "n2 = (case kv_ins_list c of [] \<Rightarrow> n1 | (a, v) # _ \<Rightarrow> snd (btree_add_entry ops n1 a v))"
  note u = level_unfold [OF assms(1), folded bt1_def n2_def]
  have a1: "at_node bt1 b n1 2" using p(1,12) at_node_store [OF p(1,4)] by (auto simp: bt1_def)
  then have a1': "at_node bt1 b n1 1" by (auto simp: at_node_def)
  have p1: "at_node bt b n 1" using p(1) by (auto simp: at_node_def)
  have lv: "bn_level n1 = bn_level n" using entry_change_fields [OF p(4)] by simp
  have lift: "\<exists>h' c' parts. X = Some (level_tree bt i h' c', c') \<and> level_done bt b (bn_level n) i c v es es' h' c' parts"
    if q0: "\<exists>h' c' parts. X = Some (level_tree bt1 i h' c', c') \<and> level_done bt1 b (bn_level n1) i c v es es' h' c' parts" for X v es'
  proof -
    obtain h' c' parts where q: "X = Some (level_tree bt1 i h' c', c')" "level_done bt1 b (bn_level n) i c v es es' h' c' parts" using q0 lv by auto
    moreover have "level_tree bt1 i h' c' = level_tree bt i h' c'" by (simp add: bt1_def level_tree_store)
    moreover have "level_done bt b (bn_level n) i c v es es' h' c' parts"
      using q(2) level_done_store [OF p(1,4)] by (cases "i > 0 \<and> moved c") (simp_all add: bt1_def)
    ultimately show ?thesis by auto
  qed
  show ?thesis
  proof (cases "ins c \<or> mk")
    case False
    then have am: "amend mk key (kv_ins_list c) es = es" using p(8) by (simp add: amend_def)
    show ?thesis
    proof (cases "i > 0 \<and> moved c")
      case True
      then show ?thesis
        using u False level_one [OF p1 p(4,3), of "c\<lparr>kv_ins_list := [], ins := False\<rparr>" i es] am level_done_cascade(2)
        by (simp add: bt1_def) blast
    next
      case nr: False
      let ?c = "c\<lparr>moved := False, moved_bid := b, kv_ins_list := [], ins := False\<rparr>"
      have "level_done bt b (bn_level n) i c (is_update c) es es (bt_handle bt) ?c [(b, es)]"
        using p nr evolves_mono [OF evolves_same, of "bt_handle bt" "{b}" 2] entry_change_refl
        by (auto simp: level_done_def node_on_def at_node_def node_change_def)
      moreover have "level_tree bt i (bt_handle bt) ?c = bt" by (simp add: level_tree_def)
      moreover have "insert_level bt key i (b, n, idx) c = Some (bt, ?c)" using u False nr by (auto simp: bt1_def finish_level_def)
      ultimately show ?thesis using False am by (intro exI [of _ "bt_handle bt"] exI [of _ ?c] exI [of _ "[(b, es)]"]) simp
    qed
  next
    case True
    show ?thesis
    proof (cases "room K V n1 (length es + length (kv_ins_list c)) \<or> upd")
      case fits: True
      have "\<forall>(a, v) \<in> set (kv_ins_list c). room K V n1 (Suc (length es)) \<or> a \<in> fst ` set es"
      proof (cases "kv_ins_list c")
        case (Cons x xs)
        then have "xs = []" "ins c" using p(7,8) by simp_all
        then have "room K V n1 (Suc (length es)) \<or> fst x \<in> fst ` set es" using fits p(10) Cons by (cases upd) simp_all
        then show ?thesis using Cons \<open>xs = []\<close> by (simp add: case_prod_unfold)
      qed simp
      note af = amend_fits [OF p(3,5,7,9) _ this, of mk key, folded n2_def]
      have "\<exists>h' c' parts. insert_level bt key i (b, n, idx) c = Some (level_tree bt1 i h' c', c') \<and>
        level_done bt1 b (bn_level n1) i c upd es (amend mk key (kv_ins_list c) es) h' c' parts"
        using u True fits level_one [OF a1' af(2,1), of "c\<lparr>kv_ins_list := [], ins := False, is_update := upd\<rparr>" i es] p(6) level_done_cascade(1)
        by (cases mk) (simp, blast)+
      from lift [OF this] True show ?thesis by simp
    next
      case nofit: False
      have "kv_ins_list c \<noteq> []" using nofit rep_room [OF p(3), of "length es"] by auto
      then obtain x v where xv: "kv_ins_list c = [(x, v)]" using p(7) by (cases "kv_ins_list c"; cases "tl (kv_ins_list c)") auto
      have nr: "\<not> room K V n1 (Suc (length es))" "\<not> upd" "ins c" using nofit xv p(8) by auto
      then have ht: "i + 1 < bt_height bt1" using assms(2) by (simp add: bt1_def bt_store_def)
      have ne: "es \<noteq> []" using a1 nr(1) room_mono [of n1 2 1] by (auto simp: at_node_def)
      have sz: "length x = K" "length v = V" "x \<notin> fst ` set es" using p(9,10) xv nr by auto
      obtain items bt2 h' c' parts where l: "btree_split_node bt1 key i (b, n1, idx) 2 mk c = Some (Inr (items, bt2))"
        "finish_level bt2 i b True (c\<lparr>kv_ins_list := items, ins := True, is_update := upd\<rparr>) = Some (level_tree bt1 i h' c', c')"
        "level_done bt1 b (bn_level n1) i c upd es (amend mk key [(x, v)] es) h' c' parts"
        using level_two [OF a1 p(3,5) nr(1) ht xv nr(3) sz _ nr(2), of mk idx key] p(6) by blast
      have "insert_level bt key i (b, n, idx) c = Some (level_tree bt1 i h' c', c')"
        using u True nofit nsplitnode [OF p(3,11) ne nr(1)] xv l(1,2) by simp
      with l(3) xv have "\<exists>h' c' parts. insert_level bt key i (b, n, idx) c = Some (level_tree bt1 i h' c', c') \<and>
        level_done bt1 b (bn_level n1) i c upd es (amend mk key (kv_ins_list c) es) h' c' parts" by auto
      from lift [OF this] True show ?thesis by simp
    qed
  qed
qed

section \<open>Growing\<close>

text \<open>The metadata of a node, and removing it.\<close>

definition meta_of :: "bnode \<Rightarrow> buf" where
  "meta_of n = (if has_meta n then mem_read (payload n) sizeof_metasize (metasize n) else [])"

lemma metasize_bound: "metasize n < 2 ^ 16"
  unfolding metasize_def using unsigned_less [of "dec16 (mem_word (take sizeof_metasize (payload n)))"] by simp

lemma meta_of_length: "node_ok N n \<Longrightarrow> has_meta n \<Longrightarrow> length (meta_of n) = metasize n"
  using metasize_align_le [of "metasize n"] by (simp add: meta_of_def mem_read_def node_ok_def payload_def)

lemma meta_of_change:
  assumes "node_ok N n" "entry_change n n'"
  shows "meta_of n' = meta_of n" "has_meta n' = has_meta n" "metasize n' = metasize n \<or> \<not> has_meta n"
proof -
  note e = entry_change_fields [OF assms(2)]
  show h: "has_meta n' = has_meta n" using e by (simp add: has_meta_def)
  have m: "metasize n' = metasize n" if "has_meta n"
    using that h e node_ok_metasize [OF assms(1)] node_ok_metasize [OF node_ok_entry_change [OF assms]] by simp
  then show "metasize n' = metasize n \<or> \<not> has_meta n" by blast
  show "meta_of n' = meta_of n"
  proof (cases "has_meta n")
    case True
    have l: "sizeof_metasize + metasize n \<le> length (bn_meta n)"
      using True assms(1) metasize_align_le [of "metasize n"] by (simp add: node_ok_def)
    have "mem_read (payload x) sizeof_metasize (metasize n) = mem_read (bn_meta n) sizeof_metasize (metasize n)"
      if "bn_meta x = bn_meta n" for x
      using l that by (simp add: payload_def mem_read_def)
    then show ?thesis using True h m e by (simp add: meta_of_def)
  qed (use h in \<open>simp add: meta_of_def\<close>)
qed

lemma and_not_same: "(x AND NOT m) AND m = (0 :: u16)"
  by (rule bit_word_eqI) (auto simp: bit_simps)

lemma and_zero: "x AND m = 0 \<Longrightarrow> (x AND y) AND m = (0 :: u16)"
  by (metis and.assoc and.commute and_zero_eq)

lemma strip_meta_spec:
  assumes "rep n es" "node_ok N n" "room K V n 2"
  shows "rep (strip_meta ops n) es" "node_ok N (strip_meta ops n)" "room K V (strip_meta ops n) 2"
    "bn_level (strip_meta ops n) = bn_level n" "\<not> has_meta (strip_meta ops n)"
    "bn_flag (strip_meta ops n) = bn_flag n AND NOT BNODE_MASK_METADATA \<or> bn_flag (strip_meta ops n) = bn_flag n"
proof -
  show l: "bn_level (strip_meta ops n) = bn_level n" and h: "\<not> has_meta (strip_meta ops n)"
    using and_not_same by (auto simp: strip_meta_def has_meta_def)
  show "bn_flag (strip_meta ops n) = bn_flag n AND NOT BNODE_MASK_METADATA \<or> bn_flag (strip_meta ops n) = bn_flag n"
    by (simp add: strip_meta_def)
  have "rep (strip_meta ops n) es \<and> node_ok N (strip_meta ops n) \<and> room K V (strip_meta ops n) 2"
  proof (cases "has_meta n")
    case True
    obtain rest where r: "bn_data n = flat es @ rest" "rest \<noteq> []" "ksz n = K" "vsz n = V" "bn_nentry n = length es" "sized K V es"
      using assms(1) by (auto simp: node_rep_def)
    have fl: "length (flat es) = length es * (K + V)" using length_flat [OF r(6)] .
    have "mem_read (bn_data n) 0 (kv_data_size ops n None []) = flat es"
      using data_size [OF assms(1), of None "[]"] fl by (simp add: mem_read_def r(1))
    then have d: "bn_data (strip_meta ops n) = flat es @ drop (length (flat es)) (payload n)" "bn_meta (strip_meta ops n) = []"
      using True by (simp_all add: strip_meta_def mem_write_def)
    have ne: "drop (length (flat es)) (payload n) \<noteq> []" "last (payload n) = last (bn_data n)"
      using r(1,2) by (auto simp: payload_def)
    have len: "length (bn_data (strip_meta ops n)) = length (payload n)" using d r(1) by (simp add: payload_def)
    have f: "ksz (strip_meta ops n) = K" "vsz (strip_meta ops n) = V" "bn_nentry (strip_meta ops n) = length es" using r by (simp_all add: strip_meta_def)
    have "rep (strip_meta ops n) es" using f d(1) ne(1) r(6) by (simp add: node_rep_def)
    moreover have "node_ok N (strip_meta ops n)" using assms(2) h d ne len by (auto simp: node_ok_def payload_def)
    moreover have "room K V (strip_meta ops n) 2" using assms(3) len by (simp add: room_def payload_def)
    ultimately show ?thesis by simp
  qed (use assms in \<open>simp add: strip_meta_def\<close>)
  then show "rep (strip_meta ops n) es" "node_ok N (strip_meta ops n)" "room K V (strip_meta ops n) 2" by auto
qed

lemma update_meta_none:
  assumes "at_node bt b n 1" "bt_root_bid bt = b" "rep n es"
  shows "\<exists>h' r. btree_update_meta bt None = Some (strip_meta ops n, bt\<lparr>bt_handle := h', bt_root_bid := r\<rparr>) \<and>
    evolves (bt_handle bt) {b} h' {} 1 \<and> nd (view h') b = Some (strip_meta ops n) \<and> b \<in> cached (view h')"
proof -
  have t: "tab bt" "inv (bt_handle bt)" "nd (vw bt) b = Some n" "node_ok N n" "room K V n 2" "0 < spare (vw bt)"
    using assms(1) by (auto simp: at_node_def)
  obtain h1 where h1: "bt_read bt b = Some (n, bt\<lparr>bt_handle := h1\<rparr>)" "reads (bt_handle bt) h1" "b \<in> cached (view h1)"
    using read_node [OF t(1-4)] by blast
  let ?b1 = "bt\<lparr>bt_handle := h1\<rparr>" and ?n = "strip_meta ops n"
  note sm = strip_meta_spec [OF assms(3) t(4,5)]
  have v1: "nd (view h1) b = Some n" "inv h1" "spare (view h1) = spare (vw bt)" using h1(2) t(3) by (auto simp: reads_def)
  define b2 where "b2 = bt_store ?b1 b ?n"
  have s: "inv (bt_handle b2)" "nd (vw b2) b = Some ?n" "b \<in> cached (vw b2)" "0 < spare (vw b2)" "tab b2"
    "b2 = ?b1\<lparr>bt_handle := bt_handle b2\<rparr>"
    using store_node [of ?b1 b n ?n, simplified, OF t(1) v1(2,1) h1(3) sm(2)] v1 h1(3) t(1,6) by (auto simp: b2_def bt_store_def)
  obtain h' b' where w: "if bt_is_writable b2 b then b' = b \<and> bt_set_dirty b2 b = b2\<lparr>bt_handle := h'\<rparr>
      else b' \<noteq> b \<and> bt_move b2 b = Some (b', ?n, b2\<lparr>bt_handle := h'\<rparr>)"
    "evolves (bt_handle b2) {b} h' {b'} 1" "nd (view h') b = Some ?n" using write_back [OF s(5,1,2,3) sm(2) s(4)] by blast
  have "evolves h1 {b} h' {b'} 1"
    using store_evolves [of ?b1 b n ?n h' "{b'}" 1] t(1) v1 h1(3) sm(2) w(2) by (simp add: b2_def)
  then have "evolves (bt_handle bt) {b} h' {b'} 1" using evolves_trans [OF evolves_reads [OF h1(2)]] by fastforce
  then have "evolves (bt_handle bt) {b} h' {} 1" "b \<in> cached (view h')" using h1(3) w(2) s(3) by (auto simp: evolves_def)
  moreover have "btree_update_meta bt None = Some (?n, b2\<lparr>bt_handle := h', bt_root_bid := b'\<rparr>)"
    using w(1) h1(1) t(1) assms(2) by (auto simp: btree_update_meta_def Let_def b2_def [symmetric] split: if_splits) (simp_all add: b2_def bt_store_def)
  moreover have "b2\<lparr>bt_handle := h', bt_root_bid := b'\<rparr> = bt\<lparr>bt_handle := h', bt_root_bid := b'\<rparr>" by (simp add: b2_def bt_store_def)
  ultimately show ?thesis using w(3) by auto
qed

text \<open>A new root takes over the flags and the metadata.\<close>

lemma new_root:
  assumes "sizeof_bnode + length (payload addr) = N" "payload addr \<noteq> []" "last (payload addr) = BLK_MARKER_BNODE"
    "node_ok N n" "room K V n 2" "has_meta n \<longrightarrow> 0 < metasize n"
    and r_def: "r = btree_init_node K V addr (bn_flag n) lv (if length (meta_of n) > 0 then Some (meta_of n) else None)"
  shows "rep r []" "node_ok N r" "room K V r 2" "bn_level r = lv" "bn_flag r = bn_flag n" "meta_of r = meta_of n"
    "has_meta r \<longrightarrow> 0 < metasize r"
proof -
  have "rep r [] \<and> node_ok N r \<and> room K V r 2 \<and> bn_level r = lv \<and> bn_flag r = bn_flag n \<and> meta_of r = meta_of n \<and> (has_meta r \<longrightarrow> 0 < metasize r)"
  proof (cases "has_meta n")
    case True
    have m: "length (meta_of n) = metasize n" using meta_of_length [OF assms(4) True] .
    have pl: "length (payload addr) = sizeof_metasize + metasize_align (metasize n) + length (bn_data n)" "bn_data n \<noteq> []"
      using assms(1,4) True by (auto simp: node_ok_def payload_def)
    have r: "r = btree_init_node K V addr (bn_flag n) lv (Some (meta_of n))" using True assms(6) m by (simp add: r_def)
    note i = init_node_meta [OF assms(1,3) small _ _ _ r]
    have q: "bn_flag n AND BNODE_MASK_METADATA \<noteq> 0" "length (meta_of n) < 2 ^ 16"
      "sizeof_metasize + metasize_align (length (meta_of n)) < length (payload addr)"
      using True m metasize_bound [of n] pl by (auto simp: has_meta_def)
    note i = i [OF q]
    have "length (bn_data r) = length (bn_data n)" using i(2,8) pl assms(1) m by (simp add: node_ok_def payload_def)
    moreover have "meta_of r = meta_of n"
      using i(5-8) metasize_align_le [of "metasize n"] m by (simp add: meta_of_def mem_read_def payload_def)
    ultimately show ?thesis using i True assms(5,6) m by (simp add: room_def)
  next
    case False
    then have r: "r = btree_init_node K V addr (bn_flag n) lv None" by (simp add: r_def meta_of_def)
    have "bn_flag n AND BNODE_MASK_METADATA = 0" using False by (simp add: has_meta_def)
    note i = init_node_plain [OF assms(1-3) small this r]
    have "length (payload addr) = length (bn_data n)" using assms(1,4) False by (auto simp: node_ok_def payload_def)
    then show ?thesis using i False assms(5) by (simp add: room_def meta_of_def)
  qed
  then show "rep r []" "node_ok N r" "room K V r 2" "bn_level r = lv" "bn_flag r = bn_flag n" "meta_of r = meta_of n"
    "has_meta r \<longrightarrow> 0 < metasize r" by auto
qed

lemma add_two:
  assumes "rep r []" "room K V r 2" "length k1 = K" "length k2 = K" "length v1 = V" "length v2 = V" "lt k1 k2"
  shows "rep (foldl (\<lambda>n (k, v). snd (btree_add_entry ops n k v)) r [(k1, v1), (k2, v2)]) [(k1, v1), (k2, v2)]"
    "entry_change r (foldl (\<lambda>n (k, v). snd (btree_add_entry ops n k v)) r [(k1, v1), (k2, v2)])"
proof -
  let ?r1 = "snd (btree_add_entry ops r k1 v1)"
  have a1: "rep ?r1 [(k1, v1)]" "entry_change r ?r1"
    using add_entry_spec [OF assms(1) _ assms(3,5)] room_mono [OF assms(2), of 1] by auto
  moreover have "room K V ?r1 2" using entry_change_room [OF a1(2)] assms(2) by simp
  ultimately have a2: "rep (snd (btree_add_entry ops ?r1 k2 v2)) (put (kv_cmp ops) k2 v2 [(k1, v1)])"
    "entry_change ?r1 (snd (btree_add_entry ops ?r1 k2 v2))"
    using add_entry_spec [OF a1(1) _ assms(4,6)] by (auto simp: numeral_2_eq_2)
  have "kv_cmp ops k2 k1 > 0" using cmp_swap [OF assms(3,4)] assms(7) by simp
  then show "rep (foldl (\<lambda>n (k, v). snd (btree_add_entry ops n k v)) r [(k1, v1), (k2, v2)]) [(k1, v1), (k2, v2)]"
    "entry_change r (foldl (\<lambda>n (k, v). snd (btree_add_entry ops n k v)) r [(k1, v1), (k2, v2)])"
    using a1 a2 entry_change_trans by auto
qed

lemma read_meta_spec:
  assumes "tab bt" "inv (bt_handle bt)" "nd (vw bt) (bt_root_bid bt) = Some n" "node_ok N n"
  shows "\<exists>h'. btree_read_meta bt = Some (meta_of n, bt\<lparr>bt_handle := h'\<rparr>) \<and> reads (bt_handle bt) h'"
  using read_node [OF assms] by (auto simp: btree_read_meta_def meta_of_def)

text \<open>A full root gets a new root above it, with an entry for it and for the node split off.\<close>

definition root_done :: "'h btree \<Rightarrow> bnode \<Rightarrow> 'h \<Rightarrow> nat \<Rightarrow> (buf \<times> buf) list \<Rightarrow> bnode \<Rightarrow> bool" where
  "root_done bt n h' b es r \<longleftrightarrow> nd (view h') b = Some r \<and> node_ok N r \<and> rep r es \<and> room K V r 2 \<and> bn_flag r = bn_flag n \<and>
     meta_of r = meta_of n \<and> (has_meta r \<longrightarrow> 0 < metasize r)"

lemma clear_flags:
  assumes "rep n es" "node_ok N n" "room K V n 2" "\<not> has_meta n"
  shows "rep (n\<lparr>bn_flag := bn_flag n AND y\<rparr>) es" "node_ok N (n\<lparr>bn_flag := bn_flag n AND y\<rparr>)" "room K V (n\<lparr>bn_flag := bn_flag n AND y\<rparr>) 2"
proof -
  have "\<not> has_meta (n\<lparr>bn_flag := bn_flag n AND y\<rparr>)" using assms(4) and_zero by (simp add: has_meta_def)
  then show "node_ok N (n\<lparr>bn_flag := bn_flag n AND y\<rparr>)" using assms(2,4) by (auto simp: node_ok_def payload_def)
  show "rep (n\<lparr>bn_flag := bn_flag n AND y\<rparr>) es" "room K V (n\<lparr>bn_flag := bn_flag n AND y\<rparr>) 2"
    using assms(1,3) by (simp_all add: node_rep_def room_def)
qed

text \<open>The second half of growing: the old root is written back and the new root is filled in.\<close>

lemma grow_finish:
  assumes t: "tab bt" "inv (bt_handle bt)" "nd (vw bt) b = Some m" "b \<in> cached (vw bt)" "0 < spare (vw bt)"
    and n: "node_ok N n" "rep n eL" "eL \<noteq> []"
    and r: "nd (vw bt) nr = Some addr" "nr \<in> cached (vw bt)" "nr \<in> unwritten (vw bt)" "nr \<noteq> b" "node_ok N r0" "rep r0 []" "room K V r0 2"
    and R: "rep R eR" "eR \<noteq> []" "lt (fst (hd eL)) (fst (hd eR))"
    and e: "evolves h {b} (bt_handle bt) {nr} k"
  defines "b5 \<equiv> (bt_store bt b n)\<lparr>bt_root_bid := nr\<rparr>"
  shows "\<exists>h' b' r. do {
      (bid1, node3, bt6) \<leftarrow> (if \<not> bt_is_writable b5 b then bt_move b5 b else Some (b, n, bt_set_dirty b5 b));
      Some (bt_store bt6 nr (foldl (\<lambda>n (k, v). snd (btree_add_entry ops n k v)) r0
        ((fst (kv_get ops node3 0), bid_val ops bid1) # splitters ops node3 [(nb, R)])))
    } = Some (bt\<lparr>bt_handle := h', bt_root_bid := nr\<rparr>) \<and> evolves h {b} h' {b', nr} (k + 1) \<and> nr \<noteq> b' \<and> nd (view h') b' = Some n \<and>
    nd (view h') nr = Some r \<and> rep r [(fst (hd eL), bid_val ops b'), (fst (hd eR), bid_val ops nb)] \<and> entry_change r0 r"
proof -
  have v5: "inv (bt_handle b5)" "nd (vw b5) b = Some n" "b \<in> cached (vw b5)" "0 < spare (vw b5)" "tab b5"
    using store_node [OF t(1-4) n(1)] t(1,4,5) by (auto simp: b5_def) (auto simp: bt_store_def)
  obtain h6 b' where w: "if bt_is_writable b5 b then b' = b \<and> bt_set_dirty b5 b = b5\<lparr>bt_handle := h6\<rparr>
      else b' \<noteq> b \<and> bt_move b5 b = Some (b', n, b5\<lparr>bt_handle := h6\<rparr>)"
    "evolves (bt_handle b5) {b} h6 {b'} 1" "nd (view h6) b' = Some n" using write_back [OF v5(5,1-3) n(1) v5(4)] by blast
  have "evolves (bt_handle bt) {b} h6 {b'} 1"
    using store_evolves [OF t(1-4) n(1), of h6 "{b'}" 1] w(2) by (simp add: b5_def bt_store_def)
  note e6 = evolves_trans [OF e this] and k6 = evolves_keeps [OF e this]
  have nr6: "nd (view h6) nr = Some addr" "nr \<in> cached (view h6)" "nr \<in> unwritten (view h6)" "nr \<noteq> b'"
    using r(1-4) k6 \<open>evolves (bt_handle bt) {b} h6 {b'} 1\<close> by (auto simp: evolves_def)
  let ?k = "[(fst (hd eL), bid_val ops b'), (fst (hd eR), bid_val ops nb)]"
  define r' where "r' = foldl (\<lambda>n (k, v). snd (btree_add_entry ops n k v)) r0 ?k"
  have "length (fst (hd eL)) = K" "length (fst (hd eR)) = K"
    using n(2,3) R(1,2) rep_keyed keyed_nth [of K _ 0] by (auto simp: hd_conv_nth)
  then have r': "rep r' ?k" "entry_change r0 r'"
    using add_two [OF r(6,7) _ _ length_bid_val length_bid_val R(3)] by (simp_all add: r'_def)
  let ?b6 = "b5\<lparr>bt_handle := h6\<rparr>"
  have ok: "node_ok N r'" using node_ok_entry_change [OF r(5) r'(2)] .
  have e7: "evolves h {b} (bt_handle (bt_store ?b6 nr r')) {b', nr} (k + 1)"
    using evolves_store [of h "{b}" ?b6 "{b', nr}" "k + 1" nr addr r'] e6 r(4) v5(5) nr6 ok by (simp add: insert_commute)
  have v7: "nd (vw (bt_store ?b6 nr r')) = (nd (view h6))(nr \<mapsto> r')"
    using store_node(3) [of ?b6 nr addr r'] v5(5) nr6 ok evolvesD(1) [OF w(2)] by auto
  have "kv_get ops n 0 = hd eL" using get [OF n(2), of 0] n(3) by (simp add: hd_conv_nth)
  then have "do {
      (bid1, node3, bt6) \<leftarrow> (if \<not> bt_is_writable b5 b then bt_move b5 b else Some (b, n, bt_set_dirty b5 b));
      Some (bt_store bt6 nr (foldl (\<lambda>n (k, v). snd (btree_add_entry ops n k v)) r0
        ((fst (kv_get ops node3 0), bid_val ops bid1) # splitters ops node3 [(nb, R)])))
    } = Some (bt_store ?b6 nr r')"
    using w(1) splitter [OF R(1,2)] by (cases "bt_is_writable b5 b") (simp_all add: r'_def)
  moreover have "bt_store ?b6 nr r' = bt\<lparr>bt_handle := bt_handle (bt_store ?b6 nr r'), bt_root_bid := nr\<rparr>" by (simp add: b5_def bt_store_def)
  ultimately show ?thesis using e7 v7 nr6(4) w(3) r'
    by (intro exI [of _ "bt_handle (bt_store ?b6 nr r')"] exI [of _ b'] exI [of _ r']) simp
qed

lemma grow_spec:
  assumes b: "at_node bt b n 3" "bt_root_bid bt = b" "rep n eL" "eL \<noteq> []" "bn_flag n = bt_root_flag bt" "has_meta n \<longrightarrow> 0 < metasize n"
    and R: "nd (vw bt) nb = Some R" "nb \<noteq> b" "rep R eR" "eR \<noteq> []" "lt (fst (hd eL)) (fst (hd eR))"
  shows "\<exists>h' b' nr r. grow_root bt b n [(nb, R)] = Some (bt\<lparr>bt_handle := h', bt_height := Suc (bt_height bt), bt_root_bid := nr\<rparr>) \<and>
    evolves (bt_handle bt) {b} h' {b', nr} 3 \<and> nr \<noteq> b' \<and> nd (vw bt) nr = None \<and> node_on K V N (nd (view h')) b' (bn_level n) eL \<and>
    root_done bt n h' nr [(fst (hd eL), bid_val ops b'), (fst (hd eR), bid_val ops nb)] r \<and> bn_level r = Suc (bn_level n)"
proof -
  let ?y = "NOT BNODE_MASK_ROOT AND NOT BNODE_MASK_SEQTREE" and ?ht = "Suc (bt_height bt)"
  have t: "tab bt" "inv (bt_handle bt)" "nd (vw bt) b = Some n" "node_ok N n" "room K V n 2" "3 \<le> spare (vw bt)" "b \<in> cached (vw bt)"
    using b(1) by (auto simp: at_node_def)
  obtain h1 where h1: "btree_read_meta bt = Some (meta_of n, bt\<lparr>bt_handle := h1\<rparr>)" "reads (bt_handle bt) h1"
    using read_meta_spec [of bt n] t b(2) by blast
  have "at_node (bt\<lparr>bt_handle := h1\<rparr>) b n 1" using b(1) h1(2) by (auto simp: at_node_def reads_def)
  then obtain h2 r2 where h2: "btree_update_meta (bt\<lparr>bt_handle := h1\<rparr>) None = Some (strip_meta ops n, bt\<lparr>bt_handle := h2, bt_root_bid := r2\<rparr>)"
    "evolves h1 {b} h2 {} 1" "nd (view h2) b = Some (strip_meta ops n)" "b \<in> cached (view h2)"
    using update_meta_none [of "bt\<lparr>bt_handle := h1\<rparr>" b n eL] b(2,3) by auto
  note e2 = evolves_trans [OF evolves_reads [OF h1(2)] h2(2), simplified]
  let ?b3 = "bt\<lparr>bt_handle := h2, bt_root_bid := r2, bt_height := ?ht\<rparr>"
  have sp2: "2 \<le> spare (view h2)" using evolvesD(8) [OF e2] t(6) by simp
  obtain nr addr h4 where al: "bt_alloc ?b3 = Some (nr, addr, ?b3\<lparr>bt_handle := h4\<rparr>)" "inv h4" "ext h2 h4" "nd (view h2) nr = None"
    "sizeof_bnode + length (payload addr) = N" "payload addr \<noteq> []" "last (payload addr) = BLK_MARKER_BNODE"
    "view h4 = \<lparr>nd = (nd (view h2))(nr \<mapsto> addr), saved = insert nr (saved (view h2)), writable = insert nr (writable (view h2)),
      unwritten = insert nr (unwritten (view h2)), cached = insert nr (cached (view h2)), spare = spare (view h2) - 1\<rparr>"
    using alloc_node [of ?b3] t(1) evolvesD(1) [OF e2] sp2 by auto
  have ne: "nr \<noteq> b" "nd (vw bt) nr = None" using al(4) h2(3) e2 by (auto simp: evolves_def)
  have "evolves h2 {} h4 {nr} 1" using al sp2 by (auto simp: evolves_def)
  note e4 = evolves_trans [OF e2 this, simplified]
  define r0 where "r0 = btree_init_node K V addr (bn_flag n) (Suc (bn_level n)) (if length (meta_of n) > 0 then Some (meta_of n) else None)"
  note nr = new_root [OF al(5-7) t(4,5) b(6) r0_def]
  note sm = strip_meta_spec [OF b(3) t(4,5)]
  define n2 where "n2 = (strip_meta ops n)\<lparr>bn_flag := bn_flag (strip_meta ops n) AND ?y\<rparr>"
  have n2: "rep n2 eL" "node_ok N n2" "room K V n2 2" "bn_level n2 = bn_level n"
    using clear_flags [OF sm(1-3,5)] sm(4) by (simp_all add: n2_def)
  let ?b4 = "?b3\<lparr>bt_handle := h4\<rparr>"
  obtain h' b' r where f: "do {
      (bid1, node3, bt6) \<leftarrow> (if \<not> bt_is_writable ((bt_store ?b4 b n2)\<lparr>bt_root_bid := nr\<rparr>) b then bt_move ((bt_store ?b4 b n2)\<lparr>bt_root_bid := nr\<rparr>) b
        else Some (b, n2, bt_set_dirty ((bt_store ?b4 b n2)\<lparr>bt_root_bid := nr\<rparr>) b));
      Some (bt_store bt6 nr (foldl (\<lambda>n (k, v). snd (btree_add_entry ops n k v)) r0
        ((fst (kv_get ops node3 0), bid_val ops bid1) # splitters ops node3 [(nb, R)])))
    } = Some (?b4\<lparr>bt_handle := h', bt_root_bid := nr\<rparr>)" "evolves (bt_handle bt) {b} h' {b', nr} 3" "nr \<noteq> b'" "nd (view h') b' = Some n2"
    "nd (view h') nr = Some r" "rep r [(fst (hd eL), bid_val ops b'), (fst (hd eR), bid_val ops nb)]" "entry_change r0 r"
    using grow_finish [of ?b4 b "strip_meta ops n" n2 eL nr addr r0 R eR "bt_handle bt" 2 nb] t(1) al h2(3,4) sp2 n2 b(4) ne(1) nr R(3-5) e4
    by (auto simp: numeral_2_eq_2 numeral_3_eq_3)
  have "grow_root bt b n [(nb, R)] = Some (?b4\<lparr>bt_handle := h', bt_root_bid := nr\<rparr>)"
    using f(1) h1(1) h2(1) al(1) t(1) b(5) unfolding grow_root_def Let_def
    by (cases "meta_of n = []"; cases "bt_is_writable ((bt_store ?b4 b n2)\<lparr>bt_root_bid := nr\<rparr>) b") (simp_all add: r0_def flip: n2_def)
  moreover have "node_on K V N (nd (view h')) b' (bn_level n) eL" using f(4) n2 by (auto simp: node_on_def)
  moreover have "root_done bt n h' nr [(fst (hd eL), bid_val ops b'), (fst (hd eR), bid_val ops nb)] r"
    using f(5,6) nr(2,3,5-7) node_ok_entry_change [OF nr(2) f(7)] meta_of_change [OF nr(2) f(7)] entry_change_room [OF f(7)] entry_change_fields [OF f(7)]
    by (auto simp: root_done_def)
  moreover have "bn_level r = Suc (bn_level n)" using nr(4) entry_change_fields [OF f(7)] by simp
  ultimately show ?thesis using f(2,3) ne(2)
    by (intro exI [of _ h'] exI [of _ b'] exI [of _ nr] exI [of _ r]) simp
qed

end

end
