(* ===== verification/Btree_Insert_Tree.thy ===== *)
theory Btree_Insert_Tree
  imports Btree_Insert
begin

text \<open>
  Insertion over the levels of a tree: the cascade from the leaf to the root turns a tree into one,
  or two neighbouring ones, that hold the updated list of entries.
\<close>

section \<open>The path to the leaf\<close>

context tree_layers
begin

fun path_of :: "(nat \<Rightarrow> bnode option) \<Rightarrow> buf \<Rightarrow> nat \<Rightarrow> tree \<Rightarrow> path" where
  "path_of blocks key 0 t = []"
| "path_of blocks key (Suc l) (Leaf b es) = [(b, the (blocks b), btree_find_entry ops (the (blocks b)) key)]"
| "path_of blocks key (Suc l) (Index b cs) =
     (let j = rank (kv_cmp ops) key cs - 1 in path_of blocks key l (snd (cs ! j)) @ [(b, the (blocks b), Some j)])"

text \<open>A sorted tree of a given height in the blocks.\<close>

definition sorted_tree :: "(nat \<Rightarrow> bnode option) \<Rightarrow> nat \<Rightarrow> tree \<Rightarrow> bool" where
  "sorted_tree blocks l t \<longleftrightarrow> on blocks l t \<and> wf t \<and> sorted_entries (entries t) \<and> distinct (bids t)"

lemma sorted_Index:
  assumes "sorted_tree blocks (Suc l) (Index b cs)"
  shows "cs \<noteq> []" "wfs cs" "asc (kv_cmp ops) (ents cs)" "keyed K (ents cs)" "sized K V (ents cs)" "0 < l" "b \<notin> set (bidss cs)" "distinct (bidss cs)"
    "node_on K V N blocks b (Suc l) (index_entries ops cs)" "\<And>k c. (k, c) \<in> set cs \<Longrightarrow> on blocks l c"
  using assms sized_keyed by (auto simp: sorted_tree_def wf_Index)

lemma sorted_child:
  assumes "sorted_tree blocks (Suc l) (Index b cs)" "j < length cs"
  shows "sorted_tree blocks l (snd (cs ! j))" "entries (snd (cs ! j)) \<noteq> []"
proof -
  note s = sorted_Index [OF assms(1)] and e = ents_split [OF assms(2)]
  have "on blocks l (snd (cs ! j))" using s(10) [of "fst (cs ! j)"] nth_mem [OF assms(2)] by simp
  then show "sorted_tree blocks l (snd (cs ! j))" using s(3,5,8) wfs_nth [OF s(2) assms(2)] unfolding e by (simp add: sorted_tree_def)
  show "entries (snd (cs ! j)) \<noteq> []" using wfs_nth [OF s(2) assms(2)] by simp
qed

lemma length_path: "sorted_tree blocks l t \<Longrightarrow> length key = K \<Longrightarrow> length (path_of blocks key l t) = l"
proof (induction l arbitrary: t)
  case (Suc l)
  show ?case
  proof (cases t)
    case (Leaf b es)
    then show ?thesis using Suc.prems by (auto simp: sorted_tree_def)
  next
    case (Index b cs)
    note s = sorted_Index [OF Suc.prems(1) [unfolded Index]]
    have "rank (kv_cmp ops) key cs - 1 < length cs" using child_pos(1) [OF s(1,2) Suc.prems(2) s(3,4)] .
    then show ?thesis using Suc.IH sorted_child [OF Suc.prems(1) [unfolded Index]] Suc.prems(2) Index by (simp add: Let_def)
  qed
qed simp

lemma path_cong:
  "sorted_tree blocks l t \<Longrightarrow> length key = K \<Longrightarrow> (\<And>b. b \<in> set (bids t) \<Longrightarrow> blocks' b = blocks b) \<Longrightarrow> path_of blocks' key l t = path_of blocks key l t"
proof (induction l arbitrary: t)
  case (Suc l)
  show ?case
  proof (cases t)
    case (Index b cs)
    note s = sorted_Index [OF Suc.prems(1) [unfolded Index]]
    let ?j = "rank (kv_cmp ops) key cs - 1"
    have j: "?j < length cs" using child_pos(1) [OF s(1,2) Suc.prems(2) s(3,4)] .
    have "path_of blocks' key l (snd (cs ! ?j)) = path_of blocks key l (snd (cs ! ?j))"
      using sorted_child(1) [OF Suc.prems(1) [unfolded Index] j] Suc.prems(2,3) Index ents_split(2) [OF j]
      by (intro Suc.IH) auto
    then show ?thesis using Suc.prems(3) Index by (simp add: Let_def)
  qed (use Suc.prems in simp)
qed simp

lemma insert_path_spec:
  assumes "tab bt" "inv (bt_handle bt)" "sorted_tree (nd (vw bt)) l t" "length key = K"
  shows "\<exists>h'. insert_path bt key l (rbid t) = Some (path_of (nd (vw bt)) key l t, bt\<lparr>bt_handle := h'\<rparr>) \<and> reads (bt_handle bt) h' \<and>
    fst ` set (path_of (nd (vw bt)) key l t) \<subseteq> cached (view h')"
  using assms
proof (induction l arbitrary: bt t)
  case 0
  then show ?case by (simp add: sorted_tree_def)
next
  case (Suc l)
  have on: "on (nd (vw bt)) (Suc l) t" using Suc.prems(3) by (simp add: sorted_tree_def)
  obtain n where n: "nd (vw bt) (rbid t) = Some n" "node_ok N n" "rep n (node_entries t)"
    using on_node [OF on] by (auto simp: node_on_def)
  obtain h1 where h1: "bt_read bt (rbid t) = Some (n, bt\<lparr>bt_handle := h1\<rparr>)" "reads (bt_handle bt) h1" "rbid t \<in> cached (view h1)"
    using read_node [OF Suc.prems(1,2) n(1,2)] by blast
  show ?case
  proof (cases t)
    case (Leaf b es)
    then have "l = 0" using on by simp
    then show ?thesis using h1 Leaf n Suc.prems(1) by (intro exI [of _ h1]) simp
  next
    case (Index b cs)
    note s = sorted_Index [OF Suc.prems(3) [unfolded Index]]
    let ?j = "rank (kv_cmp ops) key cs - 1" and ?b1 = "bt\<lparr>bt_handle := h1\<rparr>"
    have j: "?j < length cs" using child_pos(1) [OF s(1,2) Suc.prems(4) s(3,4)] .
    have fe: "(case btree_find_entry ops n key of None \<Rightarrow> 0 | Some j \<Rightarrow> j) = ?j"
      using find_entry_spec [OF n(3) _ Suc.prems(4)] index_asc [OF s(2,3)] Index by (simp add: index_rank split: nat.splits)
    note sc = sorted_child(1) [OF Suc.prems(3) [unfolded Index] j]
    have vb: "value_bid ops (snd (kv_get ops n ?j)) = rbid (snd (cs ! ?j))"
      using get [OF n(3), of ?j] Index j on_child_bid [OF Suc.prems(2), of l "snd (cs ! ?j)"] sc by (simp add: index_entries_nth sorted_tree_def)
    obtain h2 where h2: "insert_path ?b1 key l (rbid (snd (cs ! ?j))) = Some (path_of (nd (vw bt)) key l (snd (cs ! ?j)), bt\<lparr>bt_handle := h2\<rparr>)"
      "reads h1 h2" "fst ` set (path_of (nd (vw bt)) key l (snd (cs ! ?j))) \<subseteq> cached (view h2)"
      using Suc.IH [of ?b1 "snd (cs ! ?j)"] Suc.prems(1,4) reads_inv [OF h1(2)] reads_nd [OF h1(2)] sc by auto
    have "b \<in> cached (view h2)" using h1(3) h2(2) Index by (auto simp: reads_def)
    then show ?thesis using h1(1) h2 s(6) Index n(1) fe vb Suc.prems(1) reads_trans [OF h1(2) h2(2)]
      by (intro exI [of _ h2]) (simp add: Let_def)
  qed
qed

section \<open>Leaves\<close>

text \<open>What the cascade has made of a subtree: one tree, or two after a split.\<close>

definition sub_core :: "'h \<Rightarrow> nat \<Rightarrow> tree \<Rightarrow> buf \<Rightarrow> buf \<Rightarrow> nat set \<Rightarrow> nat \<Rightarrow> 'h \<Rightarrow> tree \<Rightarrow> tree list \<Rightarrow> bool" where
  "sub_core h l t key val X k h' t' ts \<longleftrightarrow>
     evolves h (set (bids t)) h' (X \<union> (set (bids t') \<union> set (concat (map bids ts)))) k \<and>
     X \<inter> (set (bids t') \<union> set (concat (map bids ts))) = {} \<and>
     (\<forall>u \<in> set (t' # ts). on (nd (view h')) l u \<and> wf u \<and> entries u \<noteq> []) \<and> distinct (bids t' @ concat (map bids ts)) \<and>
     entries t' @ concat (map entries ts) = put (kv_cmp ops) key val (entries t) \<and>
     length ts \<le> 1 \<and> (ts \<noteq> [] \<longrightarrow> key \<notin> fst ` set (entries t)) \<and> (\<forall>u \<in> set ts. lt (fkey t) (fkey u))"

definition sub_done :: "'h \<Rightarrow> nat \<Rightarrow> tree \<Rightarrow> buf \<Rightarrow> buf \<Rightarrow> 'h \<Rightarrow> cascade \<Rightarrow> tree \<Rightarrow> tree list \<Rightarrow> bool" where
  "sub_done h l t key val h' c t' ts \<longleftrightarrow>
     sub_core h l t key val {} (2 * l) h' t' ts \<and> node_change (view h) (rbid t) (view h') (rbid t') \<and>
     (moved c \<longleftrightarrow> rbid t' \<noteq> rbid t) \<and> moved_bid c = rbid t' \<and> (ins c \<longleftrightarrow> ts \<noteq> []) \<and>
     kv_ins_list c = map (\<lambda>u. (fkey u, bid_val ops (rbid u))) ts \<and>
     (is_update c \<longleftrightarrow> key \<in> fst ` set (entries t)) \<and> \<not> height_growup c"

text \<open>What a level leaves in the blocks, and the trees that hang from it.\<close>

definition level_core :: "'h \<Rightarrow> nat \<Rightarrow> nat \<Rightarrow> bool \<Rightarrow> buf \<Rightarrow> (buf \<times> buf) list \<Rightarrow> nat set \<Rightarrow> nat \<Rightarrow> 'h \<Rightarrow> (nat \<times> (buf \<times> buf) list) list \<Rightarrow> bool" where
  "level_core h b level two k0 es' X k h' parts \<longleftrightarrow>
     evolves h {b} h' (X \<union> fst ` set parts) k \<and> X \<inter> fst ` set parts = {} \<and>
     (\<forall>(x, e) \<in> set parts. node_on K V N (nd (view h')) x level e) \<and> concat (map snd parts) = es' \<and>
     distinct (map fst parts) \<and> parts \<noteq> [] \<and> length parts \<le> 2 \<and> (tl parts \<noteq> [] \<longrightarrow> two) \<and>
     (\<forall>(x, e) \<in> set (tl parts). e \<noteq> [] \<and> snd (hd parts) \<noteq> [] \<and> lt k0 (fst (hd e)))"

lemma level_done_core:
  "level_done bt b level i c upd es es' h' c' parts \<Longrightarrow> level_core (bt_handle bt) b level (ins c \<and> \<not> upd) (fst (hd es)) es' {} 2 h' parts"
  by (simp add: level_done_def level_core_def)

definition hangs :: "(nat \<times> (buf \<times> buf) list) list \<Rightarrow> tree \<Rightarrow> tree list \<Rightarrow> bool" where
  "hangs parts t ts \<longleftrightarrow> rbid t = fst (hd parts) \<and> map (\<lambda>u. (fkey u, rbid u)) ts = map (\<lambda>(x, e). (fst (hd e), x)) (tl parts) \<and>
     (tl parts \<noteq> [] \<longrightarrow> fkey t = fst (hd (snd (hd parts))))"

lemma sub_done_intro:
  assumes "level_done bt b (Suc l) i c upd es es' h' c' parts" "hangs parts t' ts" "sub_core h (Suc l) t key val {} (2 * Suc l) h' t' ts"
    "rbid t = b" "nd (view h) b = nd (vw bt) b" "upd \<longleftrightarrow> key \<in> fst ` set (entries t)" "\<not> height_growup c"
  shows "sub_done h (Suc l) t key val h' c' t' ts"
proof -
  note d = assms(1) [unfolded level_done_def] and hg = assms(2) [unfolded hangs_def]
  have "map (\<lambda>u. (fkey u, bid_val ops (rbid u))) ts = map (\<lambda>(k, x). (k, bid_val ops x)) (map (\<lambda>u. (fkey u, rbid u)) ts)" by simp
  also have "\<dots> = map (\<lambda>(x, e). (fst (hd e), bid_val ops x)) (tl parts)" unfolding conjunct1 [OF conjunct2 [OF hg]] by (simp add: case_prod_unfold)
  finally have h: "map (\<lambda>u. (fkey u, bid_val ops (rbid u))) ts = map (\<lambda>(x, e). (fst (hd e), bid_val ops x)) (tl parts)" .
  have c: "c' = c\<lparr>moved := fst (hd parts) \<noteq> b, moved_bid := fst (hd parts), is_update := upd, ins := tl parts \<noteq> [],
      kv_ins_list := map (\<lambda>(x, e). (fst (hd e), bid_val ops x)) (tl parts)\<rparr>" using d by (elim conjE) assumption
  have "node_change (vw bt) b (view h') (fst (hd parts))" using d by (elim conjE) assumption
  then have "node_change (view h) b (view h') (fst (hd parts))" unfolding node_change_def assms(5) .
  moreover have "tl parts \<noteq> [] \<longleftrightarrow> ts \<noteq> []" using arg_cong [OF h, of length] by (cases ts; cases "tl parts") simp_all
  moreover have "rbid t' = fst (hd parts)" using hg by (elim conjE)
  ultimately show ?thesis unfolding sub_done_def h using assms(3,4,6,7) c by simp
qed

lemma key_present:
  assumes "rep n es" "asc (kv_cmp ops) es" "length key = K"
  shows "key \<in> fst ` set es \<longleftrightarrow> (\<exists>j. btree_find_entry ops n key = Some j \<and> kv_cmp ops key (fst (kv_get ops n j)) = 0)"
proof -
  have "key \<in> fst ` set es \<longleftrightarrow> map_of es key \<noteq> None" by (simp add: map_of_eq_None_iff)
  also have "\<dots> \<longleftrightarrow> (\<exists>j. btree_find_entry ops n key = Some j \<and> kv_cmp ops key (fst (kv_get ops n j)) = 0)"
    using lookup_rank [OF assms(2) rep_keyed [OF assms(1)] assms(3)] find_entry_spec [OF assms] get [OF assms(1)] rank_le [of "kv_cmp ops" key es]
    by (auto split: nat.splits)
  finally show ?thesis .
qed

definition start :: "buf \<Rightarrow> buf \<Rightarrow> cascade \<Rightarrow> bool" where
  "start key val c \<longleftrightarrow> kv_ins_list c = [(key, val)] \<and> ins c \<and> \<not> height_growup c"

lemma leaf_pre:
  assumes "tab bt" "inv (bt_handle bt)" "sorted_tree (nd (vw bt)) 1 (Leaf b es)" "nd (vw bt) b = Some n"
    "b \<in> cached (vw bt)" "b \<in> saved (vw bt)" "2 \<le> spare (vw bt)" "length key = K" "length val = V" "start key val c"
  shows "level_pre bt key 0 b n (btree_find_entry ops n key) c n es False (key \<in> fst ` set es)"
proof -
  have n: "node_ok N n" "rep n es" "room K V n 2" "asc (kv_cmp ops) es"
    using assms(3,4) by (auto simp: sorted_tree_def node_on_def)
  have "at_node bt b n 2" using assms n by (simp add: at_node_def)
  moreover have "(key \<in> fst ` set es) = (btree_find_entry ops n key \<noteq> None \<and>
      kv_cmp ops key (case btree_find_entry ops n key of Some j \<Rightarrow> fst (kv_get ops n j) | None \<Rightarrow> []) = 0)"
    using key_present [OF n(2,4) assms(8)] by (auto split: option.splits)
  ultimately show ?thesis using assms(6,8-10) n entry_change_refl by (simp add: level_pre_def start_def Let_def)
qed

lemma leaf_core:
  assumes "level_core h b 1 (key \<notin> fst ` set es) (fst (hd es)) (put (kv_cmp ops) key val es) X k h' parts"
  shows "\<exists>t' ts. sub_core h 1 (Leaf b es) key val X k h' t' ts \<and> hangs parts t' ts"
proof -
  note d = assms(1) [unfolded level_core_def]
  obtain x e rest where p: "parts = (x, e) # rest" "length rest \<le> 1" using d by (cases parts) auto
  have "sub_core h 1 (Leaf b es) key val X k h' (Leaf x e) (map (\<lambda>(y, f). Leaf y f) rest) \<and> hangs parts (Leaf x e) (map (\<lambda>(y, f). Leaf y f) rest)"
  proof (cases rest)
    case Nil
    then show ?thesis using d p by (auto simp: sub_core_def hangs_def node_on_def)
  next
    case (Cons r rs)
    then show ?thesis using d p by (cases r) (auto simp: sub_core_def hangs_def fkey_def insert_commute)
  qed
  then show ?thesis by blast
qed

section \<open>Index nodes\<close>

lemma index_entries_simps [simp]:
  "index_entries ops [] = []" "index_entries ops ((k, c) # cs) = (k, bid_val ops (rbid c)) # index_entries ops cs"
  "index_entries ops (cs @ ds) = index_entries ops cs @ index_entries ops ds"
  by (simp_all add: index_entries_def)

lemma index_entries_take: "index_entries ops (take j cs) = take j (index_entries ops cs)" "index_entries ops (drop j cs) = drop j (index_entries ops cs)"
  by (simp_all add: index_entries_def take_map drop_map)

lemma asc_map_fst: "asc cmp es \<longleftrightarrow> sorted_wrt (\<lambda>x y. cmp x y < 0) (map fst es)" and keyed_map_fst: "keyed n es \<longleftrightarrow> (\<forall>x \<in> set (map fst es). length x = n)"
  by (simp_all add: asc_def sorted_wrt_map keyed_def)

text \<open>The children of a node after the cascade went through one of them.\<close>

definition regroup :: "(buf \<times> tree) list \<Rightarrow> nat \<Rightarrow> tree \<Rightarrow> tree list \<Rightarrow> (buf \<times> tree) list" where
  "regroup cs j t' ts = take j cs @ map (\<lambda>u. (fkey u, u)) (t' # ts) @ drop (Suc j) cs"

lemma regroup_entries:
  assumes "sorted_tree blocks (Suc l) (Index b cs)" "length key = K" "sub_done h l (snd (cs ! j)) key val h1 c1 t' ts"
    "j = rank (kv_cmp ops) key cs - 1"
  shows "ents (regroup cs j t' ts) = put (kv_cmp ops) key val (ents cs)"
    "fkey t' = (if rank (kv_cmp ops) key cs = 0 then key else fst (cs ! j))"
proof -
  note s = sorted_Index [OF assms(1)] and d = assms(3) [unfolded sub_done_def sub_core_def]
  note p = child_pos [OF s(1,2) assms(2) s(3,4), folded assms(4)]
  have m: "ents (map (\<lambda>u. (fkey u, u)) us) = concat (map entries us)" for us by (induction us) simp_all
  have "entries t' @ concat (map entries ts) = put (kv_cmp ops) key val (entries (snd (cs ! j)))" using d by simp
  then show "ents (regroup cs j t' ts) = put (kv_cmp ops) key val (ents cs)"
    unfolding put_ents [OF s(1,2) assms(2) s(3,4), of val, folded assms(4)] by (simp add: regroup_def m)
  have ne: "entries (snd (cs ! j)) \<noteq> []" "keyed K (entries (snd (cs ! j)))" "fst (cs ! j) = fkey (snd (cs ! j))"
    using wfs_nth [OF s(2) p(1)] ents_split(1) [OF p(1)] s(4) by simp_all
  have "entries t' \<noteq> []" using d by simp
  then have "fkey t' = fst (hd (entries t' @ concat (map entries ts)))" by (simp add: fkey_def)
  also have "\<dots> = (if lt key (fkey (snd (cs ! j))) then key else fkey (snd (cs ! j)))"
    using d hd_put [OF ne(2) assms(2), of val] ne(1) by (simp add: fkey_def)
  finally show "fkey t' = (if rank (kv_cmp ops) key cs = 0 then key else fst (cs ! j))" using p(3,4) ne(3) by auto
qed

lemma regroup_sorted:
  assumes "sorted_tree blocks (Suc l) (Index b cs)" "length key = K" "length val = V" "sub_done h l (snd (cs ! j)) key val h1 c1 t' ts"
    "j = rank (kv_cmp ops) key cs - 1"
  shows "wfs (regroup cs j t' ts)" "sorted_entries (ents (regroup cs j t' ts))"
    "\<forall>u \<in> set ts. lt (fst (cs ! j)) (fkey u) \<and> (Suc j < length cs \<longrightarrow> lt (fkey u) (fst (cs ! Suc j))) \<and> length (fkey u) = K"
proof -
  note s = sorted_Index [OF assms(1)] and d = assms(4) [unfolded sub_done_def sub_core_def]
  note p = child_pos [OF s(1,2) assms(2) s(3,4), folded assms(5)]
  have "wfs (map (\<lambda>u. (fkey u, u)) us)" if "\<forall>u \<in> set us. wf u \<and> entries u \<noteq> []" for us
    using that by (induction us) auto
  then show w: "wfs (regroup cs j t' ts)" using d wfs_take [OF s(2)] wfs_drop [OF s(2)] by (simp add: regroup_def)
  show e: "sorted_entries (ents (regroup cs j t' ts))"
    using put_asc [OF s(3,4) assms(2)] put_sized [OF s(5) assms(2,3)] regroup_entries(1) [OF assms(1,2,4,5)] by simp
  have a: "asc (kv_cmp ops) (regroup cs j t' ts)" "keyed K (regroup cs j t' ts)" using cs_asc cs_keyed w e sized_keyed by auto
  have ch: "fst (cs ! j) = fkey (snd (cs ! j))" using wfs_nth [OF s(2) p(1)] by simp
  show "\<forall>u \<in> set ts. lt (fst (cs ! j)) (fkey u) \<and> (Suc j < length cs \<longrightarrow> lt (fkey u) (fst (cs ! Suc j))) \<and> length (fkey u) = K"
  proof
    fix u assume u: "u \<in> set ts"
    have "cs ! Suc j \<in> set (drop (Suc j) cs)" if "Suc j < length cs" using that by (metis Cons_nth_drop_Suc list.set_intros(1))
    then show "lt (fst (cs ! j)) (fkey u) \<and> (Suc j < length cs \<longrightarrow> lt (fkey u) (fst (cs ! Suc j))) \<and> length (fkey u) = K"
      using a(1) u d ch a(2) [unfolded keyed_def, rule_format, of "(fkey u, u)"] by (auto simp: regroup_def)
  qed
qed

lemma regroup_amend:
  assumes "sorted_tree blocks (Suc l) (Index b cs)" "length key = K" "length val = V" "sub_done h l (snd (cs ! j)) key val h1 c1 t' ts"
    "j = rank (kv_cmp ops) key cs - 1"
  defines "es \<equiv> index_entries ops (cs[j := (fst (cs ! j), t')])"
  shows "amend (rank (kv_cmp ops) key cs = 0) key (kv_ins_list c1) es = index_entries ops (regroup cs j t' ts)" "asc (kv_cmp ops) es"
    "ins c1 \<longrightarrow> fst (hd (kv_ins_list c1)) \<notin> fst ` set es" "sized K V (kv_ins_list c1)"
proof -
  note s = sorted_Index [OF assms(1)] and d = assms(4) [unfolded sub_done_def sub_core_def]
  note p = child_pos [OF s(1,2) assms(2) s(3,4), folded assms(5)] and f = regroup_entries(2) [OF assms(1,2,4,5)]
  note r = regroup_sorted [OF assms(1-5)]
  have len: "length es = length cs" by (simp add: es_def)
  have keys: "map fst es = map fst cs" by (simp add: es_def index_entries_def case_prod_unfold map_update comp_def list_update_same_conv p(1))
  have key_i: "fst (es ! i) = fst (cs ! i)" if "i < length cs" for i using that keys len by (metis nth_map)
  have split: "cs[j := (fst (cs ! j), t')] = take j cs @ (fst (cs ! j), t') # drop (Suc j) cs" using p(1) by (simp add: upd_conv_take_nth_drop)
  show asc: "asc (kv_cmp ops) es" using cs_asc [OF s(2,3)] keys by (simp add: asc_map_fst [of _ es] asc_map_fst [of _ cs])
  have ky: "keyed K es" using cs_keyed [OF s(2,4)] keys by (simp add: keyed_map_fst [of _ es] keyed_map_fst [of _ cs])
  have u: "put (kv_cmp ops) (fkey u) v es = take (Suc j) es @ (fkey u, v) # drop (Suc j) es \<and> fkey u \<notin> fst ` set es" if "u \<in> set ts" for u v
  proof -
    have lu: "lt (fst (es ! j)) (fkey u)" "Suc j < length es \<longrightarrow> lt (fkey u) (fst (es ! Suc j))" "length (fkey u) = K"
      using r(3) that key_i p(1) len by auto
    have "length (fst (es ! j)) = K" using keyed_nth [OF ky] p(1) len by simp
    then have g: "kv_cmp ops (fkey u) (fst (es ! j)) > 0" using cmp_swap [of "fst (es ! j)" "fkey u"] lu(1,3) by simp
    have "rank (kv_cmp ops) (fkey u) es = Suc j" using g lu p(1) len by (intro rank_eq [OF asc ky]) auto
    then show ?thesis using put_rank [OF asc ky lu(3)] lookup_rank [OF asc ky lu(3)] g by (auto simp: map_of_eq_None_iff)
  qed
  have c1: "kv_ins_list c1 = map (\<lambda>u. (fkey u, bid_val ops (rbid u))) ts" "length ts \<le> 1" "ins c1 \<longleftrightarrow> ts \<noteq> []" using d by auto
  show "ins c1 \<longrightarrow> fst (hd (kv_ins_list c1)) \<notin> fst ` set es" using c1 u by (cases ts) auto
  show "sized K V (kv_ins_list c1)" using c1(1) r(3) length_bid_val by (auto simp: sized_def)
  have sp: "es = take j (index_entries ops cs) @ (fst (cs ! j), bid_val ops (rbid t')) # drop (Suc j) (index_entries ops cs)"
    by (simp add: es_def split index_entries_take)
  have "take (Suc j) es = take j (index_entries ops cs) @ [(fst (cs ! j), bid_val ops (rbid t'))]" "drop (Suc j) es = drop (Suc j) (index_entries ops cs)"
    using p(1) by (simp_all add: sp)
  then show "amend (rank (kv_cmp ops) key cs = 0) key (kv_ins_list c1) es = index_entries ops (regroup cs j t' ts)"
    using c1(1,2) u f assms(5) by (cases ts) (auto simp: amend_def regroup_def index_entries_take sp)
qed

lemma index_pre:
  assumes "tab bt" "sorted_tree (nd (view h)) (Suc l) (Index b cs)" "length key = K" "length val = V"
    "sub_done h l (snd (cs ! j)) key val (bt_handle bt) c1 t' ts" "j = rank (kv_cmp ops) key cs - 1"
    "nd (view h) b = Some n" "b \<in> cached (view h)" "b \<in> saved (view h)" "2 * l + 2 \<le> spare (view h)"
  shows "\<exists>n1. level_pre bt key l b n (Some j) c1 n1 (index_entries ops (cs[j := (fst (cs ! j), t')])) (rank (kv_cmp ops) key cs = 0) False"
proof -
  note s = sorted_Index [OF assms(2)] and d = assms(5) [unfolded sub_done_def sub_core_def] and am = regroup_amend [OF assms(2-6)]
  note p = child_pos [OF s(1,2) assms(3) s(3,4), folded assms(6)]
  have nb: "b \<notin> set (bids (snd (cs ! j)))" using s(7) unfolding ents_split(2) [OF p(1)] by simp
  have ev: "evolves h (set (bids (snd (cs ! j)))) (bt_handle bt) (set (bids t') \<union> set (concat (map bids ts))) (2 * l)" using d by simp
  have n: "node_ok N n" "rep n (index_entries ops cs)" "room K V n 2" using s(9) assms(7) by (auto simp: node_on_def)
  have "nd (vw bt) b = Some n" "2 \<le> spare (vw bt)" using evolvesD(3) [OF ev, of b] evolvesD(8) [OF ev] nb assms(7,10) by auto
  then have at: "at_node bt b n 2" using n assms(1,8) evolvesD(1,5) [OF ev] by (auto simp: at_node_def)
  have sv: "b \<in> saved (vw bt)" using evolvesD(4) [OF ev assms(9) nb] .
  let ?k = "fst (cs ! j)" and ?cs = "cs[j := (fst (cs ! j), t')]"
  have k: "fst (kv_get ops n j) = ?k" "length ?k = K" using get [OF n(2), of j] p(1) index_entries_nth keyed_nth [OF cs_keyed [OF s(2,4)]] by auto
  define n1 where "n1 = (if moved c1 then kv_set ops n j ?k (bid_val ops (moved_bid c1)) else n)"
  have ie: "index_entries ops ?cs = (index_entries ops cs)[j := (?k, bid_val ops (rbid t'))]" by (simp add: index_entries_def map_update)
  have "rep n1 (index_entries ops ?cs) \<and> entry_change n n1"
  proof (cases "moved c1")
    case True
    then show ?thesis using set_at [OF n(2), of j ?k "bid_val ops (rbid t')"] p(1) k(2) length_bid_val d data_entry_change(2) by (simp add: n1_def ie)
  next
    case False
    then have "rbid t' = rbid (snd (cs ! j))" using d by simp
    then have "index_entries ops ?cs = index_entries ops cs"
      unfolding ie using p(1) index_entries_nth [of j cs] by (simp add: list_update_same_conv)
    then show ?thesis using False n(2) entry_change_refl by (simp add: n1_def)
  qed
  moreover have "(rank (kv_cmp ops) key cs = 0) = (j = 0 \<and> lt key ?k)"
    using p(3,4) wfs_nth [OF s(2) p(1)] assms(6) by (cases "rank (kv_cmp ops) key cs") auto
  moreover have "index_entries ops ?cs \<noteq> []" using s(1) by (metis length_0_conv length_index_entries length_list_update)
  ultimately have "level_pre bt key l b n (Some j) c1 n1 (index_entries ops ?cs) (rank (kv_cmp ops) key cs = 0) False"
    using at sv am(2-4) k d s(1,6) assms(3) unfolding level_pre_def Let_def by (auto simp: n1_def)
  then show ?thesis by blast
qed

lemma evolves_frame:
  assumes "evolves h B h' C k" "S \<subseteq> saved (view h)" "S \<subseteq> dom (nd (view h))" "S \<inter> B = {}"
  shows "evolves h (B \<union> S) h' (C \<union> S) k"
  using assms unfolding evolves_def by (elim conjE, intro conjI) (assumption | blast)+

lemma regroup_blocks:
  assumes "sorted_tree (nd (view h)) (Suc l) (Index b cs)" "j < length cs" "sub_done h l (snd (cs ! j)) key val h1 c1 t' ts"
    "set (bids (Index b cs)) \<subseteq> saved (view h)" "evolves h1 {b} h2 P k"
  shows "evolves h (set (bids (Index b cs))) h2 (P \<union> set (bidss (regroup cs j t' ts))) (2 * l + k)"
    "\<forall>(k, c) \<in> set (regroup cs j t' ts). on (nd (view h2)) l c"
    "distinct (bidss (regroup cs j t' ts))" "P \<inter> set (bidss (regroup cs j t' ts)) = {}"
proof -
  note s = sorted_Index [OF assms(1)] and d = assms(3) [unfolded sub_done_def sub_core_def] and sp = ents_split(2) [OF assms(2)]
  define B S C where "B = set (bids (snd (cs ! j)))" "S = set (bidss (take j cs)) \<union> set (bidss (drop (Suc j) cs))"
    "C = set (bids t') \<union> set (concat (map bids ts))"
  have m: "bidss (map (\<lambda>u. (fkey u, u)) us) = concat (map bids us)" for us by (induction us) simp_all
  have rb: "set (bidss (regroup cs j t' ts)) = C \<union> S" "set (bids (Index b cs)) = insert b (B \<union> S)"
    by (auto simp: regroup_def m sp B_S_C_def)
  have dj: "b \<notin> B \<union> S" "B \<inter> S = {}" using s(7,8) unfolding sp by (auto simp: B_S_C_def)
  have "on (nd (view h)) (Suc l) (Index b cs)" using assms(1) by (simp add: sorted_tree_def)
  then have dm: "insert b (B \<union> S) \<subseteq> dom (nd (view h))" using on_bids rb(2) by blast
  have ev: "evolves h B h1 C (2 * l)" using d by (simp add: B_S_C_def)
  then have CB: "C \<inter> insert b S = {}" "C \<subseteq> dom (nd (view h1))" using evolvesD(7) [OF ev] dj dm by (auto simp: evolves_def)
  have "dom (nd (view h)) \<subseteq> dom (nd (view h1))" using ev by (simp add: evolves_def)
  with dm have dm1: "S \<subseteq> dom (nd (view h1))" by blast
  have ev2: "evolves h (B \<union> {b}) h2 (C \<union> P) (2 * l + k)" using CB(1) by (intro evolves_trans [OF ev assms(5)]) auto
  have "evolves h (B \<union> {b} \<union> S) h2 (C \<union> P \<union> S) (2 * l + k)" using dj dm assms(4) rb(2) by (intro evolves_frame [OF ev2]) auto
  then show "evolves h (set (bids (Index b cs))) h2 (P \<union> set (bidss (regroup cs j t' ts))) (2 * l + k)"
    unfolding rb by (simp add: Un_ac)
  show "P \<inter> set (bidss (regroup cs j t' ts)) = {}" unfolding rb using evolvesD(7) [OF assms(5)] CB dm1 dj by blast
  show "distinct (bidss (regroup cs j t' ts))"
    using d s(8) CB(1) unfolding sp by (auto simp: regroup_def m B_S_C_def)
  have old: "on (nd (view h2)) l c" if "(k, c) \<in> set cs" "set (bids c) \<subseteq> S" for k c
    using that dj dm evolvesD(3) [OF ev2] by (intro on_cong [OF s(10) [OF that(1)]]) blast
  have new: "on (nd (view h2)) l u" if "u \<in> set (t' # ts)" for u
  proof (rule on_cong)
    show "on (nd (view h1)) l u" using d that by blast
    show "nd (view h2) x = nd (view h1) x" if "x \<in> set (bids u)" for x
      using that \<open>u \<in> set (t' # ts)\<close> CB evolvesD(3) [OF assms(5), of x] by (auto simp: B_S_C_def)
  qed
  have "on (nd (view h2)) l c" if "(k, c) \<in> set (take j cs) \<or> (k, c) \<in> set (drop (Suc j) cs)" for k c
  proof (rule old)
    show "(k, c) \<in> set cs" using that in_set_takeD in_set_dropD by metis
    show "set (bids c) \<subseteq> S" using that by (auto simp: B_S_C_def bidss_def)
  qed
  then show "\<forall>(k, c) \<in> set (regroup cs j t' ts). on (nd (view h2)) l c"
    using new by (auto simp: regroup_def)
qed

lemma regroup_not_Nil: "regroup cs j t' ts \<noteq> []"
  by (simp add: regroup_def)

lemma wfs_hd: "wfs cs \<Longrightarrow> cs \<noteq> [] \<Longrightarrow> fkey (Index b cs) = fst (hd cs)"
  using hd_ents [of cs] by (simp add: fkey_def)

lemma hd_index_entries: "cs \<noteq> [] \<Longrightarrow> fst (hd (index_entries ops cs)) = fst (hd cs)"
  by (cases cs) auto

lemma index_core:
  assumes "sorted_tree (nd (view h)) (Suc l) (Index b cs)" "length key = K" "length val = V"
    "sub_done h l (snd (cs ! j)) key val h1 c1 t' ts" "j = rank (kv_cmp ops) key cs - 1" "set (bids (Index b cs)) \<subseteq> saved (view h)"
    "level_core h1 b (Suc l) (key \<notin> fst ` set (ents cs)) (fkey (Index b cs)) (index_entries ops (regroup cs j t' ts)) X k h' parts"
  shows "\<exists>T Ts. sub_core h (Suc l) (Index b cs) key val X (2 * l + k) h' T Ts \<and> hangs parts T Ts"
proof -
  note s = sorted_Index [OF assms(1)] and L = assms(7) [unfolded level_core_def]
  note p = child_pos [OF s(1,2) assms(2) s(3,4), folded assms(5)]
  let ?cs = "regroup cs j t' ts"
  have ev: "evolves h1 {b} h' (X \<union> fst ` set parts) k" using L by blast
  note rb = regroup_blocks [OF assms(1) p(1) assms(4,6) ev] and rs = regroup_sorted [OF assms(1-5)] and re = regroup_entries [OF assms(1,2,4,5)]
  obtain x e rest where parts: "parts = (x, e) # rest" "length rest \<le> 1" using L by (cases parts) auto
  define f where "f = concat (map snd rest)"
  have ef: "e @ f = index_entries ops ?cs" using L parts by (simp add: f_def)
  define A B where "A = take (length e) ?cs" "B = drop (length e) ?cs"
  have AB: "?cs = A @ B" "e = index_entries ops A" "f = index_entries ops B"
    using arg_cong [OF ef, of "take (length e)"] arg_cong [OF ef, of "drop (length e)"] by (simp_all add: A_B_def index_entries_take)
  show ?thesis
  proof (cases rest)
    case Nil
    then have "B = []" using AB(3) by (cases B) (auto simp: f_def)
    then have "A = ?cs" using AB by simp
    then have "sub_core h (Suc l) (Index b cs) key val X (2 * l + k) h' (Index x ?cs) [] \<and> hangs parts (Index x ?cs) []"
      using L Nil parts rb rs re(1) s(6) AB regroup_not_Nil [of cs j t' ts]
      by (simp add: sub_core_def hangs_def wf_Index Int_Un_distrib2 Int_Un_distrib)
    then show ?thesis by blast
  next
    case (Cons r rs')
    obtain y g where r: "r = (y, g)" "rest = [(y, g)]" "g = index_entries ops B" using Cons parts(2) AB(3) by (cases r) (auto simp: f_def)
    have ne: "A \<noteq> []" "B \<noteq> []" using L parts r AB by auto
    have w: "wfs A" "wfs B" using rs(1) AB(1) by simp_all
    have "sub_core h (Suc l) (Index b cs) key val X (2 * l + k) h' (Index x A) [Index y B] \<and> hangs parts (Index x A) [Index y B]"
      using L parts r rb rs re(1) s(6) AB(1,2) ne w hd_ents [OF w(1) ne(1)] hd_ents [OF w(2) ne(2)]
      by (simp add: sub_core_def hangs_def wf_Index wfs_hd hd_index_entries insert_commute Int_Un_distrib2 Int_Un_distrib)
    then show ?thesis by blast
  qed
qed

section \<open>The cascade\<close>

lemma insert_levels_append:
  "\<not> height_growup c \<Longrightarrow> insert_levels bt key i (ps @ qs) c =
     do { (bt1, c1) \<leftarrow> insert_levels bt key i ps c;
          if height_growup c1 then Some (bt1, c1) else insert_levels bt1 key (i + length ps) qs c1 }"
proof (induction ps arbitrary: bt i c)
  case (Cons p ps)
  show ?case
  proof (cases "insert_level bt key i p c")
    case (Some r)
    have e: "Suc i + length ps = i + length (p # ps)" by simp
    show ?thesis using Some Cons unfolding e [symmetric] by (cases r; cases "height_growup (snd r)") simp_all
  qed simp
qed simp

lemma insert_levels_single: "insert_levels bt key i [p] c = insert_level bt key i p c"
  by (cases "insert_level bt key i p c") (auto split: if_splits)

lemma level_core_mono: "level_core h b l two k0 es X k h' parts \<Longrightarrow> (two \<Longrightarrow> two') \<Longrightarrow> level_core h b l two' k0 es X k h' parts"
  by (auto simp: level_core_def)

text \<open>The cascade at the root of a subtree, the levels below it being done.\<close>

definition ready :: "'h \<Rightarrow> nat \<Rightarrow> tree \<Rightarrow> buf \<Rightarrow> buf \<Rightarrow> 'h btree \<Rightarrow> bnode \<Rightarrow> nat option \<Rightarrow> cascade \<Rightarrow> bnode \<Rightarrow> (buf \<times> buf) list \<Rightarrow> bool \<Rightarrow> bool \<Rightarrow> bool" where
  "ready h l t key val bt n idx c n1 es mk upd \<longleftrightarrow>
     level_pre bt key l (rbid t) n idx c n1 es mk upd \<and> \<not> height_growup c \<and> bn_level n = Suc l \<and>
     nd (view h) (rbid t) = Some n \<and> ((if ins c \<or> mk then upd else is_update c) \<longleftrightarrow> key \<in> fst ` set (entries t)) \<and>
     spare (view h) \<le> spare (vw bt) + 2 * l \<and> asc (kv_cmp ops) (amend mk key (kv_ins_list c) es) \<and>
     (\<forall>X k h' parts. level_core (bt_handle bt) (rbid t) (Suc l) (key \<notin> fst ` set (entries t)) (fst (hd es)) (amend mk key (kv_ins_list c) es) X k h' parts \<longrightarrow>
        (\<exists>t' ts. sub_core h (Suc l) t key val X (2 * l + k) h' t' ts \<and> hangs parts t' ts))"

lemma ready_leaf:
  assumes "sorted_tree (nd (vw bt)) 1 (Leaf b es)" "length key = K" "length val = V" "start key val c" "tab bt" "inv (bt_handle bt)"
    "b \<in> saved (vw bt)" "b \<in> cached (vw bt)" "2 \<le> spare (vw bt)" "nd (vw bt) b = Some n"
  shows "ready (bt_handle bt) 0 (Leaf b es) key val bt n (btree_find_entry ops n key) c n es False (key \<in> fst ` set es)"
proof -
  have "amend False key (kv_ins_list c) es = put (kv_cmp ops) key val es" using assms(4) by (simp add: amend_def start_def)
  moreover have "bn_level n = 1" "asc (kv_cmp ops) (put (kv_cmp ops) key val es)"
    using assms(1,2,10) put_asc [of es key val] sized_keyed [of K V es] by (auto simp: sorted_tree_def node_on_def)
  ultimately show ?thesis
    using leaf_pre [OF assms(5,6,1,10,8,7,9,2,3,4)] leaf_core [of "bt_handle bt" b key es val] assms(4,10)
    by (simp add: ready_def start_def)
qed

lemma ready_index:
  assumes "sorted_tree (nd (view h)) (Suc l) (Index b cs)" "length key = K" "length val = V"
    "sub_done h l (snd (cs ! j)) key val (bt_handle bt) c1 t' ts" "j = rank (kv_cmp ops) key cs - 1" "set (bids (Index b cs)) \<subseteq> saved (view h)"
    "tab bt" "nd (view h) b = Some n" "b \<in> cached (view h)" "2 * l + 2 \<le> spare (view h)"
  shows "\<exists>n1 es mk. ready h l (Index b cs) key val bt n (Some j) c1 n1 es mk False"
proof -
  note s = sorted_Index [OF assms(1)] and d = assms(4) [unfolded sub_done_def sub_core_def]
  note p = child_pos [OF s(1,2) assms(2) s(3,4), folded assms(5)]
  let ?es = "index_entries ops (cs[j := (fst (cs ! j), t')])" and ?mk = "rank (kv_cmp ops) key cs = 0"
  obtain n1 where pre: "level_pre bt key l b n (Some j) c1 n1 ?es ?mk False"
    using index_pre [OF assms(7,1-5,8,9) _ assms(10)] assms(6) by auto
  have "key \<in> fst ` set (ents cs) \<longleftrightarrow> rank (kv_cmp ops) key cs \<noteq> 0 \<and> key \<in> fst ` set (entries (snd (cs ! j)))"
    using lookup_ents [OF s(1,2) assms(2) s(3,4), folded assms(5)] map_of_eq_None_iff [of "ents cs" key]
      map_of_eq_None_iff [of "entries (snd (cs ! j))" key] by presburger
  moreover have "ins c1 \<longrightarrow> key \<notin> fst ` set (entries (snd (cs ! j)))" "is_update c1 \<longleftrightarrow> key \<in> fst ` set (entries (snd (cs ! j)))" using d by blast+
  ultimately have upd: "(if ins c1 \<or> ?mk then False else is_update c1) = (key \<in> fst ` set (ents cs))" by simp
  have "fst (hd (cs[j := (fst (cs ! j), t')])) = fst (hd cs)" "cs[j := (fst (cs ! j), t')] \<noteq> []" using s(1) by (cases cs; cases j; simp)+
  then have k0: "fst (hd ?es) = fkey (Index b cs)" using hd_index_entries wfs_hd [OF s(2,1)] by simp
  have am: "amend ?mk key (kv_ins_list c1) ?es = index_entries ops (regroup cs j t' ts)" using regroup_amend(1) [OF assms(1-5)] .
  have "spare (view h) \<le> spare (vw bt) + 2 * l" using d evolvesD(8) by blast
  moreover have "bn_level n = Suc l" using s(9) assms(8) by (auto simp: node_on_def)
  moreover note index_core [OF assms(1-6)] index_asc regroup_sorted(1,2) [OF assms(1-5)]
  ultimately have "ready h l (Index b cs) key val bt n (Some j) c1 n1 ?es ?mk False"
    unfolding ready_def am k0 using pre upd d assms(8) by simp
  then show ?thesis by blast
qed

lemma ready_step:
  assumes "ready h l t key val bt n idx c n1 es mk upd" "l + 1 < bt_height bt \<or> \<not> ins c \<or> room K V n1 (Suc (length es)) \<or> upd"
  shows "\<exists>h' c' t' ts. insert_level bt key l (rbid t, n, idx) c = Some (level_tree bt l h' c', c') \<and>
    sub_done h (Suc l) t key val h' c' t' ts \<and> (ts \<noteq> [] \<longrightarrow> l + 1 < bt_height bt)"
proof -
  note r = assms(1) [unfolded ready_def]
  let ?u = "if ins c \<or> mk then upd else is_update c"
  have pre: "level_pre bt key l (rbid t) n idx c n1 es mk upd" and upd: "?u \<longleftrightarrow> key \<in> fst ` set (entries t)" using r by blast+
  obtain h' c' parts where l: "insert_level bt key l (rbid t, n, idx) c = Some (level_tree bt l h' c', c')"
    "level_done bt (rbid t) (Suc l) l c ?u es (amend mk key (kv_ins_list c) es) h' c' parts"
    using level_step [OF pre assms(2)] r by auto
  obtain t' ts where t: "sub_core h (Suc l) t key val {} (2 * l + 2) h' t' ts" "hangs parts t' ts"
    using level_core_mono [OF level_done_core [OF l(2)], of "key \<notin> fst ` set (entries t)"] upd r by blast
  have "nd (view h) (rbid t) = nd (vw bt) (rbid t)" using r level_preD(1) [OF pre] by (simp add: at_node_def)
  then have "sub_done h (Suc l) t key val h' c' t' ts" using sub_done_intro [OF l(2) t(2)] t(1) upd r by simp
  moreover have "ts \<noteq> [] \<longrightarrow> tl parts \<noteq> []" using t(2) by (auto simp: hangs_def)
  then have "ts \<noteq> [] \<longrightarrow> l + 1 < bt_height bt" using l(2) unfolding level_done_def by blast
  ultimately show ?thesis using l(1) by blast
qed

lemma below_root: "l + 1 < bt_height bt \<Longrightarrow> level_tree bt l h' c' = bt\<lparr>bt_handle := h'\<rparr>"
  by (simp add: level_tree_def)

lemma sub_done_nogrow: "sub_done h l t key val h' c' t' ts \<Longrightarrow> \<not> height_growup c'"
  by (simp add: sub_done_def)

text \<open>The levels below the root.\<close>

definition descent :: "'h \<Rightarrow> nat \<Rightarrow> tree \<Rightarrow> buf \<Rightarrow> buf \<Rightarrow> cascade \<Rightarrow> 'h btree \<Rightarrow> bool" where
  "descent h l t key val c bt \<longleftrightarrow> sorted_tree (nd (view h)) l t \<and> length key = K \<and> length val = V \<and> start key val c \<and> tab bt \<and> inv h \<and>
     bt_handle bt = h \<and> set (bids t) \<subseteq> saved (view h) \<and> fst ` set (path_of (nd (view h)) key l t) \<subseteq> cached (view h) \<and> 2 * l \<le> spare (view h)"

lemma descent_child:
  assumes "descent h (Suc l) (Index b cs) key val c bt" "j = rank (kv_cmp ops) key cs - 1"
  shows "descent h l (snd (cs ! j)) key val c bt" "j < length cs"
proof -
  note d = assms(1) [unfolded descent_def]
  have srt: "sorted_tree (nd (view h)) (Suc l) (Index b cs)" and k: "length key = K" using d by auto
  note s = sorted_Index [OF srt]
  show j: "j < length cs" using child_pos(1) [OF s(1,2) k s(3,4)] assms(2) by simp
  show "descent h l (snd (cs ! j)) key val c bt"
    using d sorted_child(1) [OF srt j] ents_split(2) [OF j] assms(2) unfolding descent_def by (auto simp: Let_def)
qed

lemma arrive_if:
  assumes "descent h (Suc l) t key val c bt"
    "\<And>u. descent h l u key val c bt \<Longrightarrow> \<exists>h' c' t' ts. insert_levels bt key 0 (path_of (nd (view h)) key l u) c = Some (bt\<lparr>bt_handle := h'\<rparr>, c') \<and>
       sub_done h l u key val h' c' t' ts"
  shows "\<exists>h1 c1 n idx n1 es mk upd. insert_levels bt key 0 (path_of (nd (view h)) key (Suc l) t) c = insert_level (bt\<lparr>bt_handle := h1\<rparr>) key l (rbid t, n, idx) c1 \<and>
    ready h l t key val (bt\<lparr>bt_handle := h1\<rparr>) n idx c1 n1 es mk upd"
proof -
  note d = assms(1) [unfolded descent_def]
  have srt: "sorted_tree (nd (view h)) (Suc l) t" using d by blast
  then obtain n where n: "nd (view h) (rbid t) = Some n" using on_node [of _ "Suc l" t] by (auto simp: sorted_tree_def node_on_def)
  show ?thesis
  proof (cases t)
    case (Leaf b es)
    have l: "l = 0" using srt Leaf by (simp add: sorted_tree_def)
    have r: "ready h 0 t key val bt n (btree_find_entry ops n key) c n es False (key \<in> fst ` set es)"
      using ready_leaf [of bt b es key val c n] d n Leaf l by simp
    have "path_of (nd (view h)) key (Suc l) t = [(b, n, btree_find_entry ops n key)]" using n Leaf by simp
    moreover have "bt = bt\<lparr>bt_handle := h\<rparr>" using d by simp
    ultimately show ?thesis using r l Leaf insert_levels_single by (metis rbid.simps(1))
  next
    case (Index b cs)
    define j where "j = rank (kv_cmp ops) key cs - 1"
    note dc = descent_child [OF assms(1) [unfolded Index] j_def]
    obtain h1 c1 t1 ts1 where b: "insert_levels bt key 0 (path_of (nd (view h)) key l (snd (cs ! j))) c = Some (bt\<lparr>bt_handle := h1\<rparr>, c1)"
      "sub_done h l (snd (cs ! j)) key val h1 c1 t1 ts1" using assms(2) [OF dc(1)] by blast
    let ?b1 = "bt\<lparr>bt_handle := h1\<rparr>"
    obtain n1 es mk where r: "ready h l t key val ?b1 n (Some j) c1 n1 es mk False"
      using ready_index [of h l b cs key val j ?b1 c1 t1 ts1 n] d n Index b(2) j_def by (auto simp: Let_def)
    have "length (path_of (nd (view h)) key l (snd (cs ! j))) = l" "\<not> height_growup c"
      using dc(1) length_path unfolding descent_def start_def by blast+
    then have "insert_levels bt key 0 (path_of (nd (view h)) key (Suc l) t) c = insert_levels ?b1 key l [(b, n, Some j)] c1"
      using insert_levels_append [of c bt key 0 "path_of (nd (view h)) key l (snd (cs ! j))" "[(b, n, Some j)]"] b(1) sub_done_nogrow [OF b(2)] n Index
      by (simp add: Let_def j_def)
    then show ?thesis using r Index unfolding insert_levels_single by (metis rbid.simps(2))
  qed
qed

lemma cascade_below:
  "descent h l t key val c bt \<Longrightarrow> l < bt_height bt \<Longrightarrow>
   \<exists>h' c' t' ts. insert_levels bt key 0 (path_of (nd (view h)) key l t) c = Some (bt\<lparr>bt_handle := h'\<rparr>, c') \<and> sub_done h l t key val h' c' t' ts"
proof (induction l arbitrary: t)
  case 0
  then show ?case by (simp add: descent_def sorted_tree_def)
next
  case (Suc l)
  obtain h1 c1 n idx n1 es mk upd where a: "insert_levels bt key 0 (path_of (nd (view h)) key (Suc l) t) c = insert_level (bt\<lparr>bt_handle := h1\<rparr>) key l (rbid t, n, idx) c1"
    "ready h l t key val (bt\<lparr>bt_handle := h1\<rparr>) n idx c1 n1 es mk upd"
    using arrive_if [OF Suc.prems(1) Suc.IH] Suc.prems(2) by force
  show ?case using ready_step [OF a(2)] Suc.prems(2) below_root [of l "bt\<lparr>bt_handle := h1\<rparr>"] unfolding a(1) by simp
qed

lemmas arrive = arrive_if [OF _ cascade_below]

end

end
