(* ===== verification/Btree_Insert_Root.thy ===== *)
theory Btree_Insert_Root
  imports Btree_Insert_Tree
begin

text \<open>
  Insertion at the root, where the tree may grow by a level, and the whole operation: it updates the
  map that the tree stands for.
\<close>

context tree_layers
begin

section \<open>The root\<close>

lemma root_split:
  assumes "level_pre bt key l b n idx c n1 es mk upd" "ins c" "\<not> room K V n1 (Suc (length es))" "\<not> upd" "l + 1 = bt_height bt" "4 \<le> spare (vw bt)"
    "bt_root_bid bt = b" "bn_flag n = bt_root_flag bt" "has_meta n \<longrightarrow> 0 < metasize n" "asc (kv_cmp ops) (amend mk key (kv_ins_list c) es)"
  shows "\<exists>h' nr r b' eL nb eR. insert_level bt key l (b, n, idx) c =
      Some (bt\<lparr>bt_handle := h', bt_height := Suc (bt_height bt), bt_root_bid := nr\<rparr>, c\<lparr>is_update := False, height_growup := True\<rparr>) \<and>
    level_core (bt_handle bt) b (bn_level n) True (fst (hd es)) (amend mk key (kv_ins_list c) es) {nr} 4 h' [(b', eL), (nb, eR)] \<and>
    root_done bt n h' nr [(fst (hd eL), bid_val ops b'), (fst (hd eR), bid_val ops nb)] r \<and> bn_level r = Suc (bn_level n)"
proof -
  note p = level_preD [OF assms(1)]
  define bt1 where "bt1 = (if l > 0 \<and> moved c then bt_store bt b n1 else bt)"
  note u = level_unfold [OF assms(1), folded bt1_def]
  have a1: "at_node bt1 b n1 4" using p(1,12) at_node_store [OF _ p(4), of bt b 4] assms(6) by (auto simp: bt1_def at_node_def)
  obtain x v where xv: "kv_ins_list c = [(x, v)]" using p(7,8) assms(2) by (cases "kv_ins_list c"; cases "tl (kv_ins_list c)") auto
  have ne: "es \<noteq> []" using a1 assms(3) room_mono [of n1 2 1] by (auto simp: at_node_def)
  have sz: "length x = K" "length v = V" "x \<notin> fst ` set es" using p(9,10) xv assms(2,4) by auto
  have t: "tab bt1" "inv (bt_handle bt1)" "0 < spare (vw bt1)" "nd (vw bt1) b = Some n1" "b \<in> cached (vw bt1)" "room K V n1 2" "4 \<le> spare (vw bt1)"
    using a1 by (auto simp: at_node_def)
  have same: "bt_height bt1 = bt_height bt" "bt_root_bid bt1 = bt_root_bid bt" "bt_root_flag bt1 = bt_root_flag bt" by (simp_all add: bt1_def bt_store_def)
  have mk: "mk \<longrightarrow> idx = Some 0 \<and> length key = K" and ng: "\<not> l + 1 < bt_height bt1" using p(6) assms(5) same by auto
  obtain h' nb L R eL eR where s: "btree_split_node bt1 key l (b, n1, idx) 2 mk c = map_option Inl (grow_root (bt1\<lparr>bt_handle := h'\<rparr>) b L [(nb, R)])"
    "inv h'" "ext (bt_handle bt1) h'" "nd (vw bt1) nb = None" "nd (view h') = (nd (vw bt1))(b \<mapsto> L, nb \<mapsto> R)"
    "saved (vw bt1) - {b} \<subseteq> saved (view h')" "nb \<in> saved (view h')" "insert nb (cached (vw bt1)) \<subseteq> cached (view h')"
    "unwritten (vw bt1) \<subseteq> unwritten (view h')" "spare (vw bt1) \<le> spare (view h') + 1"
    "rep L (if mk then (key, snd (hd eL)) # tl eL else eL)" "rep R eR" "eL @ eR = put (kv_cmp ops) x v es" "eL \<noteq> []" "eR \<noteq> []"
    "kv_cmp ops (fst (hd es)) (fst (hd eR)) < 0" "entry_change n1 L" "node_ok N R" "bn_level R = bn_level n1" "room K V R 2"
    using split_state [OF t(1-5) p(3,5,11) t(6) assms(3) xv assms(2) sz mk, of l] unfolding if_not_P [OF ng] by (elim exE conjE) (rule that)
  define E where "E = (if mk then (key, snd (hd eL)) # tl eL else eL)"
  obtain e0 e1 where e0: "eL = e0 # e1" using s(14) by (cases eL) auto
  have "amend mk key (kv_ins_list c) es = E @ eR" unfolding amend_def xv using e0 by (simp add: E_def flip: s(13))
  moreover have "rep L E" using s(11) unfolding E_def .
  ultimately have E: "E @ eR = amend mk key (kv_ins_list c) es" "E \<noteq> []" "rep L E" using e0 by (simp_all add: E_def)
  have "asc (kv_cmp ops) (E @ eR)" using assms(10) unfolding E(1) .
  then have lt: "lt (fst (hd E)) (fst (hd eR))" using E(2) s(15) by simp
  let ?b2 = "bt1\<lparr>bt_handle := h'\<rparr>"
  have nb: "nb \<noteq> b" using s(4) t(4) by auto
  have ec: "entry_change n L" using entry_change_trans [OF p(4) s(17)] .
  have n: "node_ok N n" "node_ok N L" using p(1) node_ok_entry_change [OF _ ec] by (auto simp: at_node_def)
  note mt = meta_of_change [OF n(1) ec] and fl = entry_change_fields [OF ec]
  have aL: "at_node ?b2 b L 3" using t s(2,5,8,10) nb n(2) entry_change_room [OF s(17)] by (auto simp: at_node_def)
  obtain h2 b' nr r where g: "grow_root ?b2 b L [(nb, R)] = Some (?b2\<lparr>bt_handle := h2, bt_height := Suc (bt_height ?b2), bt_root_bid := nr\<rparr>)"
    "evolves h' {b} h2 {b', nr} 3" "nr \<noteq> b'" "nd (view h') nr = None" "node_on K V N (nd (view h2)) b' (bn_level L) E"
    "root_done ?b2 L h2 nr [(fst (hd E), bid_val ops b'), (fst (hd eR), bid_val ops nb)] r" "bn_level r = Suc (bn_level L)"
    using grow_spec [OF aL _ E(3,2) _ _ _ nb s(12,15) lt] s(5) same assms(7-9) fl mt by auto
  have "evolves (bt_handle bt1) {b} h' {nb} 1" using s(2-10) t(4) nb by (auto simp: evolves_def)
  then have "evolves (bt_handle bt1) {b} h2 {nb, b', nr} 4" using evolves_trans [OF _ g(2), of "bt_handle bt1" "{b}" "{nb}" 1] nb by (simp add: insert_commute)
  then have ev: "evolves (bt_handle bt) {b} h2 {nb, b', nr} 4"
    using store_evolves [of bt b n n1 h2] p(1) node_ok_entry_change [OF _ p(4)] by (auto simp: bt1_def at_node_def split: if_splits)
  have nr: "nr \<noteq> nb" "b' \<noteq> nb" using g(4) s(5) evolvesD(7) [OF g(2)] nb by auto
  have "nd (view h2) nb = Some R" using evolvesD(3) [OF g(2), of nb] nb s(5) by simp
  then have "node_on K V N (nd (view h2)) nb (bn_level n) eR"
    using s(12,18-20) entry_change_fields [OF p(4)] by (simp add: node_on_def)
  then have "level_core (bt_handle bt) b (bn_level n) True (fst (hd es)) (amend mk key (kv_ins_list c) es) {nr} 4 h2 [(b', E), (nb, eR)]"
    using ev g(3,5) nr E(1,2) s(15,16) fl by (simp add: level_core_def insert_commute)
  moreover have "root_done bt n h2 nr [(fst (hd E), bid_val ops b'), (fst (hd eR), bid_val ops nb)] r" "bn_level r = Suc (bn_level n)"
    using g(6,7) fl mt by (simp_all add: root_done_def)
  moreover have "insert_level bt key l (b, n, idx) c =
      Some (bt\<lparr>bt_handle := h2, bt_height := Suc (bt_height bt), bt_root_bid := nr\<rparr>, c\<lparr>is_update := False, height_growup := True\<rparr>)"
    using u assms(2-4) nsplitnode [OF p(3,11) ne assms(3)] xv s(1) g(1) same by (simp add: bt1_def bt_store_def)
  ultimately show ?thesis by blast
qed

section \<open>The whole operation\<close>

text \<open>A tree in the blocks that the handle of a B+-tree points to, safe to be built on.\<close>

definition root_ok :: "'h btree \<Rightarrow> bnode \<Rightarrow> bool" where
  "root_ok bt r \<longleftrightarrow> bn_flag r = bt_root_flag bt \<and> (has_meta r \<longrightarrow> 0 < metasize r)"

definition tree_at :: "'h btree \<Rightarrow> tree \<Rightarrow> bool" where
  "tree_at bt t \<longleftrightarrow> tab bt \<and> inv (bt_handle bt) \<and> 0 < bt_height bt \<and> bt_root_bid bt = rbid t \<and> sorted_tree (nd (vw bt)) (bt_height bt) t \<and>
     set (bids t) \<subseteq> saved (vw bt) \<and> (\<exists>r. nd (vw bt) (rbid t) = Some r \<and> root_ok bt r)"

definition root_meta :: "'h btree \<Rightarrow> buf option" where
  "root_meta bt = map_option meta_of (nd (vw bt) (bt_root_bid bt))"

definition inserted :: "'h btree \<Rightarrow> tree \<Rightarrow> buf \<Rightarrow> buf \<Rightarrow> nat \<Rightarrow> 'h btree \<Rightarrow> tree \<Rightarrow> bool" where
  "inserted bt t key val k bt' t' \<longleftrightarrow>
     tree_at bt' t' \<and> entries t' = put (kv_cmp ops) key val (entries t) \<and> root_meta bt' = root_meta bt \<and>
     evolves (bt_handle bt) (set (bids t)) (bt_handle bt') (set (bids t')) k \<and>
     (bt_height bt' = bt_height bt \<or> bt_height bt' = Suc (bt_height bt)) \<and>
     bt' = bt\<lparr>bt_handle := bt_handle bt', bt_height := bt_height bt', bt_root_bid := bt_root_bid bt'\<rparr>"

lemma sorted_put: "sorted_entries es \<Longrightarrow> length key = K \<Longrightarrow> length val = V \<Longrightarrow> sorted_entries (put (kv_cmp ops) key val es)"
  using put_asc [of es key val] put_sized [of K V es key val] sized_keyed [of K V es] by simp

lemma sub_doneD:
  assumes "sub_done h l t key val h' c t' ts"
  shows "sub_core h l t key val {} (2 * l) h' t' ts" "node_change (view h) (rbid t) (view h') (rbid t')" "moved c \<longleftrightarrow> rbid t' \<noteq> rbid t"
    "moved_bid c = rbid t'" "is_update c \<longleftrightarrow> key \<in> fst ` set (entries t)"
  using assms unfolding sub_done_def by simp_all

lemma tree_atD:
  assumes "tree_at bt t"
  shows "tab bt" "inv (bt_handle bt)" "0 < bt_height bt" "bt_root_bid bt = rbid t" "sorted_tree (nd (vw bt)) (bt_height bt) t"
    "set (bids t) \<subseteq> saved (vw bt)" "\<exists>r. nd (vw bt) (rbid t) = Some r \<and> root_ok bt r \<and> node_ok N r \<and> rep r (node_entries t)"
proof -
  show s: "sorted_tree (nd (vw bt)) (bt_height bt) t" and "tab bt" "inv (bt_handle bt)" "0 < bt_height bt" "bt_root_bid bt = rbid t"
    "set (bids t) \<subseteq> saved (vw bt)" using assms unfolding tree_at_def by simp_all
  from s have "on (nd (vw bt)) (bt_height bt) t" by (simp add: sorted_tree_def)
  from on_node [OF this] assms show "\<exists>r. nd (vw bt) (rbid t) = Some r \<and> root_ok bt r \<and> node_ok N r \<and> rep r (node_entries t)"
    unfolding tree_at_def node_on_def by auto
qed

lemma no_growth:
  assumes "sub_done h (bt_height bt) t key val h' c' t' []" "tree_at bt t" "bt_handle bt = h" "length key = K" "length val = V"
    "bt1 = bt\<lparr>bt_handle := h1\<rparr>"
  shows "inserted bt t key val (2 * bt_height bt) (level_tree bt1 (bt_height bt - 1) h' c') t'"
proof -
  note d = sub_doneD [OF assms(1)] and ta = tree_atD [OF assms(2)]
  note sc = d(1) [unfolded sub_core_def]
  define b2 where "b2 = level_tree bt1 (bt_height bt - 1) h' c'"
  have b2: "b2 = bt\<lparr>bt_handle := h', bt_root_bid := rbid t'\<rparr>" using d(3,4) ta(3,4) by (simp add: b2_def level_tree_def assms(6))
  obtain r r' where r: "nd (vw bt) (rbid t) = Some r" "root_ok bt r" "node_ok N r" "nd (view h') (rbid t') = Some r'" "entry_change r r'"
    using d(2) ta(7) by (auto simp: node_change_def assms(3))
  note mt = meta_of_change [OF r(3,5)] and fl = entry_change_fields [OF r(5)]
  have so: "sorted_tree (nd (view h')) (bt_height bt) t'"
    using sc ta(5) sorted_put [OF _ assms(4,5), of "entries t"] by (simp add: sorted_tree_def)
  have ev: "evolves h (set (bids t)) h' (set (bids t')) (2 * bt_height bt)" using sc by simp
  have "root_ok b2 r'" using r(2) fl mt by (auto simp: root_ok_def b2)
  then have "tree_at b2 t'" using ta(1-3) evolvesD(1,6) [OF ev] so r(4) by (simp add: tree_at_def b2)
  moreover have "root_meta b2 = root_meta bt" using ta(4) r(1,4) mt by (simp add: root_meta_def b2)
  ultimately show ?thesis
    unfolding b2_def [symmetric] using ev sc by (simp add: inserted_def assms(3) b2)
qed

lemma growth:
  assumes "sub_core h (bt_height bt) t key val {nr} k h' t1 [t2]" "tree_at bt t" "bt_handle bt = h" "length key = K" "length val = V"
    "nd (vw bt) (rbid t) = Some n" "root_done bt1 n h' nr [(fkey t1, bid_val ops (rbid t1)), (fkey t2, bid_val ops (rbid t2))] r" "bn_level r = Suc (bt_height bt)"
  shows "inserted bt t key val k (bt\<lparr>bt_handle := h', bt_height := Suc (bt_height bt), bt_root_bid := nr\<rparr>) (Index nr [(fkey t1, t1), (fkey t2, t2)])"
proof -
  note d = assms(1) [unfolded sub_core_def] and ta = tree_atD [OF assms(2)] and rd = assms(7) [unfolded root_done_def]
  let ?b2 = "bt\<lparr>bt_handle := h', bt_height := Suc (bt_height bt), bt_root_bid := nr\<rparr>" and ?t = "Index nr [(fkey t1, t1), (fkey t2, t2)]"
  have ev: "evolves h (set (bids t)) h' (set (bids ?t)) k" using d by (simp add: Un_ac)
  have en: "entries ?t = put (kv_cmp ops) key val (entries t)" using d by simp
  have "node_on K V N (nd (view h')) nr (Suc (bt_height bt)) (index_entries ops [(fkey t1, t1), (fkey t2, t2)])"
    using rd assms(8) by (simp add: node_on_def)
  then have so: "sorted_tree (nd (view h')) (Suc (bt_height bt)) ?t"
    using d ta(3,5) sorted_put [OF _ assms(4,5), of "entries t"] en unfolding sorted_tree_def by (simp add: wf_Index)
  have "root_ok bt n" using ta(7) assms(6) by auto
  then have "root_ok ?b2 r" using rd by (simp add: root_ok_def)
  then have "tree_at ?b2 ?t" using ta(1-3) evolvesD(1,6) [OF ev] so rd by (simp add: tree_at_def)
  moreover have "root_meta ?b2 = root_meta bt" using ta(4) rd assms(6) by (simp add: root_meta_def)
  ultimately show ?thesis using ev en by (simp add: inserted_def assms(3))
qed

lemma insert_at_root:
  assumes "tree_at bt t" "descent (bt_handle bt) (bt_height bt) t key val c bt" "2 * bt_height bt + 2 \<le> spare (vw bt)"
  shows "\<exists>bt' c' t'. insert_levels bt key 0 (path_of (nd (vw bt)) key (bt_height bt) t) c = Some (bt', c') \<and>
    (is_update c' \<longleftrightarrow> key \<in> fst ` set (entries t)) \<and> inserted bt t key val (2 * bt_height bt + 2) bt' t'"
proof -
  note ta = tree_atD [OF assms(1)]
  obtain l where l: "bt_height bt = Suc l" using ta(3) by (cases "bt_height bt") auto
  have kv: "length key = K" "length val = V" using assms(2) by (simp_all add: descent_def)
  obtain h1 c1 n idx n1 es mk upd where a: "insert_levels bt key 0 (path_of (nd (vw bt)) key (Suc l) t) c = insert_level (bt\<lparr>bt_handle := h1\<rparr>) key l (rbid t, n, idx) c1"
    "ready (bt_handle bt) l t key val (bt\<lparr>bt_handle := h1\<rparr>) n idx c1 n1 es mk upd"
    using arrive [of "bt_handle bt" l t key val c bt] assms(2) l by auto
  let ?b1 = "bt\<lparr>bt_handle := h1\<rparr>"
  show ?thesis
  proof (cases "\<not> ins c1 \<or> room K V n1 (Suc (length es)) \<or> upd")
    case True
    obtain h' c' t' where s: "insert_level ?b1 key l (rbid t, n, idx) c1 = Some (level_tree ?b1 l h' c', c')"
      "sub_done (bt_handle bt) (Suc l) t key val h' c' t' []" using ready_step [OF a(2)] True l by fastforce
    have "inserted bt t key val (2 * bt_height bt) (level_tree ?b1 l h' c') t'"
      using no_growth [OF _ assms(1) refl kv refl, of h' c' t' h1] s(2) l by simp
    then have "inserted bt t key val (2 * bt_height bt + 2) (level_tree ?b1 l h' c') t'" unfolding inserted_def using evolves_mono by auto
    then show ?thesis using a(1) s(1) sub_doneD(5) [OF s(2)] l by auto
  next
    case False
    note r = a(2) [unfolded ready_def]
    have rt: "nd (vw bt) (rbid t) = Some n" using r by blast
    then have ro: "bn_flag n = bt_root_flag bt" "has_meta n \<longrightarrow> 0 < metasize n" using ta(7) by (auto simp: root_ok_def)
    obtain h' nr q b' eL nb eR where g: "insert_level ?b1 key l (rbid t, n, idx) c1 =
        Some (bt\<lparr>bt_handle := h', bt_height := Suc (bt_height bt), bt_root_bid := nr\<rparr>, c1\<lparr>is_update := False, height_growup := True\<rparr>)"
      "level_core h1 (rbid t) (Suc l) True (fst (hd es)) (amend mk key (kv_ins_list c1) es) {nr} 4 h' [(b', eL), (nb, eR)]"
      "root_done ?b1 n h' nr [(fst (hd eL), bid_val ops b'), (fst (hd eR), bid_val ops nb)] q" "bn_level q = Suc (bt_height bt)"
      using root_split [of ?b1 key l "rbid t" n idx c1 n1 es mk upd] r False l assms(3) ta(4) ro by fastforce
    have np: "key \<notin> fst ` set (entries t)" using r False by auto
    then obtain t1 ts where t: "sub_core (bt_handle bt) (Suc l) t key val {nr} (2 * l + 4) h' t1 ts" "hangs [(b', eL), (nb, eR)] t1 ts"
      using r g(2) by fastforce
    then obtain t2 where t2: "ts = [t2]" "rbid t1 = b'" "rbid t2 = nb" "fkey t1 = fst (hd eL)" "fkey t2 = fst (hd eR)" by (auto simp: hangs_def)
    have k: "2 * l + 4 = 2 * bt_height bt + 2" using l by simp
    have "inserted bt t key val (2 * bt_height bt + 2) (bt\<lparr>bt_handle := h', bt_height := Suc (bt_height bt), bt_root_bid := nr\<rparr>) (Index nr [(fkey t1, t1), (fkey t2, t2)])"
      using growth [OF _ assms(1) refl kv rt, of nr _ h' t1 t2 ?b1 q] t(1) t2 g(3,4) unfolding k l [symmetric] by simp
    moreover have "\<not> is_update (c1\<lparr>is_update := False, height_growup := True\<rparr>)" by simp
    ultimately show ?thesis using a(1) [folded l, unfolded g(1)] np by blast
  qed
qed

lemma insert_spec:
  assumes "tree_at bt t" "length key = K" "length val = V" "2 * bt_height bt + 2 \<le> spare (vw bt)"
  shows "\<exists>bt' t'. btree_insert bt key val = Some (if key \<in> fst ` set (entries t) then BTREE_RESULT_UPDATE else BTREE_RESULT_SUCCESS, bt') \<and>
    inserted bt t key val (2 * bt_height bt + 2) bt' t'"
proof -
  note ta = tree_atD [OF assms(1)]
  obtain h1 where p: "insert_path bt key (bt_height bt) (rbid t) = Some (path_of (nd (vw bt)) key (bt_height bt) t, bt\<lparr>bt_handle := h1\<rparr>)"
    "reads (bt_handle bt) h1" "fst ` set (path_of (nd (vw bt)) key (bt_height bt) t) \<subseteq> cached (view h1)"
    using insert_path_spec [OF ta(1,2,5) assms(2)] by blast
  let ?b1 = "bt\<lparr>bt_handle := h1\<rparr>"
  obtain C where C: "view h1 = (vw bt)\<lparr>cached := C\<rparr>" "inv h1" using p(2) by (auto simp: reads_def)
  define c where "c = \<lparr>moved = False, moved_bid = 0, kv_ins_list = [(key, val)], ins = True, is_update = False, height_growup = False\<rparr>"
  have t1: "tree_at ?b1 t" using assms(1) C unfolding tree_at_def root_ok_def by simp
  have d: "descent h1 (bt_height bt) t key val c ?b1"
    using ta(1,5,6) assms(2-4) p(3) C by (simp add: descent_def c_def start_def)
  obtain bt' c' t' where i: "insert_levels ?b1 key 0 (path_of (nd (vw bt)) key (bt_height bt) t) c = Some (bt', c')"
    "is_update c' \<longleftrightarrow> key \<in> fst ` set (entries t)" "inserted ?b1 t key val (2 * bt_height bt + 2) bt' t'"
    using insert_at_root [OF t1, of key val c] d C assms(4) by auto
  have "evolves (bt_handle bt) (set (bids t)) (bt_handle bt') (set (bids t')) (2 * bt_height bt + 2)"
    using evolves_trans [OF evolves_reads [OF p(2)], of "set (bids t)"] i(3) by (simp add: inserted_def)
  moreover have "root_meta ?b1 = root_meta bt" using C by (simp add: root_meta_def)
  ultimately have "inserted bt t key val (2 * bt_height bt + 2) bt' t'" using i(3) unfolding inserted_def by simp
  moreover have "btree_insert bt key val = Some (if key \<in> fst ` set (entries t) then BTREE_RESULT_UPDATE else BTREE_RESULT_SUCCESS, bt')"
    using p(1) i(1,2) ta(1,4) assms(2,3) by (simp add: btree_insert_def c_def [symmetric])
  ultimately show ?thesis by blast
qed

end

end
