(* ===== verification/Btree_Open.thy ===== *)
theory Btree_Open
  imports Btree_Insert_Root
begin

text \<open>
  Creating, opening and searching a tree: a new tree is empty, a tree that lies in the blocks can be
  opened at its root, and finding a key looks it up in the map that the tree stands for.
\<close>

context tree_layers
begin

lemma tree_at_reads:
  assumes "tree_at bt t" "reads (bt_handle bt) h'"
  shows "tree_at (bt\<lparr>bt_handle := h'\<rparr>) t" "root_meta (bt\<lparr>bt_handle := h'\<rparr>) = root_meta bt" "spare (view h') = spare (vw bt)"
proof -
  obtain C where C: "view h' = (vw bt)\<lparr>cached := C\<rparr>" "inv h'" using assms(2) by (auto simp: reads_def)
  show "tree_at (bt\<lparr>bt_handle := h'\<rparr>) t" using assms(1) C unfolding tree_at_def root_ok_def by simp
  show "root_meta (bt\<lparr>bt_handle := h'\<rparr>) = root_meta bt" "spare (view h') = spare (vw bt)" using C by (simp_all add: root_meta_def)
qed

lemma find_spec:
  assumes "tree_at bt t" "length key = K"
  shows "\<exists>h'. btree_find bt key = Some (if map_of (entries t) key = None then BTREE_RESULT_FAIL else BTREE_RESULT_SUCCESS,
      map_of (entries t) key, bt\<lparr>bt_handle := h'\<rparr>) \<and> reads (bt_handle bt) h'"
proof -
  note ta = tree_atD [OF assms(1)]
  from ta(5) have "on (nd (vw bt)) (bt_height bt) t" "wf t" "sorted_entries (entries t)" by (simp_all add: sorted_tree_def)
  from find_at [OF ta(1,2) this assms(2)] show ?thesis unfolding btree_find_def ta(4) .
qed

lemma read_root_meta:
  assumes "tree_at bt t"
  shows "\<exists>m h'. root_meta bt = Some m \<and> btree_read_meta bt = Some (m, bt\<lparr>bt_handle := h'\<rparr>) \<and> reads (bt_handle bt) h'"
proof -
  note ta = tree_atD [OF assms]
  obtain r where r: "nd (vw bt) (bt_root_bid bt) = Some r" "node_ok N r" using ta(4,7) by auto
  obtain h' where h': "bt_read bt (bt_root_bid bt) = Some (r, bt\<lparr>bt_handle := h'\<rparr>)" "reads (bt_handle bt) h'"
    using read_node [OF ta(1,2) r] by blast
  then show ?thesis using r(1) by (auto simp: root_meta_def btree_read_meta_def meta_of_def)
qed

text \<open>A root with metadata must leave room for two entries.\<close>

definition meta_fits :: "buf option \<Rightarrow> bool" where
  "meta_fits meta \<longleftrightarrow> (case meta of None \<Rightarrow> True | Some data \<Rightarrow> 0 < length data \<and> length data < 2 ^ 16 \<and>
     sizeof_bnode + sizeof_metasize + metasize_align (length data) + 2 * (K + V) < N)"

lemma first_root:
  assumes "sizeof_bnode + length (payload addr) = N" "payload addr \<noteq> []" "last (payload addr) = BLK_MARKER_BNODE"
    "flags AND BNODE_MASK_METADATA = 0" "meta_fits meta"
    "fl = (BNODE_MASK_ROOT OR flags) OR (if meta = None then 0 else BNODE_MASK_METADATA)" "n = btree_init_node K V addr fl 1 meta"
  shows "rep n []" "node_ok N n" "bn_flag n = fl" "bn_level n = 1" "room K V n 2" "has_meta n \<longrightarrow> 0 < metasize n"
    "meta_of n = (case meta of None \<Rightarrow> [] | Some data \<Rightarrow> data)"
proof -
  have "rep n [] \<and> node_ok N n \<and> bn_flag n = fl \<and> bn_level n = 1 \<and> room K V n 2 \<and> (has_meta n \<longrightarrow> 0 < metasize n) \<and>
    meta_of n = (case meta of None \<Rightarrow> [] | Some data \<Rightarrow> data)"
  proof (cases meta)
    case None
    have "fl AND BNODE_MASK_METADATA = 0" using assms(4,6) None by (simp add: bit.conj_disj_distrib2 BNODE_MASK_ROOT_def BNODE_MASK_METADATA_def)
    note i = init_node_plain [OF assms(1-3) small this assms(7)]
    show ?thesis using i capacity assms(1) None by (simp add: room_def meta_of_def)
  next
    case (Some data)
    have f: "fl AND BNODE_MASK_METADATA \<noteq> 0" using assms(6) Some by (simp add: bit.conj_disj_distrib2 BNODE_MASK_METADATA_def)
    have d: "0 < length data" "length data < 2 ^ 16" "sizeof_bnode + sizeof_metasize + metasize_align (length data) + 2 * (K + V) < N"
      using assms(5) Some by (simp_all add: meta_fits_def)
    then have l: "sizeof_metasize + metasize_align (length data) < length (payload addr)" using assms(1) by linarith
    note i = init_node_meta [OF assms(1,3) small f d(2) l assms(7) [unfolded Some]]
    have p: "sizeof_bnode + length (bn_meta n) + length (bn_data n) = N" using i(2) by (simp add: node_ok_def payload_def)
    then have "room K V n 2" using d(3) i(8) by (simp add: room_def)
    moreover have "meta_of n = data"
      using i(5-8) metasize_align_le [of "length data"] by (simp add: meta_of_def mem_read_def payload_def)
    ultimately show ?thesis using i d(1) Some by simp
  qed
  then show "rep n []" "node_ok N n" "bn_flag n = fl" "bn_level n = 1" "room K V n 2" "has_meta n \<longrightarrow> 0 < metasize n"
    "meta_of n = (case meta of None \<Rightarrow> [] | Some data \<Rightarrow> data)" by blast+
qed

lemma init_spec:
  assumes "inv h" "0 < spare (view h)" "flags AND BNODE_MASK_METADATA = 0" "meta_fits meta"
  shows "\<exists>bt b. btree_init h bops ops N K V flags meta = Some (BTREE_RESULT_SUCCESS, bt) \<and> tree_at bt (Leaf b []) \<and>
    root_meta bt = Some (case meta of None \<Rightarrow> [] | Some data \<Rightarrow> data) \<and> evolves h {} (bt_handle bt) {b} 1 \<and> bt_height bt = 1"
proof -
  define fl where "fl = (BNODE_MASK_ROOT OR flags) OR (if meta = None then 0 else BNODE_MASK_METADATA)"
  obtain b addr h1 where a: "blk_alloc bops h = Some (b, addr, h1)" "inv h1" "ext h h1" "nd (view h) b = None"
    "payload addr \<noteq> []" "last (payload addr) = BLK_MARKER_BNODE"
    "view h1 = \<lparr>nd = (nd (view h))(b \<mapsto> addr), saved = insert b (saved (view h)), writable = insert b (writable (view h)),
       unwritten = insert b (unwritten (view h)), cached = insert b (cached (view h)), spare = spare (view h) - 1\<rparr>"
    using al [OF assms(1,2)] by blast
  have sz: "sizeof_bnode + length (payload addr) = N" using size_of [OF a(2), of b] a(7) by simp
  define n where "n = btree_init_node K V addr fl 1 meta"
  note r = first_root [OF sz a(5,6) assms(3,4) fl_def n_def]
  obtain S where s: "inv (blk_store bops h1 b n)" "ext h1 (blk_store bops h1 b n)" "insert b (saved (view h)) \<subseteq> S"
    "view (blk_store bops h1 b n) = (view h1)\<lparr>nd := (nd (view h1))(b \<mapsto> n), saved := S\<rparr>"
    using st [OF a(2), of b addr n] a(7) r(2) by auto
  define bt where "bt = \<lparr>bt_ksize = K, bt_vsize = V, bt_height = 1, bt_blksize = N, bt_root_bid = b,
    bt_handle = blk_store bops h1 b n, bt_blk_ops = bops, bt_kv_ops = ops, bt_root_flag = fl\<rparr>"
  have mn: "\<not> (case meta of Some data \<Rightarrow> sizeof_bnode + metasize_align (length data) + sizeof_metasize + BLK_MARKER_SIZE
         | None \<Rightarrow> sizeof_bnode + BLK_MARKER_SIZE) > N"
    using assms(4) capacity by (auto simp: meta_fits_def BLK_MARKER_SIZE_def split: option.splits)
  have "btree_init h bops ops N K V flags meta = Some (BTREE_RESULT_SUCCESS, bt)"
    using mn a(1) by (simp add: btree_init_def Let_def fl_def [symmetric] bt_alloc_def bt_store_def bt_def n_def)
  moreover have "tree_at bt (Leaf b [])"
    using r s a(7) by (simp add: tree_at_def bt_def sorted_tree_def node_on_def root_ok_def)
  moreover have "root_meta bt = Some (case meta of None \<Rightarrow> [] | Some data \<Rightarrow> data)" using r(7) s a(7) by (simp add: root_meta_def bt_def)
  moreover have "evolves h {} (bt_handle bt) {b} 1"
    using s(1,3,4) a(4,7) ext_trans [OF a(3) s(2)] by (auto simp: evolves_def bt_def)
  moreover have "bt_height bt = 1" by (simp add: bt_def)
  ultimately show ?thesis by blast
qed

text \<open>A tree in the blocks is opened at its root, whatever handle it was built with.\<close>

lemma open_spec:
  assumes "inv h" "0 < l" "sorted_tree (nd (view h)) l t" "set (bids t) \<subseteq> saved (view h)" "nd (view h) (rbid t) = Some r" "has_meta r \<longrightarrow> 0 < metasize r"
  shows "\<exists>bt. btree_init_from_bid h bops ops N (rbid t) = Some bt \<and> tree_at bt t \<and> bt_height bt = l \<and>
    root_meta bt = Some (meta_of r) \<and> reads h (bt_handle bt)"
proof -
  have "on (nd (view h)) l t" using assms(3) by (simp add: sorted_tree_def)
  from on_node [OF this] have r: "node_ok N r" "rep r (node_entries t)" "bn_level r = l" using assms(5) by (auto simp: node_on_def)
  obtain h' where h': "blk_read bops h (rbid t) = Some (r, h')" "inv h'" "ext h h'" "view h' = (view h)\<lparr>cached := insert (rbid t) (cached (view h))\<rparr>"
    using rd [OF assms(1,5)] by blast
  define bt where "bt = \<lparr>bt_ksize = K, bt_vsize = V, bt_height = l, bt_blksize = N, bt_root_bid = rbid t,
    bt_handle = h', bt_blk_ops = bops, bt_kv_ops = ops, bt_root_flag = bn_flag r\<rparr>"
  have "ksz r = K" "vsz r = V" using r(2) by (simp_all add: node_rep_def)
  then have "btree_init_from_bid h bops ops N (rbid t) = Some bt"
    using h'(1) fetch_node_ok [OF r(1)] r(3) by (simp add: btree_init_from_bid_def Let_def bt_read_def bt_def)
  moreover have "tree_at bt t" using assms(2-6) h'(2,4) by (simp add: tree_at_def bt_def root_ok_def)
  moreover have "reads h (bt_handle bt)" using h'(2-4) by (auto simp: reads_def bt_def)
  ultimately show ?thesis using h'(4) assms(5) by (simp add: root_meta_def bt_def)
qed

text \<open>A tree lies in every handle whose blocks agree on the tree.\<close>

lemma tree_transfer:
  assumes "tree_at bt t" "inv h'" "\<And>b. b \<in> set (bids t) \<Longrightarrow> nd (view h') b = nd (vw bt) b \<and> b \<in> saved (view h')"
  shows "\<exists>bt'. btree_init_from_bid h' bops ops N (bt_root_bid bt) = Some bt' \<and> tree_at bt' t \<and> bt_height bt' = bt_height bt \<and>
    root_meta bt' = root_meta bt \<and> reads h' (bt_handle bt')"
proof -
  note ta = tree_atD [OF assms(1)]
  have rb: "rbid t \<in> set (bids t)" by (cases t) simp_all
  obtain r where r: "nd (vw bt) (rbid t) = Some r" "has_meta r \<longrightarrow> 0 < metasize r" using ta(7) by (auto simp: root_ok_def)
  have "sorted_tree (nd (view h')) (bt_height bt) t" using ta(5) on_cong [of "nd (vw bt)" _ t "nd (view h')"] assms(3) by (simp add: sorted_tree_def)
  moreover have "set (bids t) \<subseteq> saved (view h')" "nd (view h') (rbid t) = Some r" using assms(3) rb r(1) by auto
  ultimately show ?thesis using open_spec [OF assms(2) ta(3), of t r] r ta(4) by (simp add: root_meta_def)
qed

text \<open>The bounds of the header fields: levels are at most the height, and entries take bytes.\<close>

lemma node_bound:
  assumes "node_ok N n" "rep n es" "0 < K + V" "N \<le> 2 ^ 16"
  shows "bn_nentry n < 2 ^ 16"
proof -
  obtain rest where "bn_nentry n = length es" "bn_data n = flat es @ rest" "sized K V es" using assms(2) by (auto simp: node_rep_def)
  moreover from this(3) have "length es \<le> length (flat es)" using assms(3) by (induction es) auto
  ultimately show ?thesis using assms(1,4) by (simp add: node_ok_def payload_def sizeof_bnode_def)
qed

lemma tree_nodes:
  assumes "on blocks l t" "b \<in> set (bids t)"
  shows "\<exists>n es. blocks b = Some n \<and> node_ok N n \<and> rep n es \<and> bn_level n \<le> l"
  using assms
proof (induction l arbitrary: t)
  case (Suc l)
  show ?case
  proof (cases "b = rbid t")
    case True
    then show ?thesis using on_node [OF Suc.prems(1)] by (auto simp: node_on_def)
  next
    case False
    then obtain cs k c where "t = Index (rbid t) cs" "(k, c) \<in> set cs" "b \<in> set (bids c)"
      using Suc.prems(2) by (cases t) (auto simp: bidss_def)
    moreover from this have "on blocks l c" using Suc.prems(1) by (cases t) auto
    ultimately show ?thesis using Suc.IH [of c] le_SucI by blast
  qed
qed simp

end

end
