(* ===== verification/Btree_Block.thy ===== *)
theory Btree_Block
  imports Btree Docio_Read
begin

text \<open>
  The block layer of the B+-tree (\<^verbatim>\<open>src/btreeblock.cc\<close>) over the file manager: blocks that were
  allocated and not yet written, blocks that were read, and a pool of recycled buffers. A node fills a
  block, as in every handle the engine opens; this build makes no sub-blocks, and a block number that
  denotes one has no result here. Dirty updates of an unfinished WAL flush are not modelled.
\<close>

unbundle bit_operations_syntax

section \<open>Blocks\<close>

record btreeblk_block =
  bb_bid :: nat
  bb_dirty :: bool
  bb_age :: nat
  bb_addr :: bnode

record btreeblk_handle =
  bh_nodesize :: nat
  nlivenodes :: int
  ndeltanodes :: int
  alc_list :: "btreeblk_block list"
  read_list :: "btreeblk_block list"
  bh_file :: filemgr
  blockpool :: "bnode list"

definition BTREEBLK_AGE_LIMIT :: nat where "BTREEBLK_AGE_LIMIT = 8"

definition is_subblock :: "nat \<Rightarrow> bool" where "is_subblock bid \<longleftrightarrow> bid div 2 ^ 48 mod 2 ^ 8 \<noteq> 0"

definition subbid2bid :: "nat \<Rightarrow> nat" where "subbid2bid bid = bid mod 2 ^ 48"

text \<open>A recycled buffer keeps its old contents, a new one is zero.\<close>

definition zero_node :: "nat \<Rightarrow> bnode" where
  "zero_node sz = \<lparr>bn_kvsize = 0, bn_flag = 0, bn_level = 0, bn_nentry = 0, bn_meta = [], bn_data = replicate (sz - sizeof_bnode) 0\<rparr>"

definition btreeblk_get_aligned_block :: "btreeblk_handle \<Rightarrow> bnode \<times> btreeblk_handle" where
  "btreeblk_get_aligned_block h =
     (case blockpool h of [] \<Rightarrow> (zero_node (fm_blocksize (bh_file h)), h) | n # ns \<Rightarrow> (n, h\<lparr>blockpool := ns\<rparr>))"

definition btreeblk_free_aligned_block :: "btreeblk_handle \<Rightarrow> bnode \<Rightarrow> btreeblk_handle" where
  "btreeblk_free_aligned_block h n = h\<lparr>blockpool := n # blockpool h\<rparr>"

section \<open>Byte images\<close>

text \<open>
  The header fields are encoded when a block is written. The pointer to the data, the last field of
  the header, has no meaning in the file: writing a node replaces it by the checksum.
\<close>

definition btreeblk_encode :: "bnode \<Rightarrow> buf" where
  "btreeblk_encode n =
     word_mem 2 (enc16 (bn_kvsize n)) @ word_mem 2 (enc16 (bn_flag n)) @ word_mem 2 (enc16 (word_of_nat (bn_level n))) @
     word_mem 2 (enc16 (word_of_nat (bn_nentry n))) @ replicate 8 0 @ payload n"

text \<open>The sections of a node that was read are those that its flag and its metadata size tell.\<close>

definition btreeblk_decode :: "buf \<Rightarrow> bnode" where
  "btreeblk_decode b =
     fetch_bnode \<lparr>bn_kvsize = dec16 (mem_word (mem_read b 0 2)), bn_flag = dec16 (mem_word (mem_read b 2 2)),
       bn_level = unat (dec16 (mem_word (mem_read b 4 2))), bn_nentry = unat (dec16 (mem_word (mem_read b 6 2))),
       bn_meta = [], bn_data = drop sizeof_bnode b\<rparr>"

section \<open>Operations\<close>

text \<open>
  Allocating writes the block marker to the file, so that the block reads as a tree node from then
  on. The result of that write is not looked at.
\<close>

definition set_marker :: "bnode \<Rightarrow> bnode" where
  "set_marker n = n\<lparr>bn_meta := [], bn_data := mem_set (payload n) (length (payload n) - BLK_MARKER_SIZE) BLK_MARKER_BNODE BLK_MARKER_SIZE\<rparr>"

definition btreeblk_alloc :: "btreeblk_handle \<Rightarrow> (nat \<times> bnode \<times> btreeblk_handle) option" where
  "btreeblk_alloc h = do {
     let (n, h1) = btreeblk_get_aligned_block h;
     (bid, file1) \<leftarrow> filemgr_alloc (bh_file h1);
     (_, file2) \<leftarrow> filemgr_write_offset file1 bid (fm_blocksize file1 - 1) [BLK_MARKER_BNODE];
     let addr = set_marker n;
     Some (bid, addr, h1\<lparr>bh_file := file2, nlivenodes := nlivenodes h1 + 1, ndeltanodes := ndeltanodes h1 + 1,
       alc_list := alc_list h1 @ [\<lparr>bb_bid = bid, bb_dirty = True, bb_age = 0, bb_addr = addr\<rparr>]\<rparr>)
   }"

definition in_list :: "btreeblk_block list \<Rightarrow> nat \<Rightarrow> btreeblk_block option" where
  "in_list bs bid = find (\<lambda>b. bb_bid b = bid) bs"

text \<open>Changing the first block of a list that has the number.\<close>

fun change_first :: "(btreeblk_block \<Rightarrow> btreeblk_block) \<Rightarrow> nat \<Rightarrow> btreeblk_block list \<Rightarrow> btreeblk_block list" where
  "change_first f bid [] = []"
| "change_first f bid (b # bs) = (if bb_bid b = bid then f b # bs else b # change_first f bid bs)"

definition btreeblk_read :: "btreeblk_handle \<Rightarrow> nat \<Rightarrow> (bnode \<times> btreeblk_handle) option" where
  "btreeblk_read h bid =
     (if is_subblock bid then None
      else
        (let filebid = subbid2bid bid in
         case in_list (read_list h) filebid of
           Some b \<Rightarrow> Some (bb_addr b, h\<lparr>read_list := change_first (\<lambda>b. b\<lparr>bb_age := 0\<rparr>) filebid (read_list h)\<rparr>)
         | None \<Rightarrow>
             (case in_list (alc_list h) filebid of
                Some b \<Rightarrow> Some (bb_addr b, h\<lparr>alc_list := change_first (\<lambda>b. b\<lparr>bb_age := 0\<rparr>) filebid (alc_list h)\<rparr>)
              | None \<Rightarrow>
                  (let (_, h1) = btreeblk_get_aligned_block h in
                   case filemgr_read (bh_file h1) filebid True of
                     Inl _ \<Rightarrow> None
                   | Inr b \<Rightarrow>
                       (let n = btreeblk_decode b
                        in Some (n, h1\<lparr>read_list := \<lparr>bb_bid = filebid, bb_dirty = False, bb_age = 0, bb_addr = n\<rparr> # read_list h1\<rparr>))))))"

text \<open>An assignment through the address of a block that is held in memory.\<close>

definition btreeblk_store :: "btreeblk_handle \<Rightarrow> nat \<Rightarrow> bnode \<Rightarrow> btreeblk_handle" where
  "btreeblk_store h bid n =
     (if in_list (read_list h) bid \<noteq> None then h\<lparr>read_list := change_first (\<lambda>b. b\<lparr>bb_addr := n\<rparr>) bid (read_list h)\<rparr>
      else h\<lparr>alc_list := change_first (\<lambda>b. b\<lparr>bb_addr := n\<rparr>) bid (alc_list h)\<rparr>)"

definition btreeblk_move :: "btreeblk_handle \<Rightarrow> nat \<Rightarrow> (nat \<times> bnode \<times> btreeblk_handle) option" where
  "btreeblk_move h bid =
     (if is_subblock bid then None
      else do {
        (old, h1) \<leftarrow> btreeblk_read h bid;
        (new_bid, _, h2) \<leftarrow> btreeblk_alloc h1;
        let h3 = btreeblk_store (h2\<lparr>nlivenodes := nlivenodes h2 - 1\<rparr>) new_bid old;
        Some (new_bid, old, h3\<lparr>bh_file := filemgr_add_stale_block (bh_file h3) (bid * bh_nodesize h) (bh_nodesize h)\<rparr>)
      })"

definition btreeblk_remove :: "btreeblk_handle \<Rightarrow> nat \<Rightarrow> btreeblk_handle" where
  "btreeblk_remove h bid =
     (if is_subblock bid then h
      else h\<lparr>nlivenodes := nlivenodes h - 1,
             bh_file := filemgr_add_stale_block (bh_file h) (subbid2bid bid * bh_nodesize h) (bh_nodesize h)\<rparr>)"

definition btreeblk_is_writable :: "btreeblk_handle \<Rightarrow> nat \<Rightarrow> bool" where
  "btreeblk_is_writable h bid = filemgr_is_writable (bh_file h) (subbid2bid bid)"

definition btreeblk_set_dirty :: "btreeblk_handle \<Rightarrow> nat \<Rightarrow> btreeblk_handle" where
  "btreeblk_set_dirty h bid = h\<lparr>read_list := change_first (\<lambda>b. b\<lparr>bb_dirty := True\<rparr>) (subbid2bid bid) (read_list h)\<rparr>"

definition btreeblk_get_size :: "btreeblk_handle \<Rightarrow> nat \<Rightarrow> nat" where
  "btreeblk_get_size h bid = bh_nodesize h"

section \<open>Writing back\<close>

definition btreeblk_write_dirty_block :: "filemgr \<Rightarrow> btreeblk_block \<Rightarrow> (int \<times> filemgr) option" where
  "btreeblk_write_dirty_block file b = filemgr_write file (bb_bid b) (btreeblk_encode (bb_addr b))"

text \<open>The allocated blocks are written in order and become read blocks; the first failure stops.\<close>

fun write_allocated :: "btreeblk_handle \<Rightarrow> btreeblk_block list \<Rightarrow> (int \<times> btreeblk_handle) option" where
  "write_allocated h [] = Some (FDB_RESULT_SUCCESS, h)"
| "write_allocated h (b # bs) =
     (if \<not> filemgr_is_writable (bh_file h) (bb_bid b) then Some (FDB_RESULT_WRITE_FAIL, h)
      else do {
        (status, file) \<leftarrow> btreeblk_write_dirty_block (bh_file h) b;
        let h1 = h\<lparr>bh_file := file\<rparr>;
        if status \<noteq> FDB_RESULT_SUCCESS then Some (status, h1)
        else write_allocated (h1\<lparr>alc_list := bs, read_list := b\<lparr>bb_dirty := False\<rparr> # read_list h1\<rparr>) bs
      })"

text \<open>The dirty read blocks are written; a block that was not used for long is dropped.\<close>

fun write_read :: "btreeblk_handle \<Rightarrow> btreeblk_block list \<Rightarrow> btreeblk_block list \<Rightarrow> (int \<times> btreeblk_handle) option" where
  "write_read h passed [] = Some (FDB_RESULT_SUCCESS, h\<lparr>read_list := passed\<rparr>)"
| "write_read h passed (b # bs) = do {
     (status, file) \<leftarrow> (if bb_dirty b then btreeblk_write_dirty_block (bh_file h) b else Some (FDB_RESULT_SUCCESS, bh_file h));
     let h1 = h\<lparr>bh_file := file\<rparr>;
     if status \<noteq> FDB_RESULT_SUCCESS then Some (status, h1\<lparr>read_list := passed @ b # bs\<rparr>)
     else if bb_age b \<ge> BTREEBLK_AGE_LIMIT then write_read (btreeblk_free_aligned_block h1 (bb_addr b)) passed bs
     else write_read h1 (passed @ [b\<lparr>bb_dirty := False, bb_age := bb_age b + 1\<rparr>]) bs
   }"

definition btreeblk_operation_end :: "btreeblk_handle \<Rightarrow> (int \<times> btreeblk_handle) option" where
  "btreeblk_operation_end h = do {
     (status, h1) \<leftarrow> write_allocated h (alc_list h);
     if status \<noteq> FDB_RESULT_SUCCESS then Some (status, h1) else write_read h1 [] (read_list h1)
   }"

definition btreeblk_end :: "btreeblk_handle \<Rightarrow> (int \<times> btreeblk_handle) option" where
  "btreeblk_end h = do {
     (status, h1) \<leftarrow> btreeblk_operation_end h;
     if status \<noteq> FDB_RESULT_SUCCESS then Some (status, h1)
     else Some (status, h1\<lparr>alc_list := [], read_list := map (\<lambda>b. b\<lparr>bb_dirty := False\<rparr>) (rev (alc_list h1)) @ read_list h1\<rparr>)
   }"

text \<open>One allocated block is written and dropped; on a failure it stays.\<close>

fun btreeblk_write_done :: "btreeblk_handle \<Rightarrow> nat \<Rightarrow> btreeblk_block list \<Rightarrow> btreeblk_block list \<Rightarrow> btreeblk_handle option" where
  "btreeblk_write_done h bid passed [] = Some (h\<lparr>alc_list := passed\<rparr>)"
| "btreeblk_write_done h bid passed (b # bs) =
     (if bb_bid b \<noteq> bid then btreeblk_write_done h bid (passed @ [b]) bs
      else if \<not> filemgr_is_writable (bh_file h) (bb_bid b) then Some (h\<lparr>alc_list := passed @ b # bs\<rparr>)
      else do {
        (status, file) \<leftarrow> btreeblk_write_dirty_block (bh_file h) b;
        let h1 = h\<lparr>bh_file := file\<rparr>;
        if status \<noteq> FDB_RESULT_SUCCESS then Some (h1\<lparr>alc_list := passed @ b # bs\<rparr>)
        else btreeblk_write_done (btreeblk_free_aligned_block h1 (bb_addr b)) bid passed bs
      })"

definition btreeblk_discard_blocks :: "btreeblk_handle \<Rightarrow> btreeblk_handle" where
  "btreeblk_discard_blocks h = (foldl (\<lambda>h b. btreeblk_free_aligned_block h (bb_addr b)) h (read_list h))\<lparr>read_list := []\<rparr>"

definition btreeblk_init :: "filemgr \<Rightarrow> nat \<Rightarrow> btreeblk_handle" where
  "btreeblk_init file nodesize =
     \<lparr>bh_nodesize = nodesize, nlivenodes = 0, ndeltanodes = 0, alc_list = [], read_list = [], bh_file = file, blockpool = []\<rparr>"

definition btreeblk_ops :: "btreeblk_handle btree_blk_ops" where
  "btreeblk_ops = \<lparr>blk_alloc = btreeblk_alloc, blk_read = btreeblk_read, blk_store = btreeblk_store, blk_move = btreeblk_move,
     blk_remove = btreeblk_remove, blk_is_writable = btreeblk_is_writable, blk_get_size = btreeblk_get_size, blk_set_dirty = btreeblk_set_dirty\<rparr>"

end
