(* ===== verification/Btree_Store.thy ===== *)
theory Btree_Store
  imports Btree_Map Btree_Block
begin

text \<open>
  The block layer of the B+-tree keeps what the tree relies on: the operations of \<open>Btree_Block\<close> on a
  growing file are an instance of the interface \<open>block_layer\<close>. Writing back puts every safe block
  into the file, where a new handle finds it.
\<close>

section \<open>Nodes in the file\<close>

definition disk_nd :: "filemgr \<Rightarrow> nat \<Rightarrow> bnode option" where
  "disk_nd f b = (case filemgr_read f b True of Inl _ \<Rightarrow> None
     | Inr buf \<Rightarrow> if last buf = BLK_MARKER_BNODE then Some (btreeblk_decode buf) else None)"

text \<open>What becomes of a node in the file: the header fields have 16 bits.\<close>

definition disk_node :: "bnode \<Rightarrow> bnode" where
  "disk_node n = fetch_bnode (n\<lparr>bn_level := bn_level n mod 2 ^ 16, bn_nentry := bn_nentry n mod 2 ^ 16\<rparr>)"

lemma payload_set_data [simp]: "payload (set_data n off) = payload n"
proof -
  have "payload (n\<lparr>bn_meta := a, bn_data := b\<rparr>) = a @ b" for a b by (simp add: payload_def)
  then show ?thesis by (simp add: set_data_def)
qed

lemma payload_fetch [simp]: "payload (fetch_bnode n) = payload n"
  by (simp add: fetch_bnode_def)

lemma set_data_set_data: "set_data (set_data n off) off = set_data n off"
  using payload_set_data [of n off] unfolding set_data_def [of "set_data n off"] by (simp add: set_data_def)

lemma set_data_fields [simp]: "has_meta (set_data n off) = has_meta n" "metasize (set_data n off) = metasize n"
  by (simp add: has_meta_def set_data_def) (simp add: metasize_def)

lemma fetch_fetch [simp]: "fetch_bnode (fetch_bnode n) = fetch_bnode n"
  by (simp add: fetch_bnode_def set_data_set_data)

lemma fetch_fields [simp]:
  "bn_level (fetch_bnode n) = bn_level n" "bn_nentry (fetch_bnode n) = bn_nentry n" "bn_flag (fetch_bnode n) = bn_flag n"
  "bn_kvsize (fetch_bnode n) = bn_kvsize n"
  by (simp_all add: fetch_bnode_def set_data_def)

lemma unat_lt: "unat (w :: u16) < 2 ^ 16"
  using unsigned_less [of w] by simp

lemma disk_node_decode: "disk_node (btreeblk_decode b) = btreeblk_decode b"
proof -
  define n where "n = \<lparr>bn_kvsize = dec16 (mem_word (mem_read b 0 2)), bn_flag = dec16 (mem_word (mem_read b 2 2)),
       bn_level = unat (dec16 (mem_word (mem_read b 4 2))), bn_nentry = unat (dec16 (mem_word (mem_read b 6 2))),
       bn_meta = [], bn_data = drop sizeof_bnode b\<rparr>"
  have "bn_level n < 2 ^ 16" "bn_nentry n < 2 ^ 16" using unat_lt [of "dec16 (mem_word (mem_read b 4 2))"] unat_lt [of "dec16 (mem_word (mem_read b 6 2))"] by (simp_all add: n_def)
  then have "(fetch_bnode n)\<lparr>bn_level := bn_level n mod 2 ^ 16, bn_nentry := bn_nentry n mod 2 ^ 16\<rparr> = fetch_bnode n"
    by (simp add: fetch_bnode_def set_data_def)
  then show ?thesis unfolding btreeblk_decode_def n_def [symmetric] by (simp add: disk_node_def)
qed

lemma disk_node_ok:
  assumes "node_ok N n" "bn_level n < 2 ^ 16" "bn_nentry n < 2 ^ 16"
  shows "disk_node n = n"
  using assms fetch_node_ok [OF assms(1)] by (simp add: disk_node_def)

lemma length_encode: "length (btreeblk_encode n) = sizeof_bnode + length (payload n)"
  by (simp add: btreeblk_encode_def sizeof_bnode_def)

lemma payload_decode: "payload (btreeblk_decode b) = drop sizeof_bnode b"
  by (simp add: btreeblk_decode_def) (simp add: payload_def)

lemma encode_decode:
  assumes "payload n \<noteq> []" "last (payload n) = BLK_MARKER_BNODE"
  shows "btreeblk_decode (read_image (btreeblk_encode n)) = disk_node n" "last (read_image (btreeblk_encode n)) = BLK_MARKER_BNODE"
proof -
  let ?b = "btreeblk_encode n"
  have len: "16 < length ?b" using assms(1) by (simp add: length_encode sizeof_bnode_def)
  have l: "?b ! (length ?b - 1) = BLK_MARKER_BNODE"
    using assms len last_conv_nth [of ?b] by (simp add: btreeblk_encode_def)
  then have r: "read_image ?b = crc_blank ?b" by (simp add: read_image_def)
  have cb: "crc_blank ?b = take 8 ?b @ replicate 8 0xff @ payload n"
    using len by (simp add: crc_blank_def mem_set_def mem_write_def BTREE_CRC_OFFSET_def BTREE_CRC_FIELD_LEN_def) (simp add: btreeblk_encode_def)
  show "last (read_image ?b) = BLK_MARKER_BNODE" using assms unfolding r cb by simp
  have t: "take 8 ?b = word_mem 2 (enc16 (bn_kvsize n)) @ word_mem 2 (enc16 (bn_flag n)) @
      word_mem 2 (enc16 (word_of_nat (bn_level n))) @ word_mem 2 (enc16 (word_of_nat (bn_nentry n)))"
    by (simp add: btreeblk_encode_def)
  have "btreeblk_decode (crc_blank ?b) = fetch_bnode \<lparr>bn_kvsize = bn_kvsize n, bn_flag = bn_flag n, bn_level = bn_level n mod 2 ^ 16,
      bn_nentry = bn_nentry n mod 2 ^ 16, bn_meta = [], bn_data = payload n\<rparr>"
    unfolding btreeblk_decode_def cb t by (simp add: mem_read_def sizeof_bnode_def mem_word_word_mem unat_of_nat)
  also have "\<dots> = disk_node n"
    by (cases n) (simp add: disk_node_def fetch_bnode_def set_data_def payload_def has_meta_def metasize_def)
  finally show "btreeblk_decode (read_image ?b) = disk_node n" unfolding r .
qed

section \<open>The view of a handle\<close>

definition held :: "btreeblk_handle \<Rightarrow> btreeblk_block list" where "held h = read_list h @ alc_list h"

text \<open>Block numbers have 48 bits, the bits above mark sub-blocks.\<close>

definition bh_view :: "btreeblk_handle \<Rightarrow> view" where
  "bh_view h =
     \<lparr>nd = (\<lambda>b. case in_list (held h) b of Some c \<Rightarrow> Some (bb_addr c) | None \<Rightarrow> disk_nd (bh_file h) b),
      saved = {b. \<forall>c. in_list (held h) b = Some c \<longrightarrow> bb_dirty c \<or> disk_nd (bh_file h) b = Some (disk_node (bb_addr c))},
      writable = {b. fresh (bh_file h) b},
      unwritten = bb_bid ` set (alc_list h),
      cached = bb_bid ` set (held h),
      spare = 2 ^ 48 - 1 - fm_pos (bh_file h) div fm_blocksize (bh_file h)\<rparr>"

definition block_ok :: "nat \<Rightarrow> filemgr \<Rightarrow> btreeblk_block \<Rightarrow> bool" where
  "block_ok N f c \<longleftrightarrow> bb_bid c * N < fm_pos f \<and> sizeof_bnode + length (payload (bb_addr c)) = N \<and> last (payload (bb_addr c)) = BLK_MARKER_BNODE \<and>
     (bb_dirty c \<longrightarrow> fresh f (bb_bid c))"

definition bh_inv :: "nat \<Rightarrow> btreeblk_handle \<Rightarrow> bool" where
  "bh_inv N h \<longleftrightarrow> growing (bh_file h) \<and> fm_blocksize (bh_file h) = N \<and> bh_nodesize h = N \<and> N \<le> 2 ^ 16 \<and> fm_pos (bh_file h) div N < 2 ^ 48 \<and>
     distinct (map bb_bid (held h)) \<and> (\<forall>c \<in> set (held h). block_ok N (bh_file h) c) \<and> (\<forall>c \<in> set (alc_list h). bb_dirty c) \<and>
     (\<forall>n \<in> set (blockpool h). sizeof_bnode + length (payload n) = N)"

text \<open>What stays of the file: what was committed.\<close>

definition bh_ext :: "btreeblk_handle \<Rightarrow> btreeblk_handle \<Rightarrow> bool" where
  "bh_ext h h' \<longleftrightarrow> (growing (bh_file h) \<longrightarrow> grows (bh_file h) (bh_file h') \<and>
     (\<forall>b. b * fm_blocksize (bh_file h) < fm_last_commit (bh_file h) \<longrightarrow> block (bh_file h') b = block (bh_file h) b))"

lemma ext_same: "bh_ext h h"
  by (simp add: bh_ext_def grows_refl)

lemma ext_after: "bh_ext h h1 \<Longrightarrow> bh_ext h1 h2 \<Longrightarrow> bh_ext h h2"
  unfolding bh_ext_def by (auto simp: grows_def)

lemma in_list_append: "in_list (xs @ ys) b = (case in_list xs b of Some c \<Rightarrow> Some c | None \<Rightarrow> in_list ys b)"
  by (induction xs) (simp_all add: in_list_def)

lemma in_list_Nil [simp]: "in_list [] b = None" and in_list_Cons [simp]: "in_list (c # cs) b = (if bb_bid c = b then Some c else in_list cs b)"
  by (simp_all add: in_list_def)

lemma in_list_SomeD: "in_list cs b = Some c \<Longrightarrow> c \<in> set cs \<and> bb_bid c = b"
  by (induction cs) (auto split: if_splits)

lemma in_list_None: "in_list cs b = None \<longleftrightarrow> b \<notin> bb_bid ` set cs"
  by (induction cs) auto

lemma in_list_member: "distinct (map bb_bid cs) \<Longrightarrow> c \<in> set cs \<Longrightarrow> in_list cs (bb_bid c) = Some c"
  by (induction cs) (auto simp: rev_image_eqI)

lemma in_list_change:
  assumes "\<And>c. bb_bid (f c) = bb_bid c"
  shows "in_list (change_first f b cs) x = (if x = b then map_option f (in_list cs b) else in_list cs x)"
  by (induction cs) (auto simp: assms)

lemma change_first_bids: "(\<And>c. bb_bid (f c) = bb_bid c) \<Longrightarrow> map bb_bid (change_first f b cs) = map bb_bid cs"
  by (induction cs) auto

lemma change_first_set: "set (change_first f b cs) \<subseteq> set cs \<union> {f c |c. c \<in> set cs \<and> bb_bid c = b}"
  by (induction cs) auto

lemma change_first_absent: "in_list cs b = None \<Longrightarrow> change_first f b cs = cs"
  by (induction cs) (auto split: if_splits)

section \<open>Reading from the file\<close>

lemma growing_file: "growing f \<Longrightarrow> file_ok f" and growing_size: "growing f \<Longrightarrow> 32 \<le> fm_blocksize f"
  by (auto simp: growing_def)

lemma read_inside:
  assumes "growing f" "b * fm_blocksize f < fm_pos f"
  shows "filemgr_read f b True = (case filemgr_crc32_check f (block f b) of (st, b') \<Rightarrow> if st \<noteq> FDB_RESULT_SUCCESS then Inl st else Inr b')"
  using read_block [OF growing_file [OF assms(1)] assms(2)] assms(2) by (simp add: filemgr_read_def not_le)

lemma disk_nd_cong:
  assumes "growing f" "growing f'" "fm_blocksize f' = fm_blocksize f" "b * fm_blocksize f < fm_pos f" "fm_pos f \<le> fm_pos f'" "block f' b = block f b"
  shows "disk_nd f' b = disk_nd f b"
proof -
  have "fm_crc_mode f' = fm_crc_mode f" using assms(1,2) by (simp add: growing_def)
  then have "filemgr_crc32_check f' (block f' b) = filemgr_crc32_check f (block f b)" using assms(3,6) by (simp add: filemgr_crc32_check_def)
  then show ?thesis using read_inside [OF assms(1,4)] read_inside [OF assms(2), of b] assms(3-5) by (simp add: disk_nd_def)
qed

lemma disk_nd_outside: "fm_pos f \<le> b * fm_blocksize f \<Longrightarrow> disk_nd f b = None"
  by (simp add: disk_nd_def filemgr_read_def)

lemma disk_nd_bound:
  assumes "growing f" "disk_nd f b = Some n"
  shows "b * fm_blocksize f < fm_pos f" "sizeof_bnode + length (payload n) = fm_blocksize f" "last (payload n) = BLK_MARKER_BNODE" "disk_node n = n"
proof -
  show b: "b * fm_blocksize f < fm_pos f" using assms(2) disk_nd_outside [of f b] by (cases "b * fm_blocksize f < fm_pos f") auto
  obtain buf where r: "filemgr_read f b True = Inr buf" "last buf = BLK_MARKER_BNODE" "n = btreeblk_decode buf"
    using assms(2) by (auto simp: disk_nd_def split: sum.splits if_splits)
  have "length (block f b) = fm_blocksize f" using length_block [OF growing_file [OF assms(1)] b] .
  then have l: "length buf = fm_blocksize f" using r(1) read_inside [OF assms(1) b] growing_size [OF assms(1)]
    by (auto simp: filemgr_crc32_check_def Let_def mem_set_def mem_simps BTREE_CRC_OFFSET_def BTREE_CRC_FIELD_LEN_def split: if_splits)
  then show "sizeof_bnode + length (payload n) = fm_blocksize f" "last (payload n) = BLK_MARKER_BNODE"
    using growing_size [OF assms(1)] r(2,3) by (simp_all add: payload_decode sizeof_bnode_def last_drop)
  show "disk_node n = n" using r(3) disk_node_decode by simp
qed

lemma bh_invD:
  assumes "bh_inv N h"
  shows "growing (bh_file h)" "fm_blocksize (bh_file h) = N" "bh_nodesize h = N" "N \<le> 2 ^ 16" "32 \<le> N" "fm_pos (bh_file h) div N < 2 ^ 48"
    "distinct (map bb_bid (held h))" "\<And>c. c \<in> set (held h) \<Longrightarrow> block_ok N (bh_file h) c" "\<And>c. c \<in> set (alc_list h) \<Longrightarrow> bb_dirty c"
    "\<And>n. n \<in> set (blockpool h) \<Longrightarrow> sizeof_bnode + length (payload n) = N"
  using assms growing_size [of "bh_file h"] by (auto simp: bh_inv_def)

lemma nd_bound:
  assumes "bh_inv N h" "nd (bh_view h) b = Some n"
  shows "b * N < fm_pos (bh_file h)" "b < 2 ^ 48" "sizeof_bnode + length (payload n) = N" "last (payload n) = BLK_MARKER_BNODE"
proof -
  note i = bh_invD [OF assms(1)]
  have k: "b * N < fm_pos (bh_file h) \<and> sizeof_bnode + length (payload n) = N \<and> last (payload n) = BLK_MARKER_BNODE"
  proof (cases "in_list (held h) b")
    case None
    then show ?thesis using disk_nd_bound [OF i(1), of b n] assms(2) i(2) by (simp add: bh_view_def)
  next
    case (Some c)
    then show ?thesis using assms(2) in_list_SomeD [OF Some] i(8) [of c] by (auto simp: bh_view_def block_ok_def)
  qed
  then show "b * N < fm_pos (bh_file h)" "sizeof_bnode + length (payload n) = N" "last (payload n) = BLK_MARKER_BNODE" by auto
  have "b = b * N div N" using i(5) by simp
  also have "\<dots> \<le> fm_pos (bh_file h) div N" using k by (intro div_le_mono) simp
  finally show "b < 2 ^ 48" using i(6) by simp
qed

lemma plain_bid: "b < 2 ^ 48 \<Longrightarrow> \<not> is_subblock b \<and> subbid2bid b = b"
  by (simp add: is_subblock_def subbid2bid_def)

section \<open>Blocks in memory\<close>

definition update_held :: "(btreeblk_block \<Rightarrow> btreeblk_block) \<Rightarrow> nat \<Rightarrow> btreeblk_handle \<Rightarrow> btreeblk_handle" where
  "update_held f b h = (if in_list (read_list h) b \<noteq> None then h\<lparr>read_list := change_first f b (read_list h)\<rparr>
     else h\<lparr>alc_list := change_first f b (alc_list h)\<rparr>)"

lemma update_held_same [simp]:
  "bh_file (update_held f b h) = bh_file h" "blockpool (update_held f b h) = blockpool h" "bh_nodesize (update_held f b h) = bh_nodesize h"
  by (simp_all add: update_held_def)

lemma in_list_update_held:
  assumes "\<And>c. bb_bid (f c) = bb_bid c"
  shows "in_list (held (update_held f b h)) x = (if x = b then map_option f (in_list (held h) b) else in_list (held h) x)"
  using in_list_change [of f b _ x, OF assms] by (auto simp: held_def update_held_def in_list_append split: option.splits)

lemma update_held_bids:
  assumes "\<And>c. bb_bid (f c) = bb_bid c"
  shows "map bb_bid (held (update_held f b h)) = map bb_bid (held h)" "bb_bid ` set (alc_list (update_held f b h)) = bb_bid ` set (alc_list h)"
    "bb_bid ` set (held (update_held f b h)) = bb_bid ` set (held h)"
proof -
  show m: "map bb_bid (held (update_held f b h)) = map bb_bid (held h)"
    using change_first_bids [of f, OF assms] by (simp add: held_def update_held_def)
  from arg_cong [OF m, of set] show "bb_bid ` set (held (update_held f b h)) = bb_bid ` set (held h)" by simp
  have "map bb_bid (alc_list (update_held f b h)) = map bb_bid (alc_list h)" using change_first_bids [of f, OF assms] by (simp add: update_held_def)
  from arg_cong [OF this, of set] show "bb_bid ` set (alc_list (update_held f b h)) = bb_bid ` set (alc_list h)" by simp
qed

lemma update_held_inv:
  assumes "bh_inv N h" "\<And>c. bb_bid (f c) = bb_bid c" "\<And>c. bb_dirty c \<Longrightarrow> bb_dirty (f c)"
    "\<And>c. c \<in> set (held h) \<Longrightarrow> bb_bid c = b \<Longrightarrow> block_ok N (bh_file h) (f c)"
  shows "bh_inv N (update_held f b h)"
proof -
  have s: "c \<in> set (held (update_held f b h)) \<Longrightarrow> c \<in> set (held h) \<or> (\<exists>d \<in> set (held h). c = f d \<and> bb_bid d = b)" for c
    using change_first_set [of f b "read_list h"] change_first_set [of f b "alc_list h"] by (auto simp: held_def update_held_def split: if_splits)
  have a: "c \<in> set (alc_list (update_held f b h)) \<Longrightarrow> c \<in> set (alc_list h) \<or> (\<exists>d \<in> set (alc_list h). c = f d)" for c
    using change_first_set [of f b "alc_list h"] by (auto simp: update_held_def split: if_splits)
  note i = bh_invD [OF assms(1)]
  have "\<forall>c \<in> set (held (update_held f b h)). block_ok N (bh_file h) c" using s assms(4) i(8) by blast
  moreover have "\<forall>c \<in> set (alc_list (update_held f b h)). bb_dirty c" using a assms(3) i(9) by blast
  ultimately show ?thesis using assms(1) update_held_bids(1) [of f b h, OF assms(2)] by (simp add: bh_inv_def)
qed

lemma viewI:
  assumes "nd v' = nd v" "saved v' = saved v" "writable v' = writable v" "unwritten v' = unwritten v" "cached v' = cached v" "spare v' = spare v"
  shows "v' = (v :: view)"
  using assms by simp

lemma update_held_view:
  assumes "\<And>c. bb_bid (f c) = bb_bid c"
  shows "writable (bh_view (update_held f b h)) = writable (bh_view h)" "unwritten (bh_view (update_held f b h)) = unwritten (bh_view h)"
    "cached (bh_view (update_held f b h)) = cached (bh_view h)" "spare (bh_view (update_held f b h)) = spare (bh_view h)"
  using update_held_bids(2,3) [of f b h, OF assms] by (simp_all add: bh_view_def)

lemma read_held:
  assumes "bh_inv N h" "nd (bh_view h) b = Some n" "b \<in> cached (bh_view h)"
  shows "btreeblk_read h b = Some (n, update_held (\<lambda>c. c\<lparr>bb_age := 0\<rparr>) b h)" "bh_inv N (update_held (\<lambda>c. c\<lparr>bb_age := 0\<rparr>) b h)"
    "bh_view (update_held (\<lambda>c. c\<lparr>bb_age := 0\<rparr>) b h) = bh_view h"
proof -
  let ?f = "\<lambda>c. c\<lparr>bb_age := 0\<rparr>"
  obtain c where c: "in_list (held h) b = Some c" "bb_addr c = n" using assms(2,3) in_list_None [of "held h" b] by (auto simp: bh_view_def)
  show "btreeblk_read h b = Some (n, update_held ?f b h)"
    using c plain_bid [OF nd_bound(2) [OF assms(1,2)]]
    by (auto simp: btreeblk_read_def held_def in_list_append update_held_def Let_def split: option.splits)
  show "bh_inv N (update_held ?f b h)"
    using bh_invD(8) [OF assms(1)] by (intro update_held_inv [OF assms(1)]) (auto simp: block_ok_def)
  have il: "in_list (held (update_held ?f b h)) x = (if x = b then map_option ?f (in_list (held h) b) else in_list (held h) x)" for x
    by (intro in_list_update_held) simp
  show "bh_view (update_held ?f b h) = bh_view h"
    by (intro viewI update_held_view) (auto simp: bh_view_def il c(1) fun_eq_iff split: option.splits)
qed

lemma aligned_block:
  assumes "bh_inv N h" "btreeblk_get_aligned_block h = (n, h1)"
  shows "sizeof_bnode + length (payload n) = N" "bh_inv N h1" "bh_view h1 = bh_view h" "bh_file h1 = bh_file h" "alc_list h1 = alc_list h" "read_list h1 = read_list h"
    "bh_nodesize h1 = bh_nodesize h"
proof -
  note i = bh_invD [OF assms(1)]
  show f: "bh_file h1 = bh_file h" "alc_list h1 = alc_list h" "read_list h1 = read_list h" "bh_nodesize h1 = bh_nodesize h"
    using assms(2) by (auto simp: btreeblk_get_aligned_block_def split: list.splits)
  then show "bh_view h1 = bh_view h" by (simp add: bh_view_def held_def cong: option.case_cong)
  have "held h1 = held h" "set (blockpool h1) \<subseteq> set (blockpool h)"
    using f assms(2) by (auto simp: held_def btreeblk_get_aligned_block_def split: list.splits)
  then show "bh_inv N h1" using assms(1) f unfolding bh_inv_def by auto
  show "sizeof_bnode + length (payload n) = N"
    using assms(2) i(2,5,10) by (auto simp: btreeblk_get_aligned_block_def zero_node_def sizeof_bnode_def payload_def split: list.splits)
qed

lemma read_from_file:
  assumes "bh_inv N h" "nd (bh_view h) b = Some n" "b \<notin> cached (bh_view h)"
  shows "\<exists>h'. btreeblk_read h b = Some (n, h') \<and> bh_inv N h' \<and> bh_ext h h' \<and> bh_view h' = (bh_view h)\<lparr>cached := insert b (cached (bh_view h))\<rparr>"
proof -
  note i = bh_invD [OF assms(1)] and bd = nd_bound [OF assms(1,2)]
  obtain m h1 where al: "btreeblk_get_aligned_block h = (m, h1)" by (cases "btreeblk_get_aligned_block h")
  note a = aligned_block [OF assms(1) al]
  have none: "in_list (held h) b = None" using assms(3) by (simp add: bh_view_def in_list_None)
  then have d: "disk_nd (bh_file h) b = Some n" using assms(2) by (simp add: bh_view_def)
  then obtain buf where r: "filemgr_read (bh_file h) b True = Inr buf" "btreeblk_decode buf = n"
    by (auto simp: disk_nd_def split: sum.splits if_splits)
  define c where "c = \<lparr>bb_bid = b, bb_dirty = False, bb_age = 0, bb_addr = n\<rparr>"
  define h' where "h' = h1\<lparr>read_list := c # read_list h1\<rparr>"
  have "btreeblk_read h b = Some (n, h')"
    using none r plain_bid [OF bd(2)] al a(4,6)
    by (auto simp: btreeblk_read_def held_def in_list_append h'_def c_def Let_def split: option.splits)
  moreover have "held h' = c # held h" using a(5,6) by (simp add: held_def h'_def)
  moreover have "bh_inv N h'"
    using a(2,4) bd none \<open>held h' = c # held h\<close> i(7,8) a(5) by (auto simp: bh_inv_def h'_def block_ok_def c_def in_list_None)
  moreover have "bh_ext h h'" using a(4) ext_same [of h] by (simp add: bh_ext_def h'_def)
  moreover have "bh_view h' = (bh_view h)\<lparr>cached := insert b (cached (bh_view h))\<rparr>"
    using \<open>held h' = c # held h\<close> a(4,5) none d disk_nd_bound(4) [OF i(1) d]
    by (intro viewI) (auto simp: bh_view_def h'_def c_def fun_eq_iff split: option.splits)
  ultimately show ?thesis by blast
qed

lemma bh_rd:
  assumes "bh_inv N h" "nd (bh_view h) b = Some n"
  shows "\<exists>h'. btreeblk_read h b = Some (n, h') \<and> bh_inv N h' \<and> bh_ext h h' \<and> bh_view h' = (bh_view h)\<lparr>cached := insert b (cached (bh_view h))\<rparr>"
proof (cases "b \<in> cached (bh_view h)")
  case True
  then have "(bh_view h)\<lparr>cached := insert b (cached (bh_view h))\<rparr> = bh_view h" by (simp add: insert_absorb)
  then show ?thesis using read_held [OF assms True] ext_same [of h] by (auto simp: bh_ext_def)
qed (rule read_from_file [OF assms])

section \<open>Allocating and storing\<close>

lemma alloc_file:
  assumes "growing f" "fm_blocksize f = N" "N \<le> 2 ^ 16" "fm_pos f div N < 2 ^ 48 - 1"
  shows "\<exists>f1. filemgr_alloc f = Some (fm_pos f div N, f1) \<and> (\<exists>f2. filemgr_write_offset f1 (fm_pos f div N) (fm_blocksize f1 - 1) [BLK_MARKER_BNODE] = Some (FDB_RESULT_SUCCESS, f2) \<and>
    grows f f2 \<and> fm_pos f2 = fm_pos f + N \<and> fresh f2 (fm_pos f div N) \<and> (\<forall>b. b * N < fm_pos f \<longrightarrow> block f2 b = block f b))"
proof -
  have m: "fm_pos f div N * N = fm_pos f" "32 \<le> N" using assms(1,2) by (auto simp: growing_def file_ok_def)
  have "fm_pos f div N * N \<le> (2 ^ 48 - 2) * N" using assms(4) by (intro mult_le_mono1) simp
  then have "fm_pos f + N \<le> (2 ^ 48 - 1) * N" using m(1) by simp
  also have "\<dots> \<le> (2 ^ 48 - 1) * 2 ^ 16" using assms(3) by (intro mult_le_mono2)
  finally have "fm_pos f + N \<le> (2 ^ 48 - 1) * 2 ^ 16" .
  then have "fm_pos f + fm_blocksize f < 2 ^ 64" using assms(2) by simp
  from alloc_growing [OF assms(1) this] obtain f1 where a: "filemgr_alloc f = Some (fm_pos f div N, f1)" "grows f f1"
    "fm_pos f1 = fm_pos f + N" "fresh f1 (fm_pos f div N)" "\<forall>b. b * N < fm_pos f \<longrightarrow> block f1 b = block f b" using assms(2) by auto
  have g: "growing f1" "fm_blocksize f1 = N" using a(2) assms(2) by (auto simp: grows_def)
  let ?f2 = "Docio_Read.put f1 (fm_pos f div N) (fm_blocksize f1 - 1) [BLK_MARKER_BNODE]"
  have w: "filemgr_write_offset f1 (fm_pos f div N) (fm_blocksize f1 - 1) [BLK_MARKER_BNODE] = Some (FDB_RESULT_SUCCESS, ?f2)"
    using g m(2) by (intro write_offset_put [OF g(1) a(4)]) auto
  have off: "fm_blocksize f1 - 1 + length [BLK_MARKER_BNODE] \<le> fm_blocksize f1" using g m(2) by simp
  note p = put_spec [OF g(1) a(4) off]
  have "block ?f2 b = block f b" if "b * N < fm_pos f" for b
  proof -
    have "b \<noteq> fm_pos f div N" using that m(1) by auto
    then show ?thesis using p(3) [of b] that a(3,5) g(2) by simp
  qed
  moreover have "grows f ?f2" using grows_trans [OF a(2) p(1)] .
  moreover have "fresh ?f2 (fm_pos f div N)" using grows_fresh [OF p(1) a(4)] .
  ultimately show ?thesis using a(1,3) w p(4) by auto
qed

text \<open>The file after an allocation: one more block at the end, nothing else changed.\<close>

definition appended :: "filemgr \<Rightarrow> filemgr \<Rightarrow> bool" where
  "appended f f' \<longleftrightarrow> grows f f' \<and> fm_pos f' = fm_pos f + fm_blocksize f \<and> fresh f' (fm_pos f div fm_blocksize f) \<and>
     (\<forall>b. b * fm_blocksize f < fm_pos f \<longrightarrow> block f' b = block f b)"

lemma appended_frame:
  assumes "growing f" "appended f f'"
  shows "b \<noteq> fm_pos f div fm_blocksize f \<Longrightarrow> disk_nd f' b = disk_nd f b" "fresh f' b \<longleftrightarrow> fresh f b \<or> b = fm_pos f div fm_blocksize f"
    "fm_pos f' div fm_blocksize f' = Suc (fm_pos f div fm_blocksize f)" "fm_pos f div fm_blocksize f * fm_blocksize f = fm_pos f"
proof -
  let ?N = "fm_blocksize f" and ?e = "fm_pos f div fm_blocksize f"
  have f: "growing f'" "fm_blocksize f' = ?N" "fm_pos f' = fm_pos f + ?N" "fm_last_commit f' = fm_last_commit f" "fm_last_commit f \<le> fm_pos f" "0 < ?N"
    using assms growing_size [OF assms(1)] by (auto simp: appended_def grows_def growing_def)
  show e: "?e * ?N = fm_pos f" using assms(1) by (auto simp: growing_def file_ok_def)
  show "fm_pos f' div fm_blocksize f' = Suc ?e" using f(2,3,6) div_add_self2 [of "fm_blocksize f" "fm_pos f"] by simp
  have lt: "b * ?N < fm_pos f \<longleftrightarrow> b < ?e" "b * ?N < fm_pos f' \<longleftrightarrow> b < Suc ?e" for b
    using f(3,6) mult_less_cancel2 [of b ?N ?e] mult_less_cancel2 [of b ?N "Suc ?e"] by (simp_all add: e add.commute)
  show "fresh f' b \<longleftrightarrow> fresh f b \<or> b = ?e" using lt f(2,4,5) e by (auto simp: fresh_def less_Suc_eq)
  show "disk_nd f' b = disk_nd f b" if "b \<noteq> ?e"
  proof (cases "b < ?e")
    case True
    then show ?thesis using disk_nd_cong [OF assms(1) f(1,2), of b] lt f(3) assms(2) by (simp add: appended_def)
  next
    case False
    then show ?thesis using that lt [of b] f(2) disk_nd_outside [of f b] disk_nd_outside [of f' b] by (simp add: not_less less_Suc_eq)
  qed
qed

lemma marker_payload:
  assumes "sizeof_bnode + length (payload n) = N" "32 \<le> N"
  shows "sizeof_bnode + length (payload (set_marker n)) = N" "payload (set_marker n) \<noteq> []" "last (payload (set_marker n)) = BLK_MARKER_BNODE"
proof -
  have p: "payload (set_marker n) = butlast (payload n) @ [BLK_MARKER_BNODE]"
    using assms by (simp add: set_marker_def payload_def [of "_\<lparr>bn_meta := _, bn_data := _\<rparr>"] mem_set_def mem_write_def BLK_MARKER_SIZE_def butlast_conv_take sizeof_bnode_def)
  then show "payload (set_marker n) \<noteq> []" "last (payload (set_marker n)) = BLK_MARKER_BNODE" by simp_all
  show "sizeof_bnode + length (payload (set_marker n)) = N" unfolding p using assms by (simp add: sizeof_bnode_def)
qed

lemma bh_al:
  assumes "bh_inv N h" "0 < spare (bh_view h)"
  shows "\<exists>b n h'. btreeblk_alloc h = Some (b, n, h') \<and> bh_inv N h' \<and> bh_ext h h' \<and> nd (bh_view h) b = None \<and>
    payload n \<noteq> [] \<and> last (payload n) = BLK_MARKER_BNODE \<and>
    bh_view h' = \<lparr>nd = (nd (bh_view h))(b \<mapsto> n), saved = insert b (saved (bh_view h)), writable = insert b (writable (bh_view h)),
      unwritten = insert b (unwritten (bh_view h)), cached = insert b (cached (bh_view h)), spare = spare (bh_view h) - 1\<rparr> \<and> read_list h' = read_list h"
proof -
  note i = bh_invD [OF assms(1)]
  obtain m h1 where al: "btreeblk_get_aligned_block h = (m, h1)" by (cases "btreeblk_get_aligned_block h")
  note a = aligned_block [OF assms(1) al]
  let ?f = "bh_file h" and ?n = "set_marker m"
  define b where "b = fm_pos ?f div N"
  have lim: "b < 2 ^ 48 - 1" using assms(2) i(2) by (simp add: bh_view_def b_def)
  obtain f1 f2 where f: "filemgr_alloc ?f = Some (b, f1)"
    "filemgr_write_offset f1 b (fm_blocksize f1 - 1) [BLK_MARKER_BNODE] = Some (FDB_RESULT_SUCCESS, f2)" and ap: "appended ?f f2"
    using alloc_file [OF i(1,2,4)] lim i(2) by (auto simp: b_def appended_def)
  note fr = appended_frame [OF i(1) ap, unfolded i(2), folded b_def]
  have f2: "growing f2" "fm_blocksize f2 = N" "grows ?f f2" "fm_pos ?f \<le> fm_pos f2" "fresh f2 b" "b * N < fm_pos f2"
    using ap i(2,5) fr(4) by (auto simp: appended_def grows_def b_def)
  have nb: "in_list (held h) b = None"
    using i(8) fr(4) unfolding in_list_None by (fastforce simp: block_ok_def)
  have none: "disk_nd ?f b = None" using disk_nd_outside [of ?f b] fr(4) i(2) by simp
  note mp = marker_payload [OF a(1) i(5)]
  define c where "c = \<lparr>bb_bid = b, bb_dirty = True, bb_age = 0, bb_addr = ?n\<rparr>"
  define h' where "h' = h1\<lparr>bh_file := f2, nlivenodes := nlivenodes h1 + 1, ndeltanodes := ndeltanodes h1 + 1, alc_list := alc_list h1 @ [c]\<rparr>"
  have e: "btreeblk_alloc h = Some (b, ?n, h')" using al a(4) f by (simp add: btreeblk_alloc_def h'_def c_def Let_def)
  have hd: "held h' = held h @ [c]" "alc_list h' = alc_list h @ [c]" "bh_file h' = f2" "read_list h' = read_list h"
    using a(4-6) by (simp_all add: held_def h'_def)
  have bo: "block_ok N f2 d" if "block_ok N ?f d" for d
    using that f2(4) fr(2) [of "bb_bid d"] by (auto simp: block_ok_def)
  have "bh_inv N h'"
  proof -
    have "\<forall>d \<in> set (held h'). block_ok N f2 d" using bo i(8) f2(5,6) mp unfolding hd by (auto simp: c_def block_ok_def)
    moreover have "distinct (map bb_bid (held h'))" using i(7) nb unfolding hd by (simp add: c_def in_list_None)
    moreover have "\<forall>d \<in> set (alc_list h'). bb_dirty d" using i(9) unfolding hd by (auto simp: c_def)
    moreover have "bh_nodesize h' = N" "blockpool h' = blockpool h1" using a(7) i(3) by (simp_all add: h'_def)
    ultimately show ?thesis using f2(1,2) i(4) fr(3) lim bh_invD(10) [OF a(2)] by (simp add: bh_inv_def hd(3))
  qed
  moreover have "bh_ext h h'" using f2(3) ap hd(3) i(1) by (auto simp: bh_ext_def appended_def growing_def)
  moreover have "bh_view h' = \<lparr>nd = (nd (bh_view h))(b \<mapsto> ?n), saved = insert b (saved (bh_view h)), writable = insert b (writable (bh_view h)),
      unwritten = insert b (unwritten (bh_view h)), cached = insert b (cached (bh_view h)), spare = spare (bh_view h) - 1\<rparr>"
  proof (rule viewI)
    have il: "in_list (held h') x = (if x = b then Some c else in_list (held h) x)" for x
      using nb unfolding hd by (auto simp: in_list_append c_def split: option.splits)
    show "nd (bh_view h') = nd \<lparr>nd = (nd (bh_view h))(b \<mapsto> ?n), saved = insert b (saved (bh_view h)), writable = insert b (writable (bh_view h)),
      unwritten = insert b (unwritten (bh_view h)), cached = insert b (cached (bh_view h)), spare = spare (bh_view h) - 1\<rparr>"
      using fr(1) by (auto simp: bh_view_def il hd(3) c_def fun_eq_iff split: option.splits)
    show "saved (bh_view h') = saved \<lparr>nd = (nd (bh_view h))(b \<mapsto> ?n), saved = insert b (saved (bh_view h)), writable = insert b (writable (bh_view h)),
      unwritten = insert b (unwritten (bh_view h)), cached = insert b (cached (bh_view h)), spare = spare (bh_view h) - 1\<rparr>"
      using fr(1) by (auto simp: bh_view_def il hd(3) c_def)
  qed (use hd fr(2,3) i(2) f2(2) in \<open>auto simp: bh_view_def c_def b_def\<close>)
  ultimately show ?thesis using e mp none nb hd(4) by (auto simp: bh_view_def)
qed

lemma store_held: "btreeblk_store h b n = update_held (\<lambda>c. c\<lparr>bb_addr := n\<rparr>) b h"
  by (simp add: btreeblk_store_def update_held_def)

lemma store_view:
  assumes "bh_inv N h" "in_list (held h) b = Some c" "node_ok N n"
  shows "bh_inv N (btreeblk_store h b n)" "bh_ext h (btreeblk_store h b n)"
    "bh_view (btreeblk_store h b n) = (bh_view h)\<lparr>nd := (nd (bh_view h))(b \<mapsto> n),
       saved := (if bb_dirty c \<or> disk_nd (bh_file h) b = Some (disk_node n) then insert b (saved (bh_view h)) else saved (bh_view h) - {b})\<rparr>"
proof -
  let ?f = "\<lambda>c. c\<lparr>bb_addr := n\<rparr>"
  have n: "sizeof_bnode + length (payload n) = N" "last (payload n) = BLK_MARKER_BNODE" using assms(3) by (auto simp: node_ok_def payload_def)
  show "bh_inv N (btreeblk_store h b n)" unfolding store_held
    using bh_invD(8) [OF assms(1)] n by (intro update_held_inv [OF assms(1)]) (auto simp: block_ok_def)
  show "bh_ext h (btreeblk_store h b n)" using ext_same [of h] by (simp add: bh_ext_def store_held)
  have il: "in_list (held (update_held ?f b h)) x = (if x = b then map_option ?f (in_list (held h) b) else in_list (held h) x)" for x
    by (intro in_list_update_held) simp
  have v: "writable (bh_view (update_held ?f b h)) = writable (bh_view h)" "unwritten (bh_view (update_held ?f b h)) = unwritten (bh_view h)"
    "cached (bh_view (update_held ?f b h)) = cached (bh_view h)" "spare (bh_view (update_held ?f b h)) = spare (bh_view h)"
    by (intro update_held_view; simp)+
  show "bh_view (btreeblk_store h b n) = (bh_view h)\<lparr>nd := (nd (bh_view h))(b \<mapsto> n),
       saved := (if bb_dirty c \<or> disk_nd (bh_file h) b = Some (disk_node n) then insert b (saved (bh_view h)) else saved (bh_view h) - {b})\<rparr>"
    unfolding store_held
  proof (rule viewI)
    show "nd (bh_view (update_held ?f b h)) = nd ((bh_view h)\<lparr>nd := (nd (bh_view h))(b \<mapsto> n),
       saved := (if bb_dirty c \<or> disk_nd (bh_file h) b = Some (disk_node n) then insert b (saved (bh_view h)) else saved (bh_view h) - {b})\<rparr>)"
      by (auto simp: bh_view_def il assms(2) fun_eq_iff split: option.splits)
    show "saved (bh_view (update_held ?f b h)) = saved ((bh_view h)\<lparr>nd := (nd (bh_view h))(b \<mapsto> n),
       saved := (if bb_dirty c \<or> disk_nd (bh_file h) b = Some (disk_node n) then insert b (saved (bh_view h)) else saved (bh_view h) - {b})\<rparr>)"
      by (auto simp: bh_view_def il assms(2) split: if_splits)
  qed (use v in simp_all)
qed

lemma held_entry: "b \<in> cached (bh_view h) \<Longrightarrow> \<exists>c. in_list (held h) b = Some c"
  using in_list_None [of "held h" b] by (auto simp: bh_view_def)

lemma unwritten_dirty:
  assumes "bh_inv N h" "in_list (held h) b = Some c" "b \<in> unwritten (bh_view h)"
  shows "bb_dirty c"
proof -
  note i = bh_invD [OF assms(1)]
  obtain d where d: "d \<in> set (alc_list h)" "bb_bid d = b" using assms(3) by (auto simp: bh_view_def)
  then have "in_list (held h) b = Some d" using in_list_member [OF i(7), of d] by (simp add: held_def)
  then show ?thesis using assms(2) i(9) d(1) by simp
qed

lemma bh_st:
  assumes "bh_inv N h" "b \<in> cached (bh_view h)" "node_ok N n"
  shows "bh_inv N (btreeblk_store h b n) \<and> bh_ext h (btreeblk_store h b n) \<and>
      (\<exists>S. saved (bh_view h) - ({b} - unwritten (bh_view h)) \<subseteq> S \<and>
        bh_view (btreeblk_store h b n) = (bh_view h)\<lparr>nd := (nd (bh_view h))(b \<mapsto> n), saved := S\<rparr>)"
proof -
  obtain c where c: "in_list (held h) b = Some c" using held_entry [OF assms(2)] by blast
  note s = store_view [OF assms(1) c assms(3)] and u = unwritten_dirty [OF assms(1) c]
  show ?thesis using s(1,2) u by (intro conjI exI conjI) (auto simp: s(3))
qed

section \<open>The other operations\<close>

lemma stale_file:
  assumes "growing f" "f' = filemgr_add_stale_block f pos len"
  shows "growing f'" "grows f f'" "fm_blocksize f' = fm_blocksize f" "fm_pos f' = fm_pos f" "disk_nd f' b = disk_nd f b" "fresh f' b = fresh f b" "block f' b = block f b"
proof -
  obtain sl where f': "f' = f\<lparr>fm_stale_list := sl\<rparr>"
  proof (cases "fm_stale_list f")
    case None
    then show ?thesis by (intro that [of "fm_stale_list f"]) (simp add: assms(2) filemgr_add_stale_block_def)
  next
    case (Some items)
    let ?sl = "if items \<noteq> [] \<and> fst (last items) + snd (last items) = pos
      then Some (butlast items @ [(fst (last items), (snd (last items) + len) mod 2 ^ 32)]) else Some (items @ [(pos, len mod 2 ^ 32)])"
    show ?thesis using Some by (intro that [of ?sl]) (simp add: assms(2) filemgr_add_stale_block_def)
  qed
  show s: "growing f'" "fm_blocksize f' = fm_blocksize f" "fm_pos f' = fm_pos f" "fresh f' b = fresh f b" "block f' b = block f b"
    using assms(1) by (simp_all add: f' growing_def file_ok_def fresh_def block_def)
  then show "grows f f'" by (simp add: grows_def f' docblk_size_def sb_get_bmp_revnum_def)
  show "disk_nd f' b = disk_nd f b"
    using disk_nd_cong [OF assms(1) s(1,2), of b] s(2,3,5) disk_nd_outside [of f b] disk_nd_outside [of f' b]
    by (cases "b * fm_blocksize f < fm_pos f") simp_all
qed

text \<open>Only the counters and the list of stale regions change.\<close>

lemma stale_view:
  assumes "bh_inv N h" "h' = h\<lparr>nlivenodes := k, bh_file := filemgr_add_stale_block (bh_file h) pos len\<rparr>"
  shows "bh_inv N h'" "bh_ext h h'" "bh_view h' = bh_view h"
proof -
  note i = bh_invD [OF assms(1)] and f = stale_file [OF bh_invD(1) [OF assms(1)] refl, of pos len]
  have hd: "held h' = held h" "alc_list h' = alc_list h" "blockpool h' = blockpool h" "bh_nodesize h' = bh_nodesize h"
    "bh_file h' = filemgr_add_stale_block (bh_file h) pos len" by (simp_all add: held_def assms(2))
  show "bh_inv N h'" using assms(1) f(1,3,4,6) unfolding bh_inv_def hd by (simp add: block_ok_def)
  show "bh_ext h h'" using f(2,7) by (simp add: bh_ext_def hd)
  show "bh_view h' = bh_view h" unfolding bh_view_def hd using f(3-6) by (auto simp: fun_eq_iff split: option.splits)
qed

lemma bh_mv:
  assumes "bh_inv N h" "nd (bh_view h) b = Some n" "node_ok N n" "0 < spare (bh_view h)"
  shows "\<exists>b' h'. btreeblk_move h b = Some (b', n, h') \<and> bh_inv N h' \<and> bh_ext h h' \<and> nd (bh_view h) b' = None \<and>
    bh_view h' = \<lparr>nd = (nd (bh_view h))(b' \<mapsto> n), saved = insert b' (saved (bh_view h)), writable = insert b' (writable (bh_view h)),
      unwritten = insert b' (unwritten (bh_view h)), cached = insert b' (insert b (cached (bh_view h))), spare = spare (bh_view h) - 1\<rparr>"
proof -
  obtain h1 where r: "btreeblk_read h b = Some (n, h1)" "bh_inv N h1" "bh_ext h h1" "bh_view h1 = (bh_view h)\<lparr>cached := insert b (cached (bh_view h))\<rparr>"
    using bh_rd [OF assms(1,2)] by blast
  obtain b' m h2 where a: "btreeblk_alloc h1 = Some (b', m, h2)" "bh_inv N h2" "bh_ext h1 h2" "nd (bh_view h1) b' = None"
    "bh_view h2 = \<lparr>nd = (nd (bh_view h1))(b' \<mapsto> m), saved = insert b' (saved (bh_view h1)), writable = insert b' (writable (bh_view h1)),
      unwritten = insert b' (unwritten (bh_view h1)), cached = insert b' (cached (bh_view h1)), spare = spare (bh_view h1) - 1\<rparr>"
    using bh_al [OF r(2)] r(4) assms(4) by auto
  obtain c where c: "in_list (held h2) b' = Some c" using held_entry [of b' h2] a(5) by auto
  have dirty: "bb_dirty c" using unwritten_dirty [OF a(2) c] a(5) by simp
  note s = store_view [OF a(2) c assms(3)]
  define h3 where "h3 = btreeblk_store h2 b' n"
  define h4 where "h4 = h3\<lparr>nlivenodes := nlivenodes h2 - 1, bh_file := filemgr_add_stale_block (bh_file h3) (b * bh_nodesize h) (bh_nodesize h)\<rparr>"
  note st = stale_view [OF s(1) [folded h3_def] h4_def]
  have "btreeblk_store (h2\<lparr>nlivenodes := nlivenodes h2 - 1\<rparr>) b' n = h3\<lparr>nlivenodes := nlivenodes h2 - 1\<rparr>" by (simp add: h3_def btreeblk_store_def)
  then have "btreeblk_move h b = Some (b', n, h4)"
    using r(1) a(1) plain_bid [OF nd_bound(2) [OF assms(1,2)]] by (simp add: btreeblk_move_def h4_def Let_def)
  moreover have "bh_ext h h4" using ext_after [OF r(3) ext_after [OF a(3) ext_after [OF s(2) [folded h3_def]]]] st(2) by simp
  moreover have "bh_view h4 = \<lparr>nd = (nd (bh_view h))(b' \<mapsto> n), saved = insert b' (saved (bh_view h)), writable = insert b' (writable (bh_view h)),
      unwritten = insert b' (unwritten (bh_view h)), cached = insert b' (insert b (cached (bh_view h))), spare = spare (bh_view h) - 1\<rparr>"
    using st(3) s(3) [folded h3_def] a(5) r(4) dirty by simp
  moreover have "nd (bh_view h) b' = None" "bh_inv N h4" using a(4) r(4) st(1) by simp_all
  ultimately show ?thesis by blast
qed

lemma bh_rm:
  assumes "bh_inv N h"
  shows "bh_inv N (btreeblk_remove h b) \<and> bh_ext h (btreeblk_remove h b) \<and> bh_view (btreeblk_remove h b) = bh_view h"
  using stale_view [OF assms refl, where k = "nlivenodes h - 1" and pos = "subbid2bid b * bh_nodesize h" and len = "bh_nodesize h"] assms ext_same [of h]
  by (simp add: btreeblk_remove_def)

lemma bh_dt:
  assumes "bh_inv N h" "b \<in> cached (bh_view h)" "b \<in> writable (bh_view h)"
  shows "bh_inv N (btreeblk_set_dirty h b) \<and> bh_ext h (btreeblk_set_dirty h b) \<and>
    bh_view (btreeblk_set_dirty h b) = (bh_view h)\<lparr>saved := insert b (saved (bh_view h))\<rparr>"
proof -
  let ?f = "\<lambda>c. c\<lparr>bb_dirty := True\<rparr>"
  obtain c where c: "in_list (held h) b = Some c" using held_entry [OF assms(2)] by blast
  note i = bh_invD [OF assms(1)]
  have fr: "fresh (bh_file h) b" using assms(3) by (simp add: bh_view_def)
  have "nd (bh_view h) b = Some (bb_addr c)" using c by (simp add: bh_view_def)
  note pl = plain_bid [OF nd_bound(2) [OF assms(1) this]]
  have inv: "bh_inv N (update_held ?f b h)" using i(8) fr by (intro update_held_inv [OF assms(1)]) (auto simp: block_ok_def)
  have il: "in_list (held (update_held ?f b h)) x = (if x = b then map_option ?f (in_list (held h) b) else in_list (held h) x)" for x
    by (intro in_list_update_held) simp
  have v: "bh_view (update_held ?f b h) = (bh_view h)\<lparr>saved := insert b (saved (bh_view h))\<rparr>"
  proof (rule viewI)
    show "nd (bh_view (update_held ?f b h)) = nd ((bh_view h)\<lparr>saved := insert b (saved (bh_view h))\<rparr>)"
      by (auto simp: bh_view_def il c fun_eq_iff split: option.splits)
    show "saved (bh_view (update_held ?f b h)) = saved ((bh_view h)\<lparr>saved := insert b (saved (bh_view h))\<rparr>)" by (auto simp: bh_view_def il c)
  qed (use update_held_view [of ?f b h] in simp_all)
  show ?thesis
  proof (cases "in_list (read_list h) b")
    case None
    then have "btreeblk_set_dirty h b = h" using pl change_first_absent [OF None] by (simp add: btreeblk_set_dirty_def)
    moreover have "bb_dirty c" using None c in_list_SomeD [of "alc_list h" b c] i(9) by (auto simp: held_def in_list_append)
    then have "insert b (saved (bh_view h)) = saved (bh_view h)" using c by (auto simp: bh_view_def)
    ultimately show ?thesis using assms(1) ext_same by simp
  next
    case (Some d)
    then have "btreeblk_set_dirty h b = update_held ?f b h" using pl by (simp add: btreeblk_set_dirty_def update_held_def)
    then show ?thesis using inv v ext_same [of h] by (simp add: bh_ext_def)
  qed
qed

lemma bh_wr:
  assumes "bh_inv N h" "nd (bh_view h) b = Some n"
  shows "btreeblk_is_writable h b \<longleftrightarrow> b \<in> writable (bh_view h)"
  using plain_bid [OF nd_bound(2) [OF assms]] fresh_writable [OF bh_invD(1) [OF assms(1)]] by (simp add: btreeblk_is_writable_def bh_view_def)

interpretation bh: block_layer btreeblk_ops "bh_inv N" bh_view N bh_ext for N
proof (unfold_locales, goal_cases)
  case 1
  show ?case by (rule ext_same)
next
  case (2 h h1 h2)
  then show ?case by (rule ext_after)
next
  case (3 h b n)
  then show ?case using nd_bound(2) [of N h b n] by simp
next
  case (4 h b n)
  then show ?case by (rule nd_bound(3))
next
  case (5 h b n)
  then show ?case using bh_rd by (simp add: btreeblk_ops_def)
next
  case (6 h)
  then show ?case using bh_al [of N h] by (auto simp: btreeblk_ops_def)
next
  case (7 h b m n)
  then show ?case using bh_st by (simp add: btreeblk_ops_def)
next
  case (8 h b n)
  then show ?case using bh_mv [of N h b n] by (simp add: btreeblk_ops_def)
next
  case (9 h b)
  then show ?case using bh_rm by (simp add: btreeblk_ops_def)
next
  case (10 h b)
  then show ?case using bh_dt by (simp add: btreeblk_ops_def)
next
  case (11 h b n)
  then show ?case using bh_wr by (simp add: btreeblk_ops_def)
next
  case (12 h b)
  then show ?case by (simp add: btreeblk_ops_def btreeblk_get_size_def bh_invD(3))
next
  case (13 h)
  then show ?case using unwritten_dirty [of N h] by (auto simp: bh_view_def)
qed

section \<open>Writing back\<close>

lemma write_node:
  assumes "growing f" "fm_blocksize f = N" "block_ok N f c" "fresh f (bb_bid c)"
  shows "\<exists>f'. btreeblk_write_dirty_block f c = Some (FDB_RESULT_SUCCESS, f') \<and> grows f f' \<and> fm_pos f' = fm_pos f \<and>
    disk_nd f' (bb_bid c) = Some (disk_node (bb_addr c)) \<and> (\<forall>b. b \<noteq> bb_bid c \<longrightarrow> b * N < fm_pos f \<longrightarrow> block f' b = block f b)"
proof -
  let ?b = "bb_bid c" and ?src = "btreeblk_encode (bb_addr c)"
  let ?f' = "Docio_Read.put f ?b 0 (stored_image ?src)"
  have n: "32 \<le> N" "length ?src = N" "payload (bb_addr c) \<noteq> []" "last (payload (bb_addr c)) = BLK_MARKER_BNODE" "?b * N < fm_pos f"
    using assms(1-3) growing_size [OF assms(1)] by (auto simp: block_ok_def length_encode sizeof_bnode_def)
  have ls: "length (stored_image ?src) = N" using n(1,2) by simp
  have crc: "bnode_with_crc f ?src = Some (stored_image ?src)" using assms(1,2) n(2) by (intro bnode_with_crc_image) (auto simp: growing_def)
  have "write_permitted f ?b (?b * fm_blocksize f + 0)"
    using assms(1,4) by (auto simp: write_permitted_def growing_def fresh_def split: option.splits)
  moreover have "snd (ops_pwrite (fm_ops f) (fm_data f) (stored_image ?src) (?b * fm_blocksize f + 0)) = int (length (stored_image ?src))"
    using growing_file [OF assms(1)] n(5) ls assms(2) by (intro block_write(4)) auto
  ultimately have w: "btreeblk_write_dirty_block f c = Some (FDB_RESULT_SUCCESS, ?f')"
    using crc n(2) ls assms(2)
    by (auto simp: btreeblk_write_dirty_block_def filemgr_write_def filemgr_write_offset_def Docio_Read.put_def Let_def split: prod.splits)
  have off: "0 + length (stored_image ?src) \<le> fm_blocksize f" using ls assms(2) by simp
  note p = put_spec [OF assms(1,4) off]
  have g: "growing ?f'" "fm_blocksize ?f' = N" using p(1) assms(2) by (auto simp: grows_def)
  have bl: "block ?f' ?b = stored_image ?src"
    using p(2) ls length_block [OF growing_file [OF assms(1)], of ?b] n(5) assms(2) by (simp add: mem_write_def)
  have "filemgr_read ?f' ?b True = Inr (read_image ?src)"
    using read_inside [OF g(1), of ?b] g(2) p(4) n(1,2,5) crc_check_image [of ?src ?f'] bl by simp
  then have "disk_nd ?f' ?b = Some (disk_node (bb_addr c))" using encode_decode [OF n(3,4)] by (simp add: disk_nd_def)
  then show ?thesis using w p(1,3,4) assms(2) by auto
qed

text \<open>
  The blocks keep their contents and stay safe, as far as the header fields of their nodes fit the
  format.
\<close>

definition safe_kept :: "btreeblk_handle \<Rightarrow> btreeblk_handle \<Rightarrow> bool" where
  "safe_kept h h' \<longleftrightarrow> (\<forall>b n. b \<in> saved (bh_view h) \<longrightarrow> nd (bh_view h) b = Some n \<longrightarrow> disk_node n = n \<longrightarrow>
     nd (bh_view h') b = Some n \<and> b \<in> saved (bh_view h'))"

lemma safe_kept_trans: "safe_kept h h1 \<Longrightarrow> safe_kept h1 h2 \<Longrightarrow> safe_kept h h2"
  unfolding safe_kept_def by blast

lemma safe_kept_refl: "safe_kept h h"
  by (simp add: safe_kept_def)

lemma in_list_eqI:
  assumes "distinct (map bb_bid xs)" "distinct (map bb_bid ys)" "\<And>c. bb_bid c = b \<Longrightarrow> c \<in> set xs \<longleftrightarrow> c \<in> set ys"
  shows "in_list xs b = in_list ys b"
proof (cases "in_list xs b")
  case None
  then have "in_list ys b = None" using assms(3) unfolding in_list_None by auto
  then show ?thesis using None by simp
next
  case (Some c)
  then have "c \<in> set ys" "bb_bid c = b" using in_list_SomeD [OF Some] assms(3) by auto
  then show ?thesis using Some in_list_member [OF assms(2)] by auto
qed

text \<open>Replacing a held block by a clean one, or by none, once it is in the file.\<close>

lemma written_back:
  assumes inv: "bh_inv N h" "c \<in> set (held h)"
    and fl: "grows (bh_file h) (bh_file h')" "fm_pos (bh_file h') = fm_pos (bh_file h)"
      "\<And>b. b \<noteq> bb_bid c \<or> \<not> fresh (bh_file h) b \<Longrightarrow> b * N < fm_pos (bh_file h) \<Longrightarrow> block (bh_file h') b = block (bh_file h) b"
      "bb_bid c \<in> saved (bh_view h) \<Longrightarrow> disk_nd (bh_file h') (bb_bid c) = Some (disk_node (bb_addr c))"
    and lists: "distinct (map bb_bid (held h'))" "set (held h') \<subseteq> insert (c\<lparr>bb_dirty := False, bb_age := a\<rparr>) (set (held h) - {c})"
      "set (held h) - {c} \<subseteq> set (held h')" "set (alc_list h') \<subseteq> set (alc_list h)" "bh_nodesize h' = bh_nodesize h"
      "\<And>n. n \<in> set (blockpool h') \<Longrightarrow> n \<in> set (blockpool h) \<or> n = bb_addr c"
  shows "bh_inv N h'" "bh_ext h h'" "safe_kept h h'"
proof -
  note i = bh_invD [OF inv(1)]
  let ?f = "bh_file h" and ?f' = "bh_file h'" and ?c = "c\<lparr>bb_dirty := False, bb_age := a\<rparr>"
  have f': "growing ?f'" "fm_blocksize ?f' = N" "fm_last_commit ?f' = fm_last_commit ?f" using fl(1) i(2) by (auto simp: grows_def)
  have fr: "fresh ?f' b = fresh ?f b" for b using f'(2,3) i(2) fl(2) by (simp add: fresh_def)
  have "block_ok N ?f' d" if "d \<in> set (held h')" for d
    using that lists(2) i(8) [of d] i(8) [OF inv(2)] fl(2) fr by (auto simp: block_ok_def)
  moreover have "sizeof_bnode + length (payload n) = N" if "n \<in> set (blockpool h')" for n
    using lists(6) [OF that] i(8) [OF inv(2)] i(10) by (auto simp: block_ok_def)
  ultimately show "bh_inv N h'" using f'(1,2) i(3,4,6,9) lists(1,4,5) fl(2) by (auto simp: bh_inv_def)
  show "bh_ext h h'" unfolding bh_ext_def
  proof (intro impI conjI allI fl(1))
    fix b assume b: "b * fm_blocksize ?f < fm_last_commit ?f"
    then have "\<not> fresh ?f b" "b * N < fm_pos ?f" using i(1,2) by (auto simp: fresh_def growing_def)
    then show "block ?f' b = block ?f b" using fl(3) by blast
  qed
  have other: "in_list (held h') b = in_list (held h) b" "disk_nd ?f' b = disk_nd ?f b" if "b \<noteq> bb_bid c" for b
  proof -
    have "d \<in> set (held h') \<longleftrightarrow> d \<in> set (held h)" if "bb_bid d = b" for d
      using that \<open>b \<noteq> bb_bid c\<close> lists(2,3) by auto
    then show "in_list (held h') b = in_list (held h) b" by (rule in_list_eqI [OF lists(1) i(7)])
    show "disk_nd ?f' b = disk_nd ?f b"
      using disk_nd_cong [OF i(1) f'(1), of b] fl(2,3) that f'(2) i(2) disk_nd_outside [of ?f b] disk_nd_outside [of ?f' b]
      by (cases "b * N < fm_pos ?f") simp_all
  qed
  have ilc: "in_list (held h) (bb_bid c) = Some c" using in_list_member [OF i(7) inv(2)] .
  have new: "d = ?c" if dd: "in_list (held h') (bb_bid c) = Some d" for d
  proof -
    have d: "d \<in> set (held h')" "bb_bid d = bb_bid c" using in_list_SomeD [OF dd] by simp_all
    from subsetD [OF lists(2) d(1)] show ?thesis
    proof
      assume "d \<in> set (held h) - {c}"
      then have "in_list (held h) (bb_bid d) = Some d" "d \<noteq> c" using in_list_member [OF i(7)] by simp_all
      then show ?thesis using ilc d(2) by simp
    qed
  qed
  show "safe_kept h h'" unfolding safe_kept_def
  proof (intro allI impI)
    fix b n assume b: "b \<in> saved (bh_view h)" "nd (bh_view h) b = Some n" "disk_node n = n"
    show "nd (bh_view h') b = Some n \<and> b \<in> saved (bh_view h')"
    proof (cases "b = bb_bid c")
      case True
      then have "n = bb_addr c" using b(2) ilc by (simp add: bh_view_def)
      moreover have "disk_nd ?f' b = Some (disk_node (bb_addr c))" using fl(4) b(1) True by simp
      ultimately show ?thesis using b(3) True new by (cases "in_list (held h') (bb_bid c)") (auto simp: bh_view_def)
    next
      case False
      then show ?thesis using b other [OF False] by (auto simp: bh_view_def split: option.splits)
    qed
  qed
qed

lemma write_allocated_spec:
  "bh_inv N h \<Longrightarrow> alc_list h = bs \<Longrightarrow>
   \<exists>h'. write_allocated h bs = Some (FDB_RESULT_SUCCESS, h') \<and> bh_inv N h' \<and> bh_ext h h' \<and> safe_kept h h' \<and> alc_list h' = [] \<and>
     fm_pos (bh_file h') = fm_pos (bh_file h)"
proof (induction bs arbitrary: h)
  case Nil
  then show ?case using ext_same safe_kept_refl by simp
next
  case (Cons c bs)
  note i = bh_invD [OF Cons.prems(1)]
  have c: "c \<in> set (held h)" "block_ok N (bh_file h) c" "fresh (bh_file h) (bb_bid c)"
    using i(8,9) Cons.prems(2) by (auto simp: held_def block_ok_def)
  obtain f' where f': "btreeblk_write_dirty_block (bh_file h) c = Some (FDB_RESULT_SUCCESS, f')" "grows (bh_file h) f'" "fm_pos f' = fm_pos (bh_file h)"
    "disk_nd f' (bb_bid c) = Some (disk_node (bb_addr c))" "\<forall>b. b \<noteq> bb_bid c \<longrightarrow> b * N < fm_pos (bh_file h) \<longrightarrow> block f' b = block (bh_file h) b"
    using write_node [OF i(1,2) c(2,3)] by blast
  define h1 where "h1 = h\<lparr>bh_file := f', alc_list := bs, read_list := c\<lparr>bb_dirty := False\<rparr> # read_list h\<rparr>"
  have hd: "held h1 = c\<lparr>bb_dirty := False\<rparr> # read_list h @ bs" "held h = read_list h @ c # bs" using Cons.prems(2) by (simp_all add: held_def h1_def)
  have cn: "c \<notin> set (read_list h @ bs)" using i(7) unfolding hd(2) by auto
  have h1: "bh_inv N h1" "bh_ext h h1" "safe_kept h h1"
    using written_back [OF Cons.prems(1) c(1), of h1 "bb_age c"] f' c(3) i(7) cn Cons.prems(2) unfolding hd
    by (auto simp: h1_def)
  obtain h' where h': "write_allocated h1 bs = Some (FDB_RESULT_SUCCESS, h')" "bh_inv N h'" "bh_ext h1 h'" "safe_kept h1 h'" "alc_list h' = []"
    "fm_pos (bh_file h') = fm_pos (bh_file h)" using f'(3) Cons.IH [OF h1(1)] by (auto simp: h1_def)
  moreover have "write_allocated h (c # bs) = write_allocated h1 bs"
    using fresh_writable [OF i(1)] c(3) f'(1) by (simp add: h1_def Let_def)
  ultimately show ?case using ext_after [OF h1(2)] safe_kept_trans [OF h1(3)] by auto
qed

lemma write_read_spec:
  assumes "bh_inv N (h\<lparr>read_list := passed @ bs\<rparr>)" "alc_list h = []" "\<forall>c \<in> set passed. \<not> bb_dirty c"
  shows "\<exists>h'. write_read h passed bs = Some (FDB_RESULT_SUCCESS, h') \<and> bh_inv N h' \<and> bh_ext (h\<lparr>read_list := passed @ bs\<rparr>) h' \<and>
    safe_kept (h\<lparr>read_list := passed @ bs\<rparr>) h' \<and> alc_list h' = [] \<and> (\<forall>c \<in> set (read_list h'). \<not> bb_dirty c) \<and>
    fm_pos (bh_file h') = fm_pos (bh_file h)"
  using assms
proof (induction bs arbitrary: h passed)
  case Nil
  then show ?case using ext_same safe_kept_refl by simp
next
  case (Cons c bs)
  let ?h = "h\<lparr>read_list := passed @ c # bs\<rparr>" and ?f = "bh_file h"
  note i = bh_invD [OF Cons.prems(1)]
  have hd: "held ?h = passed @ c # bs" using Cons.prems(2) by (simp add: held_def)
  have c: "c \<in> set (held ?h)" "block_ok N ?f c" using i(8) [of c] by (simp_all add: held_def)
  have "\<exists>f'. (if bb_dirty c then btreeblk_write_dirty_block ?f c else Some (FDB_RESULT_SUCCESS, ?f)) = Some (FDB_RESULT_SUCCESS, f') \<and>
    grows ?f f' \<and> fm_pos f' = fm_pos ?f \<and> (bb_bid c \<in> saved (bh_view ?h) \<longrightarrow> disk_nd f' (bb_bid c) = Some (disk_node (bb_addr c))) \<and>
    (\<forall>b. b \<noteq> bb_bid c \<or> \<not> fresh ?f b \<longrightarrow> b * N < fm_pos ?f \<longrightarrow> block f' b = block ?f b)"
  proof (cases "bb_dirty c")
    case True
    then have "fresh ?f (bb_bid c)" using c(2) by (simp add: block_ok_def)
    then show ?thesis using write_node [OF _ _ c(2)] i(1,2) True by auto
  next
    case False
    have "in_list (held ?h) (bb_bid c) = Some c" by (rule in_list_member [OF i(7) c(1)])
    then show ?thesis using False grows_refl i(1) by (auto simp: bh_view_def)
  qed
  then obtain f' where f': "(if bb_dirty c then btreeblk_write_dirty_block ?f c else Some (FDB_RESULT_SUCCESS, ?f)) = Some (FDB_RESULT_SUCCESS, f')"
    "grows ?f f'" "fm_pos f' = fm_pos ?f" "bb_bid c \<in> saved (bh_view ?h) \<longrightarrow> disk_nd f' (bb_bid c) = Some (disk_node (bb_addr c))"
    "\<forall>b. b \<noteq> bb_bid c \<or> \<not> fresh ?f b \<longrightarrow> b * N < fm_pos ?f \<longrightarrow> block f' b = block ?f b" by blast
  define old where "old \<longleftrightarrow> bb_age c \<ge> BTREEBLK_AGE_LIMIT"
  define c' where "c' = c\<lparr>bb_dirty := False, bb_age := bb_age c + 1\<rparr>"
  define h1 where "h1 = (if old then btreeblk_free_aligned_block (h\<lparr>bh_file := f'\<rparr>) (bb_addr c) else h\<lparr>bh_file := f'\<rparr>)"
  define passed' where "passed' = (if old then passed else passed @ [c'])"
  have e: "write_read h passed (c # bs) = write_read h1 passed' bs"
    using f'(1) by (simp add: h1_def passed'_def old_def c'_def Let_def)
  have fs: "alc_list h1 = []" "bh_file h1 = f'" "bh_nodesize h1 = bh_nodesize h" "set (blockpool h1) \<subseteq> insert (bb_addr c) (set (blockpool h))"
    using Cons.prems(2) by (auto simp: h1_def btreeblk_free_aligned_block_def)
  let ?h1 = "h1\<lparr>read_list := passed' @ bs\<rparr>"
  have hd1: "held ?h1 = passed' @ bs" using fs(1) by (simp add: held_def)
  have dc: "distinct (map bb_bid (passed @ c # bs))" using i(7) unfolding hd .
  then have ds: "distinct (map bb_bid (held ?h1))" and cn: "c \<notin> set passed" "c \<notin> set bs" unfolding hd1 by (auto simp: passed'_def c'_def)
  have l1: "set (held ?h1) \<subseteq> insert c' (set (held ?h) - {c})" "set (held ?h) - {c} \<subseteq> set (held ?h1)"
    unfolding hd hd1 using cn by (auto simp: passed'_def)
  have l2: "grows (bh_file ?h) (bh_file ?h1)" "fm_pos (bh_file ?h1) = fm_pos (bh_file ?h)" "set (alc_list ?h1) \<subseteq> set (alc_list ?h)"
    "bh_nodesize ?h1 = bh_nodesize ?h" using f'(2,3) fs by simp_all
  have l3: "block (bh_file ?h1) b = block (bh_file ?h) b" if "b \<noteq> bb_bid c \<or> \<not> fresh (bh_file ?h) b" "b * N < fm_pos (bh_file ?h)" for b
    using f'(5) that fs(2) by simp
  have l4: "disk_nd (bh_file ?h1) (bb_bid c) = Some (disk_node (bb_addr c))" if "bb_bid c \<in> saved (bh_view ?h)"
    using f'(4) that fs(2) by simp
  have l5: "n \<in> set (blockpool ?h) \<or> n = bb_addr c" if "n \<in> set (blockpool ?h1)" for n using that fs(4) by auto
  note w = written_back [OF Cons.prems(1) c(1) l2(1,2) l3 l4 ds l1 [unfolded c'_def] l2(3,4) l5]
  have "\<forall>d \<in> set passed'. \<not> bb_dirty d" using Cons.prems(3) by (simp add: passed'_def c'_def)
  then obtain h' where h': "write_read h1 passed' bs = Some (FDB_RESULT_SUCCESS, h')" "bh_inv N h'" "bh_ext ?h1 h'" "safe_kept ?h1 h'" "alc_list h' = []"
    "\<forall>c \<in> set (read_list h'). \<not> bb_dirty c" "fm_pos (bh_file h') = fm_pos (bh_file h1)" using Cons.IH [OF w(1) fs(1)] by blast
  then show ?case unfolding e using ext_after [OF w(2)] safe_kept_trans [OF w(3)] fs(2) f'(3) by auto
qed

lemma end_spec:
  assumes "bh_inv N h"
  shows "\<exists>h'. btreeblk_end h = Some (FDB_RESULT_SUCCESS, h') \<and> bh_inv N h' \<and> bh_ext h h' \<and> safe_kept h h' \<and> alc_list h' = [] \<and>
    (\<forall>c \<in> set (read_list h'). \<not> bb_dirty c) \<and> fm_pos (bh_file h') = fm_pos (bh_file h)"
proof -
  obtain h1 where h1: "write_allocated h (alc_list h) = Some (FDB_RESULT_SUCCESS, h1)" "bh_inv N h1" "bh_ext h h1" "safe_kept h h1" "alc_list h1 = []"
    "fm_pos (bh_file h1) = fm_pos (bh_file h)" using write_allocated_spec [OF assms refl] by blast
  obtain h' where h': "write_read h1 [] (read_list h1) = Some (FDB_RESULT_SUCCESS, h')" "bh_inv N h'" "bh_ext h1 h'" "safe_kept h1 h'" "alc_list h' = []"
    "\<forall>c \<in> set (read_list h'). \<not> bb_dirty c" "fm_pos (bh_file h') = fm_pos (bh_file h1)"
    using write_read_spec [of N "[]" "read_list h1" h1] h1(2,5) by auto
  have "btreeblk_end h = Some (FDB_RESULT_SUCCESS, h')" using h1(1) h'(1,5) by (simp add: btreeblk_end_def btreeblk_operation_end_def)
  then show ?thesis using h' h1(6) ext_after [OF h1(3)] safe_kept_trans [OF h1(4)] by auto
qed

text \<open>After writing back, a new handle on the file shows the safe blocks.\<close>

lemma reopen_spec:
  assumes "bh_inv N h" "alc_list h = []" "\<forall>c \<in> set (read_list h). \<not> bb_dirty c"
  shows "bh_inv N (btreeblk_init (bh_file h) N)" "safe_kept h (btreeblk_init (bh_file h) N)" "spare (bh_view (btreeblk_init (bh_file h) N)) = spare (bh_view h)"
proof -
  let ?h = "btreeblk_init (bh_file h) N"
  show "bh_inv N ?h" using assms(1) by (simp add: bh_inv_def btreeblk_init_def held_def)
  show "spare (bh_view ?h) = spare (bh_view h)" by (simp add: bh_view_def btreeblk_init_def)
  have "\<not> bb_dirty c" if "in_list (held h) b = Some c" for b c
    using in_list_SomeD [OF that] assms(2,3) by (auto simp: held_def)
  then show "safe_kept h ?h" unfolding safe_kept_def by (auto simp: bh_view_def btreeblk_init_def held_def split: option.splits)
qed

end
