(* ===== verification/Btree_Refine.thy ===== *)
theory Btree_Refine
  imports Btree_Open Btree_Store
begin

text \<open>
  The B+-tree over its block layer refines a map from keys to values: creating a tree gives the empty
  map, inserting updates the map, finding looks it up, and what was written back is there when the
  file is opened again. Everything that was committed stays readable from its old root.
\<close>

section \<open>Configurations\<close>

definition kv_table :: "kv_ops \<Rightarrow> nat \<Rightarrow> bool" where
  "kv_table ops K \<longleftrightarrow> ops = kv_ops_ku64_vu64 \<and> K = 8 \<or> ops = kv_ops_ku32_vu64 \<and> K = 4 \<or> ops = btree_kv_get_kb64_vb64 \<and> K = 8 \<or>
     ops = btree_kv_get_kb32_vb64 \<and> K = 4 \<or> ops = btree_kv_get_kbn_vb64 K"

definition btree_config :: "kv_ops \<Rightarrow> nat \<Rightarrow> nat \<Rightarrow> bool" where
  "btree_config ops K N \<longleftrightarrow> kv_table ops K \<and> K < 256 \<and> sizeof_bnode + 2 * (K + 8) < N"

lemma kv_table_layer: "kv_table ops K \<Longrightarrow> kv_layer ops K 8"
  unfolding kv_table_def
  using ku64_vu64.kv_layer_axioms ku32_vu64.kv_layer_axioms kb64_vb64.kv_layer_axioms kb32_vb64.kv_layer_axioms kbn_vb64.kv_layer_axioms by blast

lemma layers:
  assumes "btree_config ops K N"
  shows "tree_layers ops K 8 btreeblk_ops (bh_inv N) bh_view N bh_ext"
proof -
  have "kv_layer ops K 8" using kv_table_layer assms by (simp add: btree_config_def)
  moreover have "tree_layers_axioms K 8 N" using assms by unfold_locales (simp_all add: btree_config_def)
  ultimately show ?thesis using bh.block_layer_axioms by (intro tree_layers.intro)
qed

text \<open>The tree of sequence numbers has eight-byte keys, in blocks of the default size.\<close>

interpretation seqtree: tree_layers btree_kv_get_kb64_vb64 8 8 btreeblk_ops "bh_inv 4096" bh_view 4096 bh_ext
  by (rule layers) (simp add: btree_config_def kv_table_def sizeof_bnode_def)

section \<open>The map of a tree\<close>

abbreviation holds_tree :: "kv_ops \<Rightarrow> nat \<Rightarrow> nat \<Rightarrow> btreeblk_handle btree \<Rightarrow> tree \<Rightarrow> bool" where
  "holds_tree ops K N \<equiv> tree_layers.tree_at ops K 8 btreeblk_ops (bh_inv N) bh_view N"

definition stores :: "kv_ops \<Rightarrow> nat \<Rightarrow> nat \<Rightarrow> btreeblk_handle btree \<Rightarrow> (buf \<rightharpoonup> buf) \<Rightarrow> bool" where
  "stores ops K N bt m \<longleftrightarrow> btree_config ops K N \<and> (\<exists>t. holds_tree ops K N bt t \<and> m = map_of (entries t))"

text \<open>The block numbers that can still be given out.\<close>

definition free_bids :: "filemgr \<Rightarrow> nat" where
  "free_bids f = 2 ^ 48 - 1 - fm_pos f div fm_blocksize f"

abbreviation bt_file :: "btreeblk_handle btree \<Rightarrow> filemgr" where "bt_file bt \<equiv> bh_file (bt_handle bt)"

lemma spare_free: "spare (bh_view h) = free_bids (bh_file h)"
  by (simp add: bh_view_def free_bids_def)

definition meta_data :: "btreeblk_handle btree \<Rightarrow> buf option" where
  "meta_data bt = map_option fst (btree_read_meta bt)"

lemma meta_data_root:
  assumes "btree_config ops K N" "holds_tree ops K N bt t"
  shows "meta_data bt = tree_layers.root_meta bh_view bt"
  using tree_layers.read_root_meta [OF layers [OF assms(1)] assms(2)] by (auto simp: meta_data_def)

text \<open>The outcome of an operation that uses up to \<open>k\<close> new blocks.\<close>

definition advanced :: "btreeblk_handle btree \<Rightarrow> nat \<Rightarrow> btreeblk_handle btree \<Rightarrow> bool" where
  "advanced bt k bt' \<longleftrightarrow> bh_ext (bt_handle bt) (bt_handle bt') \<and> free_bids (bt_file bt) \<le> free_bids (bt_file bt') + k \<and> meta_data bt' = meta_data bt"

lemma advanced_trans: "advanced bt j bt1 \<Longrightarrow> advanced bt1 k bt2 \<Longrightarrow> advanced bt (j + k) bt2"
  unfolding advanced_def using ext_after by auto

lemma stores_find:
  assumes "stores ops K N bt m" "length key = K"
  shows "\<exists>bt'. btree_find bt key = Some (if m key = None then BTREE_RESULT_FAIL else BTREE_RESULT_SUCCESS, m key, bt') \<and>
    stores ops K N bt' m \<and> advanced bt 0 bt' \<and> bt_height bt' = bt_height bt \<and> bt_root_bid bt' = bt_root_bid bt"
proof -
  obtain t where c: "btree_config ops K N" and t: "holds_tree ops K N bt t" "m = map_of (entries t)"
    using assms(1) by (auto simp: stores_def)
  note L = layers [OF c]
  obtain h' where h': "btree_find bt key = Some (if m key = None then BTREE_RESULT_FAIL else BTREE_RESULT_SUCCESS, m key, bt\<lparr>bt_handle := h'\<rparr>)"
    "tree_layers.reads (bh_inv N) bh_view bh_ext (bt_handle bt) h'"
    using tree_layers.find_spec [OF L t(1) assms(2)] unfolding t(2) by blast
  note r = tree_layers.tree_at_reads [OF L t(1) h'(2)]
  have "bh_ext (bt_handle bt) h'" using h'(2) unfolding tree_layers.reads_def [OF L] by blast
  then have "advanced bt 0 (bt\<lparr>bt_handle := h'\<rparr>)"
    using r(2,3) meta_data_root [OF c t(1)] meta_data_root [OF c r(1)] by (simp add: advanced_def spare_free)
  moreover have "stores ops K N (bt\<lparr>bt_handle := h'\<rparr>) m" using r(1) c t(2) by (auto simp: stores_def)
  ultimately show ?thesis using h'(1) by auto
qed

lemma stores_insert:
  assumes "stores ops K N bt m" "length key = K" "length val = 8" "2 * bt_height bt + 2 \<le> free_bids (bt_file bt)"
  shows "\<exists>bt'. btree_insert bt key val = Some (if key \<in> dom m then BTREE_RESULT_UPDATE else BTREE_RESULT_SUCCESS, bt') \<and>
    stores ops K N bt' (m(key \<mapsto> val)) \<and> advanced bt (2 * bt_height bt + 2) bt' \<and> bt_height bt' \<le> Suc (bt_height bt)"
proof -
  obtain t where c: "btree_config ops K N" and t: "holds_tree ops K N bt t" "m = map_of (entries t)"
    using assms(1) by (auto simp: stores_def)
  note L = layers [OF c]
  have dm: "key \<in> dom m \<longleftrightarrow> key \<in> fst ` set (entries t)" by (simp add: t(2) dom_map_of_conv_image_fst)
  obtain bt' t' where i: "btree_insert bt key val = Some (if key \<in> dom m then BTREE_RESULT_UPDATE else BTREE_RESULT_SUCCESS, bt')"
    "tree_layers.inserted ops K 8 btreeblk_ops (bh_inv N) bh_view N bh_ext bt t key val (2 * bt_height bt + 2) bt' t'"
    using tree_layers.insert_spec [OF L t(1) assms(2,3)] assms(4) unfolding spare_free dm by blast
  note d = i(2) [unfolded tree_layers.inserted_def [OF L]]
  from d have t': "holds_tree ops K N bt' t'" "entries t' = Btree_Node.put (kv_cmp ops) key val (entries t)" by blast+
  have so: "asc (kv_cmp ops) (entries t)" "sized K 8 (entries t)"
    using tree_layers.tree_atD(5) [OF L t(1)] unfolding tree_layers.sorted_tree_def [OF L] by blast+
  have "kv_layer ops K 8" using c kv_table_layer by (simp add: btree_config_def)
  then have "map_of (entries t') = m(key \<mapsto> val)"
    using key_order.put_map [OF kv_layer.axioms(1), of ops K 8 "entries t" key val] so sized_keyed [of K 8 "entries t"] assms(2) by (simp add: t(2) t'(2))
  then have "stores ops K N bt' (m(key \<mapsto> val))" using c t'(1) by (auto simp: stores_def)
  moreover have "bt_height bt' \<le> Suc (bt_height bt)" using d by auto
  moreover have ev: "tree_layers.evolves (bh_inv N) bh_view bh_ext (bt_handle bt) (set (bids t)) (bt_handle bt') (set (bids t')) (2 * bt_height bt + 2)"
    using d by blast
  have "advanced bt (2 * bt_height bt + 2) bt'"
    using d tree_layers.evolvesD(2) [OF L ev] tree_layers.evolvesD(8) [OF L ev] meta_data_root [OF c t(1)] meta_data_root [OF c t'(1)]
    by (simp add: advanced_def spare_free)
  ultimately show ?thesis using i(1) by blast
qed

text \<open>Creating a tree, with or without metadata.\<close>

definition meta_room :: "nat \<Rightarrow> nat \<Rightarrow> buf option \<Rightarrow> bool" where
  "meta_room K N meta \<longleftrightarrow> (case meta of None \<Rightarrow> True | Some data \<Rightarrow> 0 < length data \<and> length data < 2 ^ 16 \<and>
     sizeof_bnode + sizeof_metasize + metasize_align (length data) + 2 * (K + 8) < N)"

lemma stores_init:
  assumes "btree_config ops K N" "bh_inv N h" "0 < free_bids (bh_file h)" "flags AND BNODE_MASK_METADATA = 0" "meta_room K N meta"
  shows "\<exists>bt. btree_init h btreeblk_ops ops N K 8 flags meta = Some (BTREE_RESULT_SUCCESS, bt) \<and> stores ops K N bt Map.empty \<and>
    meta_data bt = Some (case meta of None \<Rightarrow> [] | Some data \<Rightarrow> data) \<and> bt_height bt = 1 \<and>
    bh_ext h (bt_handle bt) \<and> free_bids (bh_file h) \<le> free_bids (bt_file bt) + 1"
proof -
  note L = layers [OF assms(1)]
  have "tree_layers.meta_fits K 8 N meta" using assms(5) unfolding meta_room_def tree_layers.meta_fits_def [OF L] .
  then obtain bt b where i: "btree_init h btreeblk_ops ops N K 8 flags meta = Some (BTREE_RESULT_SUCCESS, bt)" "holds_tree ops K N bt (Leaf b [])"
    "tree_layers.root_meta bh_view bt = Some (case meta of None \<Rightarrow> [] | Some data \<Rightarrow> data)"
    "tree_layers.evolves (bh_inv N) bh_view bh_ext h {} (bt_handle bt) {b} 1" "bt_height bt = 1"
    using tree_layers.init_spec [OF L assms(2) _ assms(4)] assms(3) unfolding spare_free by blast
  moreover have "stores ops K N bt Map.empty" using assms(1) i(2) unfolding stores_def by (intro conjI exI [of _ "Leaf b []"]) simp_all
  ultimately show ?thesis
    using meta_data_root [OF assms(1) i(2)] tree_layers.evolvesD(2,8) [OF L i(4)] by (simp add: spare_free)
qed

text \<open>A series of insertions.\<close>

fun insert_all :: "'h btree \<Rightarrow> (buf \<times> buf) list \<Rightarrow> 'h btree option" where
  "insert_all bt [] = Some bt"
| "insert_all bt ((k, v) # kvs) = do { (_, bt1) \<leftarrow> btree_insert bt k v; insert_all bt1 kvs }"

lemma stores_insert_all:
  assumes "stores ops K N bt m" "sized K 8 kvs" "2 * length kvs * (bt_height bt + length kvs) \<le> free_bids (bt_file bt)"
  shows "\<exists>bt'. insert_all bt kvs = Some bt' \<and> stores ops K N bt' (m ++ map_of (rev kvs)) \<and>
    advanced bt (2 * length kvs * (bt_height bt + length kvs)) bt' \<and> bt_height bt' \<le> bt_height bt + length kvs"
  using assms
proof (induction kvs arbitrary: bt m)
  case Nil
  then show ?case by (simp add: advanced_def ext_same)
next
  case (Cons e kvs)
  obtain k v where e: "e = (k, v)" by (cases e)
  let ?n = "length kvs" and ?h = "bt_height bt"
  have n: "2 * length (e # kvs) * (?h + length (e # kvs)) = (2 * ?h + 2) + 2 * ?n + 2 * ?n * (Suc ?h + ?n)" by (simp add: algebra_simps)
  have kv: "length k = K" "length v = 8" "2 * ?h + 2 \<le> free_bids (bt_file bt)" using Cons.prems(2,3) n by (simp_all add: e)
  obtain r bt1 where i: "btree_insert bt k v = Some (r, bt1)" "stores ops K N bt1 (m(k \<mapsto> v))" "advanced bt (2 * ?h + 2) bt1" "bt_height bt1 \<le> Suc ?h"
    using stores_insert [OF Cons.prems(1) kv] by blast
  have "2 * ?n * (bt_height bt1 + ?n) \<le> 2 * ?n * (Suc ?h + ?n)" using i(4) by (intro mult_le_mono2) simp
  then have sp: "2 * ?n * (bt_height bt1 + ?n) + 2 * ?n + (2 * ?h + 2) \<le> 2 * length (e # kvs) * (?h + length (e # kvs))" unfolding n by linarith
  then have "2 * ?n * (bt_height bt1 + ?n) \<le> free_bids (bt_file bt1)" using Cons.prems(3) i(3) by (simp add: advanced_def)
  moreover have sz: "sized K 8 kvs" using Cons.prems(2) by (simp add: e)
  ultimately obtain bt' where b: "insert_all bt1 kvs = Some bt'" "stores ops K N bt' (m(k \<mapsto> v) ++ map_of (rev kvs))"
    "advanced bt1 (2 * ?n * (bt_height bt1 + ?n)) bt'" "bt_height bt' \<le> bt_height bt1 + ?n"
    using Cons.IH [OF i(2) sz] by blast
  have "m(k \<mapsto> v) ++ map_of (rev kvs) = m ++ map_of (rev (e # kvs))" by (simp add: e fun_eq_iff map_add_def split: option.splits)
  then show ?case using b i(1,4) advanced_trans [OF i(3) b(3)] sp unfolding advanced_def by (auto simp: e)
qed

text \<open>Writing back and opening the file again.\<close>

lemma end_view:
  assumes "stores ops K N bt m" "bt_height bt < 2 ^ 16" "btreeblk_end (bt_handle bt) = Some (FDB_RESULT_SUCCESS, h')"
  shows "\<exists>bt'. btree_init_from_bid (btreeblk_init (bh_file h') N) btreeblk_ops ops N (bt_root_bid bt) = Some bt' \<and> stores ops K N bt' m \<and>
    meta_data bt' = meta_data bt \<and> bt_height bt' = bt_height bt"
proof -
  obtain t where c: "btree_config ops K N" and t: "holds_tree ops K N bt t" "m = map_of (entries t)"
    using assms(1) by (auto simp: stores_def)
  note L = layers [OF c] and ta = tree_layers.tree_atD [OF layers [OF c] t(1)]
  obtain e: "bh_inv N h'" "safe_kept (bt_handle bt) h'" "alc_list h' = []" "\<forall>c \<in> set (read_list h'). \<not> bb_dirty c"
    using end_spec [OF ta(2)] assms(3) by auto
  let ?h = "btreeblk_init (bh_file h') N"
  note r = reopen_spec [OF e(1,3,4)]
  have k: "safe_kept (bt_handle bt) ?h" using safe_kept_trans [OF e(2) r(2)] .
  have on: "tree_on ops K 8 N (nd (bh_view (bt_handle bt))) (bt_height bt) t"
    using ta(5) unfolding tree_layers.sorted_tree_def [OF L] by blast
  have "nd (bh_view ?h) b = nd (bh_view (bt_handle bt)) b \<and> b \<in> saved (bh_view ?h)" if b: "b \<in> set (bids t)" for b
  proof -
    obtain n es where n: "nd (bh_view (bt_handle bt)) b = Some n" "node_ok N n" "node_rep K 8 n es" "bn_level n \<le> bt_height bt"
      using tree_layers.tree_nodes [OF L on b] by blast
    have "bn_nentry n < 2 ^ 16" using tree_layers.node_bound [OF L n(2,3)] e(1) by (simp add: bh_inv_def)
    then have "disk_node n = n" using disk_node_ok [OF n(2)] n(4) assms(2) by simp
    then show ?thesis using k b ta(6) n(1) unfolding safe_kept_def by auto
  qed
  then obtain bt' where b: "btree_init_from_bid ?h btreeblk_ops ops N (bt_root_bid bt) = Some bt'" "holds_tree ops K N bt' t"
    "bt_height bt' = bt_height bt" "tree_layers.root_meta bh_view bt' = tree_layers.root_meta bh_view bt"
    using tree_layers.tree_transfer [OF L t(1) r(1)] by blast
  then have "stores ops K N bt' m" "meta_data bt' = meta_data bt" using c t meta_data_root [OF c] by (auto simp: stores_def)
  then show ?thesis using b by blast
qed

text \<open>Opening a tree in a file.\<close>

definition opens :: "kv_ops \<Rightarrow> nat \<Rightarrow> nat \<Rightarrow> filemgr \<Rightarrow> nat \<Rightarrow> (buf \<rightharpoonup> buf) \<Rightarrow> bool" where
  "opens ops K N f rb m \<longleftrightarrow>
     (\<exists>bt. btree_init_from_bid (btreeblk_init f N) btreeblk_ops ops N rb = Some bt \<and> stores ops K N bt m)"

lemma init_inv: "bh_inv N (btreeblk_init f N) \<longleftrightarrow> growing f \<and> fm_blocksize f = N \<and> N \<le> 2 ^ 16 \<and> fm_pos f div N < 2 ^ 48"
  by (simp add: bh_inv_def btreeblk_init_def held_def)

lemma init_view: "nd (bh_view (btreeblk_init f N)) = disk_nd f" "saved (bh_view (btreeblk_init f N)) = UNIV" "bh_file (btreeblk_init f N) = f"
  by (simp_all add: bh_view_def btreeblk_init_def held_def)

lemma opened_tree:
  assumes "btree_init_from_bid (btreeblk_init f N) btreeblk_ops ops N rb = Some bt" "stores ops K N bt m"
  shows "bt_root_bid bt = rb" "bt_file bt = f" "nd (bh_view (bt_handle bt)) = disk_nd f"
proof -
  obtain t where c: "btree_config ops K N" and t: "holds_tree ops K N bt t" using assms(2) by (auto simp: stores_def)
  note ta = tree_layers.tree_atD [OF layers [OF c] t]
  obtain n h1 where r: "btreeblk_read (btreeblk_init f N) rb = Some (n, h1)" "bt_handle bt = h1" "bt_root_bid bt = rb"
    using assms(1) by (cases "btreeblk_read (btreeblk_init f N) rb") (auto simp: btree_init_from_bid_def bt_read_def btreeblk_ops_def Let_def)
  have "rb < 2 ^ 48" using ta(4,7) nd_bound(2) [OF ta(2), of rb] r(3) by auto
  then have "subbid2bid rb = rb" by (simp add: subbid2bid_def)
  then obtain b where b: "filemgr_read f rb True = Inr b" "n = btreeblk_decode b" "bh_file h1 = f"
    "held h1 = [\<lparr>bb_bid = rb, bb_dirty = False, bb_age = 0, bb_addr = n\<rparr>]"
    using r(1) by (auto simp: btreeblk_read_def btreeblk_init_def btreeblk_get_aligned_block_def held_def Let_def split: if_splits sum.splits)
  have nd: "nd (bh_view (bt_handle bt)) x = (if x = rb then Some n else disk_nd f x)" for x
    using b(3,4) by (simp add: bh_view_def r(2))
  then have "node_ok N n" using ta(4,7) r(3) by auto
  then have "bn_data n \<noteq> []" "last (payload n) = BLK_MARKER_BNODE" "payload n \<noteq> []" by (auto simp: node_ok_def payload_def)
  then have "last b = BLK_MARKER_BNODE" unfolding b(2) payload_decode by (simp add: last_drop)
  then have "disk_nd f rb = Some n" using b(1,2) by (simp add: disk_nd_def)
  then show "nd (bh_view (bt_handle bt)) = disk_nd f" using nd by auto
  show "bt_root_bid bt = rb" "bt_file bt = f" using r(2,3) b(3) by simp_all
qed

text \<open>A tree can be opened in every file with the same nodes.\<close>

lemma opened_cong:
  assumes "btree_init_from_bid (btreeblk_init f N) btreeblk_ops ops N rb = Some bt" "stores ops K N bt m" "bh_inv N (btreeblk_init f' N)"
    "\<And>b n. disk_nd f b = Some n \<Longrightarrow> disk_nd f' b = Some n"
  shows "\<exists>bt'. btree_init_from_bid (btreeblk_init f' N) btreeblk_ops ops N rb = Some bt' \<and> stores ops K N bt' m \<and> bt_height bt' = bt_height bt"
proof -
  obtain t where c: "btree_config ops K N" and t: "holds_tree ops K N bt t" "m = map_of (entries t)" using assms(2) by (auto simp: stores_def)
  note ot = opened_tree [OF assms(1,2)] and L = layers [OF c] and ta = tree_layers.tree_atD [OF layers [OF c] t(1)]
  have on: "tree_on ops K 8 N (disk_nd f) (bt_height bt) t" using ta(5) ot(3) unfolding tree_layers.sorted_tree_def [OF L] by simp
  have "nd (bh_view (btreeblk_init f' N)) b = nd (bh_view (bt_handle bt)) b \<and> b \<in> saved (bh_view (btreeblk_init f' N))" if b: "b \<in> set (bids t)" for b
    using tree_layers.tree_nodes [OF L on b] assms(4) [of b] ot(3) by (auto simp: init_view)
  then show ?thesis using tree_layers.tree_transfer [OF L t(1) assms(3)] c t(2) ot(1) by (auto simp: stores_def)
qed

lemma opens_kept:
  assumes "opens ops K N f rb m" "growing f" "fm_blocksize f = N" "fm_last_commit f = fm_pos f" "bh_file h = f" "bh_ext h h'" "bh_inv N h'"
  shows "opens ops K N (bh_file h') rb m"
proof -
  have "bh_inv N (btreeblk_init (bh_file h') N)" using assms(7) unfolding init_inv by (simp add: bh_inv_def)
  moreover have "disk_nd (bh_file h') b = Some n" if n: "disk_nd f b = Some n" for b n
  proof -
    have g: "grows f (bh_file h')" "\<And>b. b * N < fm_pos f \<Longrightarrow> block (bh_file h') b = block f b"
    using assms(2-4,6) unfolding bh_ext_def assms(5) by auto
    have "b * N < fm_pos f" using disk_nd_bound(1) [OF assms(2) n] assms(3) by simp
    then show ?thesis
      using disk_nd_cong [OF assms(2) bh_invD(1) [OF assms(7)], of b] g assms(3) n by (simp add: grows_def)
  qed
  ultimately show ?thesis using assms(1) opened_cong by (fastforce simp: opens_def)
qed

lemma opened_commit:
  assumes "btree_init_from_bid (btreeblk_init f N) btreeblk_ops ops N rb = Some bt" "stores ops K N bt m" "bh_inv N (btreeblk_init f N)"
  defines "f' \<equiv> f\<lparr>fm_last_commit := fm_pos f\<rparr>"
  shows "\<exists>bt'. btree_init_from_bid (btreeblk_init f' N) btreeblk_ops ops N rb = Some bt' \<and> stores ops K N bt' m \<and> bt_height bt' = bt_height bt"
proof -
  have i: "bh_inv N (btreeblk_init f' N)" using assms(3) unfolding init_inv by (auto simp: f'_def growing_def file_ok_def)
  have "disk_nd f' b = disk_nd f b" for b
    using disk_nd_cong [of f f' b] disk_nd_outside [of f b] disk_nd_outside [of f' b] assms(3) i unfolding init_inv
    by (cases "b * fm_blocksize f < fm_pos f") (simp_all add: block_def f'_def)
  then show ?thesis by (intro opened_cong [OF assms(1,2) i]) simp
qed

section \<open>The properties\<close>

text \<open>A file of two 128-byte blocks and an empty tree in it, for the examples.\<close>

definition node_file :: filemgr where
  "node_file = small_file\<lparr>fm_blocksize := 128, fm_pos := 256, fm_data := replicate 256 0\<rparr>"

definition node_tree :: "btreeblk_handle btree" where
  "node_tree = snd (the (btree_init (btreeblk_init node_file 128) btreeblk_ops btree_kv_get_kb64_vb64 128 8 8 0 None))"

lemma node_file_inv: "bh_inv 128 (btreeblk_init node_file 128)"
  unfolding init_inv
  by (simp add: growing_def file_ok_def node_file_def small_file_def DOCBLK_META_SIZE_def ver_non_consecutive_doc_def
    ver_get_latest_magic_def FILEMGR_LATEST_MAGIC_def FILEMGR_MAGIC_002_def)

lemma node_config: "btree_config btree_kv_get_kb64_vb64 8 128"
  by (simp add: btree_config_def kv_table_def sizeof_bnode_def)

lemma node_space: "free_bids node_file = 2 ^ 48 - 3"
  by (simp add: free_bids_def node_file_def)

lemma node_tree_stores:
  "stores btree_kv_get_kb64_vb64 8 128 node_tree Map.empty" "bt_height node_tree = 1" "2 ^ 48 - 4 \<le> free_bids (bt_file node_tree)"
proof -
  have "0 < free_bids (bh_file (btreeblk_init node_file 128))" "meta_room 8 128 None"
    by (simp_all add: init_view node_space meta_room_def)
  from stores_init [OF node_config node_file_inv this(1) _ this(2), of 0]
  show "stores btree_kv_get_kb64_vb64 8 128 node_tree Map.empty" "bt_height node_tree = 1" "2 ^ 48 - 4 \<le> free_bids (bt_file node_tree)"
    by (auto simp: node_tree_def init_view node_space)
qed

text \<open>
  C4. Inserting into a B+-tree whose blocks live in a file refines the update of a map: whatever the
  height of the tree and however many nodes are moved, split or put on top, the operation returns,
  tells whether the key was there, and the tree then stands for the updated map. At most two new
  blocks for every level and two for a new root are used, what was committed stays in the file
  unchanged, and the metadata of the root is kept.
\<close>

theorem btree_insert_refines:
  assumes "stores ops K N bt m" "length key = K" "length val = 8" "2 * bt_height bt + 2 \<le> free_bids (bt_file bt)"
  shows "\<exists>bt'. btree_insert bt key val = Some (if key \<in> dom m then BTREE_RESULT_UPDATE else BTREE_RESULT_SUCCESS, bt') \<and>
    stores ops K N bt' (m(key \<mapsto> val)) \<and> bt_height bt' \<le> Suc (bt_height bt) \<and>
    free_bids (bt_file bt) \<le> free_bids (bt_file bt') + (2 * bt_height bt + 2) \<and>
    bh_ext (bt_handle bt) (bt_handle bt') \<and> meta_data bt' = meta_data bt"
  using stores_insert [OF assms] by (auto simp: advanced_def)

theorem btree_insert_refines_witness:
  "\<exists>bt'. btree_insert node_tree (replicate 8 1) (replicate 8 2) = Some (BTREE_RESULT_SUCCESS, bt') \<and>
    stores btree_kv_get_kb64_vb64 8 128 bt' [replicate 8 1 \<mapsto> replicate 8 2]"
  using btree_insert_refines [OF node_tree_stores(1), of "replicate 8 1" "replicate 8 2"] node_tree_stores(2,3) by auto

text \<open>
  C7. Finding a key in a B+-tree looks it up in the map that the tree stands for, and reads only: the
  tree stands for the same map after it.
\<close>

theorem btree_find_refines:
  assumes "stores ops K N bt m" "length key = K"
  shows "\<exists>bt'. btree_find bt key = Some (if m key = None then BTREE_RESULT_FAIL else BTREE_RESULT_SUCCESS, m key, bt') \<and> stores ops K N bt' m"
  using stores_find [OF assms] by blast

theorem btree_find_refines_witness: "\<exists>bt'. btree_find node_tree (replicate 8 1) = Some (BTREE_RESULT_FAIL, None, bt')"
  using btree_find_refines [OF node_tree_stores(1), of "replicate 8 1"] by auto

text \<open>
  C3. What is inserted is durable. A tree is created in a file, with metadata or without, any list of
  pairs is inserted, and the block layer is flushed. Every step succeeds, and opening the tree at its
  root with a new handle on the resulting file finds every key with the value inserted last, fails on
  all others, and reads the metadata given on creation.
\<close>

theorem btree_durable:
  assumes "btree_config ops K N" "growing f" "fm_blocksize f = N" "N \<le> 2 ^ 16" "sized K 8 kvs" "flags AND BNODE_MASK_METADATA = 0" "meta_room K N meta"
    "2 * length kvs * (1 + length kvs) + 1 \<le> free_bids f" "1 + length kvs < 2 ^ 16" "length key = K"
  shows "\<exists>bt bt1 h bt2. btree_init (btreeblk_init f N) btreeblk_ops ops N K 8 flags meta = Some (BTREE_RESULT_SUCCESS, bt) \<and>
    insert_all bt kvs = Some bt1 \<and> btreeblk_end (bt_handle bt1) = Some (FDB_RESULT_SUCCESS, h) \<and>
    btree_init_from_bid (btreeblk_init (bh_file h) N) btreeblk_ops ops N (bt_root_bid bt1) = Some bt2 \<and>
    map_option (\<lambda>(r, v, _). (r, v)) (btree_find bt2 key) =
      Some (case map_of (rev kvs) key of None \<Rightarrow> (BTREE_RESULT_FAIL, None) | Some v \<Rightarrow> (BTREE_RESULT_SUCCESS, Some v)) \<and>
    map_option fst (btree_read_meta bt2) = Some (case meta of None \<Rightarrow> [] | Some data \<Rightarrow> data)"
proof -
  have inv: "bh_inv N (btreeblk_init f N)" and sp: "0 < free_bids (bh_file (btreeblk_init f N))"
    using assms(2-4,8) unfolding init_inv by (simp_all add: init_view free_bids_def)
  obtain bt where bt: "btree_init (btreeblk_init f N) btreeblk_ops ops N K 8 flags meta = Some (BTREE_RESULT_SUCCESS, bt)"
    "stores ops K N bt Map.empty" "meta_data bt = Some (case meta of None \<Rightarrow> [] | Some data \<Rightarrow> data)" "bt_height bt = 1"
    "free_bids f \<le> free_bids (bt_file bt) + 1"
    using stores_init [OF assms(1) inv sp assms(6,7)] unfolding init_view by blast
  obtain bt1 where b1: "insert_all bt kvs = Some bt1" "stores ops K N bt1 (map_of (rev kvs))" "meta_data bt1 = meta_data bt" "bt_height bt1 \<le> 1 + length kvs"
    using stores_insert_all [OF bt(2) assms(5)] assms(8) bt(4,5) by (auto simp: advanced_def)
  have "bh_inv N (bt_handle bt1)" using b1(2) tree_layers.tree_atD(2) [OF layers] by (auto simp: stores_def)
  then obtain h where h: "btreeblk_end (bt_handle bt1) = Some (FDB_RESULT_SUCCESS, h)" using end_spec by blast
  obtain bt2 where b2: "btree_init_from_bid (btreeblk_init (bh_file h) N) btreeblk_ops ops N (bt_root_bid bt1) = Some bt2"
    "stores ops K N bt2 (map_of (rev kvs))" "meta_data bt2 = meta_data bt1"
    using end_view [OF b1(2) _ h] b1(4) assms(9) by auto
  obtain b where "btree_find bt2 key = Some (if map_of (rev kvs) key = None then BTREE_RESULT_FAIL else BTREE_RESULT_SUCCESS, map_of (rev kvs) key, b)"
    using stores_find [OF b2(2) assms(10)] by blast
  then have "map_option (\<lambda>(r, v, _). (r, v)) (btree_find bt2 key) =
      Some (case map_of (rev kvs) key of None \<Rightarrow> (BTREE_RESULT_FAIL, None) | Some v \<Rightarrow> (BTREE_RESULT_SUCCESS, Some v))"
    by (simp split: option.splits)
  then show ?thesis using bt(1,3) b1(1,3) h b2(1,3) unfolding meta_data_def by auto
qed

definition example_pairs :: "(buf \<times> buf) list" where
  "example_pairs = [(replicate 8 3, replicate 8 4), (replicate 8 1, replicate 8 2), (replicate 8 3, replicate 8 5)]"

theorem btree_durable_witness:
  "\<exists>bt bt1 h bt2. btree_init (btreeblk_init node_file 128) btreeblk_ops btree_kv_get_kb64_vb64 128 8 8 0 (Some [7]) = Some (BTREE_RESULT_SUCCESS, bt) \<and>
    insert_all bt example_pairs = Some bt1 \<and> btreeblk_end (bt_handle bt1) = Some (FDB_RESULT_SUCCESS, h) \<and>
    btree_init_from_bid (btreeblk_init (bh_file h) 128) btreeblk_ops btree_kv_get_kb64_vb64 128 (bt_root_bid bt1) = Some bt2 \<and>
    map_option (\<lambda>(r, v, _). (r, v)) (btree_find bt2 (replicate 8 3)) = Some (BTREE_RESULT_SUCCESS, Some (replicate 8 5)) \<and>
    map_option fst (btree_read_meta bt2) = Some [7]"
proof -
  have f: "growing node_file" "fm_blocksize node_file = 128" using node_file_inv unfolding init_inv by simp_all
  have p: "sized 8 8 example_pairs" "length example_pairs = 3" "map_of (rev example_pairs) (replicate 8 3) = Some (replicate 8 5)"
    by (simp_all add: example_pairs_def)
  have m: "meta_room 8 128 (Some [7])" by (simp add: meta_room_def sizeof_bnode_def sizeof_metasize_def metasize_align_def METASIZE_ALIGN_UNIT_def)
  show ?thesis using btree_durable [OF node_config f _ p(1) _ m, of 0 "replicate 8 3"] p(2,3) node_space by simp
qed

text \<open>
  C5. Committed trees are never changed. A tree is opened at its root in a file where everything is
  committed, pairs are inserted and the block layer is flushed. In the resulting file the old root
  still opens the old map while the new root opens the updated one.
\<close>

theorem btree_snapshot:
  assumes "btree_init_from_bid (btreeblk_init f N) btreeblk_ops ops N rb = Some bt" "stores ops K N bt m" "fm_last_commit f = fm_pos f"
    "sized K 8 kvs" "2 * length kvs * (bt_height bt + length kvs) \<le> free_bids f" "bt_height bt + length kvs < 2 ^ 16"
  shows "\<exists>bt1 h. insert_all bt kvs = Some bt1 \<and> btreeblk_end (bt_handle bt1) = Some (FDB_RESULT_SUCCESS, h) \<and>
    opens ops K N (bh_file h) rb m \<and> opens ops K N (bh_file h) (bt_root_bid bt1) (m ++ map_of (rev kvs))"
proof -
  note ot = opened_tree [OF assms(1,2)]
  have inv: "bh_inv N (bt_handle b)" if "stores ops K N b x" for b x using that tree_layers.tree_atD(2) [OF layers] by (auto simp: stores_def)
  have i: "growing f" "fm_blocksize f = N" using bh_invD(1,2) [OF inv [OF assms(2)]] ot(2) by simp_all
  obtain bt1 where b1: "insert_all bt kvs = Some bt1" "stores ops K N bt1 (m ++ map_of (rev kvs))" "bh_ext (bt_handle bt) (bt_handle bt1)"
    "bt_height bt1 \<le> bt_height bt + length kvs"
    using stores_insert_all [OF assms(2,4)] assms(5) unfolding ot(2) advanced_def by blast
  obtain h where h: "btreeblk_end (bt_handle bt1) = Some (FDB_RESULT_SUCCESS, h)" "bh_inv N h" "bh_ext (bt_handle bt1) h"
    using end_spec [OF inv [OF b1(2)]] by blast
  have "opens ops K N (bh_file h) (bt_root_bid bt1) (m ++ map_of (rev kvs))"
    using end_view [OF b1(2) _ h(1)] b1(4) assms(6) by (auto simp: opens_def)
  moreover have "opens ops K N (bh_file h) rb m"
    using opens_kept [OF _ i assms(3) ot(2) ext_after [OF b1(3) h(3)] h(2)] assms(1,2) by (auto simp: opens_def)
  ultimately show ?thesis using b1(1) h(1) by blast
qed

text \<open>The empty tree, written back and committed.\<close>

definition committed_file :: filemgr where
  "committed_file = (let f = bh_file (snd (the (btreeblk_end (bt_handle node_tree)))) in f\<lparr>fm_last_commit := fm_pos f\<rparr>)"

definition committed_tree :: "btreeblk_handle btree" where
  "committed_tree = the (btree_init_from_bid (btreeblk_init committed_file 128) btreeblk_ops btree_kv_get_kb64_vb64 128 (bt_root_bid node_tree))"

lemma committed_tree_stores:
  "btree_init_from_bid (btreeblk_init committed_file 128) btreeblk_ops btree_kv_get_kb64_vb64 128 (bt_root_bid node_tree) = Some committed_tree"
  "stores btree_kv_get_kb64_vb64 8 128 committed_tree Map.empty" "bt_height committed_tree = 1" "fm_last_commit committed_file = fm_pos committed_file"
  "2 ^ 48 - 4 \<le> free_bids committed_file"
proof -
  have i: "bh_inv 128 (bt_handle node_tree)" using node_tree_stores(1) tree_layers.tree_atD(2) [OF layers] by (auto simp: stores_def)
  obtain h where h: "btreeblk_end (bt_handle node_tree) = Some (FDB_RESULT_SUCCESS, h)" "bh_inv 128 h" "fm_pos (bh_file h) = fm_pos (bt_file node_tree)"
    using end_spec [OF i] by blast
  have f: "committed_file = (bh_file h)\<lparr>fm_last_commit := fm_pos (bh_file h)\<rparr>" by (simp add: committed_file_def h(1) Let_def)
  have ih: "bh_inv 128 (btreeblk_init (bh_file h) 128)" using h(2) unfolding init_inv by (simp add: bh_inv_def)
  obtain bt where "btree_init_from_bid (btreeblk_init (bh_file h) 128) btreeblk_ops btree_kv_get_kb64_vb64 128 (bt_root_bid node_tree) = Some bt"
    "stores btree_kv_get_kb64_vb64 8 128 bt Map.empty" "bt_height bt = 1"
    using end_view [OF node_tree_stores(1) _ h(1)] node_tree_stores(2) by auto
  from opened_commit [OF this(1,2) ih] this(3) obtain bt' where
    "btree_init_from_bid (btreeblk_init committed_file 128) btreeblk_ops btree_kv_get_kb64_vb64 128 (bt_root_bid node_tree) = Some bt'"
    "stores btree_kv_get_kb64_vb64 8 128 bt' Map.empty" "bt_height bt' = 1" unfolding f by auto
  then show "btree_init_from_bid (btreeblk_init committed_file 128) btreeblk_ops btree_kv_get_kb64_vb64 128 (bt_root_bid node_tree) = Some committed_tree"
    "stores btree_kv_get_kb64_vb64 8 128 committed_tree Map.empty" "bt_height committed_tree = 1" by (simp_all add: committed_tree_def)
  show "fm_last_commit committed_file = fm_pos committed_file" by (simp add: f)
  show "2 ^ 48 - 4 \<le> free_bids committed_file"
    using node_tree_stores(3) h(2,3) i unfolding free_bids_def f by (simp add: bh_inv_def)
qed

theorem btree_snapshot_witness:
  "\<exists>bt1 h. insert_all committed_tree example_pairs = Some bt1 \<and> btreeblk_end (bt_handle bt1) = Some (FDB_RESULT_SUCCESS, h) \<and>
    opens btree_kv_get_kb64_vb64 8 128 (bh_file h) (bt_root_bid node_tree) Map.empty \<and>
    opens btree_kv_get_kb64_vb64 8 128 (bh_file h) (bt_root_bid bt1) (map_of (rev example_pairs))"
  using btree_snapshot [OF committed_tree_stores(1,2,4), of example_pairs] committed_tree_stores(3,5) by (simp add: example_pairs_def)

end
