(* ===== verification/File_Header.thy ===== *)
theory File_Header
  imports File_Manager
begin

text \<open>
  The database header of \<^verbatim>\<open>src/filemgr.cc\<close> and its contents in \<^verbatim>\<open>src/forestdb.cc\<close>: writing a header block on
  a commit, finding the last header when a file is opened after a crash, following the chain of
  headers, and the fields that a database keeps in its header. The header of \<^verbatim>\<open>struct filemgr\<close> is a
  record of its own. The temporary block buffers that the code recycles are arguments, since their old
  contents get into the file. \<open>Out_of_bounds\<close> stands for an access outside of such a buffer.
\<close>

section \<open>The header in memory\<close>

text \<open>
  The buffer \<^verbatim>\<open>header.data\<close> is only read up to \<^verbatim>\<open>header.size\<close>; of the statistics the commit uses the
  size of the changes since the last commit.
\<close>

record filemgr_header =
  hdr_size :: nat
  hdr_revnum :: u64
  hdr_seqnum :: u64
  hdr_bid :: nat
  hdr_data :: "buf option"
  hdr_deltasize :: u64

definition filemgr_update_header :: "filemgr_header \<Rightarrow> buf \<Rightarrow> bool \<Rightarrow> u64 \<times> filemgr_header" where
  "filemgr_update_header hdr b inc_revnum =
     (let hdr1 = hdr\<lparr>hdr_data := Some b, hdr_size := length b mod 2 ^ 16\<rparr>;
          hdr2 = (if inc_revnum then hdr1\<lparr>hdr_revnum := hdr_revnum hdr1 + 1\<rparr> else hdr1)
      in (hdr_revnum hdr2, hdr2))"

definition filemgr_get_header_bid :: "filemgr_header \<Rightarrow> nat" where
  "filemgr_get_header_bid hdr = (if hdr_size hdr > 0 then hdr_bid hdr else BLK_NOT_FOUND)"

section \<open>Committing\<close>

definition filemgr_write_blocks :: "filemgr \<Rightarrow> buf \<Rightarrow> nat \<Rightarrow> buf \<times> int" where
  "filemgr_write_blocks file b start_bid = ops_pwrite (fm_ops file) (fm_data file) b (start_bid * fm_blocksize file)"

text \<open>The fields at the end of the block: sizes of the marker, the magic number, the length and three 64-bit fields.\<close>

definition header_block :: "filemgr \<Rightarrow> filemgr_header \<Rightarrow> buf \<Rightarrow> nat \<Rightarrow> u64 \<Rightarrow> buf" where
  "header_block file hdr tmp bmp_rev datasize =
     (let bs = fm_blocksize file; len = hdr_size hdr;
          b1 = mem_write tmp 0 (take len (the (hdr_data hdr)));
          b2 = mem_write b1 len (word_mem 8 (enc64 (hdr_revnum hdr)));
          b3 = mem_write b2 (len + 8) (word_mem 8 (enc64 (hdr_seqnum hdr)));
          b4 = (if fm_sb file \<noteq> None then mem_write b3 (bs - (8 + 2 + 8 + 8 + 8 + BLK_MARKER_SIZE)) (word_mem 8 (enc64 (word_of_nat bmp_rev))) else b3);
          b5 = mem_write b4 (bs - (8 + 2 + 8 * 2 + BLK_MARKER_SIZE)) (word_mem 8 (enc64 (hdr_deltasize hdr + datasize)));
          b6 = mem_write b5 (bs - (8 + 2 + 8 + BLK_MARKER_SIZE)) (word_mem 8 (enc64 (word_of_nat (hdr_bid hdr))));
          b7 = mem_write b6 (bs - (8 + 2 + BLK_MARKER_SIZE)) (word_mem 2 (enc16 (word_of_nat len)));
          b8 = mem_write b7 (bs - (8 + BLK_MARKER_SIZE)) (word_mem 8 (enc64 (fm_version file)))
      in mem_write b8 (bs - BLK_MARKER_SIZE) [BLK_MARKER_DBHEADER])"

definition set_last_commit :: "filemgr \<Rightarrow> filemgr" where
  "set_last_commit file =
     (case fm_sb file of
        Some sb \<Rightarrow>
          if sb_bmp_exists sb \<and> cur_alloc_bid sb \<noteq> BLK_NOT_FOUND \<and> fm_status file = FILE_NORMAL
          then file\<lparr>fm_last_commit := cur_alloc_bid sb * fm_blocksize file, fm_last_writable_bmp_revnum := sb_get_bmp_revnum file\<rparr>
          else file\<lparr>fm_last_commit := fm_pos file\<rparr>
      | None \<Rightarrow> file\<lparr>fm_last_commit := fm_pos file\<rparr>)"

text \<open>
  The argument \<open>datasize\<close> is the data size of the write-ahead log and \<open>sync\<close> the result of the
  \<^verbatim>\<open>fsync\<close> call, if one is wanted. \<^const>\<open>None\<close> is a header that does not fit into the block buffer.
\<close>

definition filemgr_commit_bid ::
    "filemgr \<Rightarrow> filemgr_header \<Rightarrow> buf \<Rightarrow> nat \<Rightarrow> nat \<Rightarrow> u64 \<Rightarrow> int option \<Rightarrow> (int \<times> filemgr \<times> filemgr_header) option" where
  "filemgr_commit_bid file hdr tmp bid bmp_rev datasize sync =
     (let finish = (\<lambda>file hdr. Some (case sync of Some r \<Rightarrow> r | None \<Rightarrow> FDB_RESULT_SUCCESS, set_last_commit file, hdr)) in
      if hdr_size hdr > 0 \<and> hdr_data hdr \<noteq> None then
        if hdr_size hdr + 16 > fm_blocksize file then None
        else
          (let b = header_block file hdr tmp bmp_rev datasize;
               hdr1 = hdr\<lparr>hdr_deltasize := 0\<rparr>;
               prev_bid = hdr_bid hdr;
               block_reusing = (bid \<noteq> BLK_NOT_FOUND);
               bid1 = (if block_reusing then bid else fm_pos file div fm_blocksize file)
           in case filemgr_write_blocks file b bid1 of (d, rv) \<Rightarrow>
             if rv \<noteq> int (fm_blocksize file)
             then Some (if rv < 0 then rv else FDB_RESULT_WRITE_FAIL, file\<lparr>fm_data := d\<rparr>, hdr1)
             else
               (let file1 = file\<lparr>fm_data := d\<rparr>;
                    file2 = (if prev_bid \<noteq> 0 then filemgr_add_stale_block file1 (prev_bid * fm_blocksize file) (fm_blocksize file) else file1);
                    file3 = (if block_reusing then file2 else file2\<lparr>fm_pos := fm_pos file2 + fm_blocksize file2\<rparr>)
                in finish file3 (hdr1\<lparr>hdr_bid := bid1\<rparr>)))
      else finish file hdr)"

definition filemgr_commit :: "filemgr \<Rightarrow> filemgr_header \<Rightarrow> buf \<Rightarrow> u64 \<Rightarrow> int option \<Rightarrow> (int \<times> filemgr \<times> filemgr_header) option" where
  "filemgr_commit file hdr tmp datasize sync = filemgr_commit_bid file hdr tmp BLK_NOT_FOUND (sb_get_bmp_revnum file) datasize sync"

section \<open>Finding the header of an opened file\<close>

definition FDB_RESULT_INVALID_ARGS :: int where "FDB_RESULT_INVALID_ARGS = -1"
definition FDB_RESULT_NO_DB_HEADERS :: int where "FDB_RESULT_NO_DB_HEADERS = -38"

definition header_magic :: "filemgr \<Rightarrow> buf \<Rightarrow> u64" where
  "header_magic file b = dec64 (mem_word (mem_read b (fm_blocksize file - BLK_MARKER_SIZE - 8) 8))"

definition header_length :: "filemgr \<Rightarrow> buf \<Rightarrow> nat" where
  "header_length file b = unat (dec16 (mem_word (mem_read b (fm_blocksize file - BLK_MARKER_SIZE - 8 - 2) 2)))"

datatype fault = Out_of_bounds

text \<open>
  What one block of the backward scan is: a header, a reason to stop, or a reason to go on, each with
  the file whose checksum mode was set on the way and the magic number read last.
\<close>

datatype examined = Accepted filemgr u64 filemgr_header | Stopped int filemgr u64 | Rejected int filemgr u64 | Fault

definition examine_header :: "filemgr \<Rightarrow> bool \<Rightarrow> u64 \<Rightarrow> nat \<Rightarrow> buf \<Rightarrow> examined" where
  "examine_header file check_crc32_open_rule magic bid b =
     (if b ! (fm_blocksize file - BLK_MARKER_SIZE) \<noteq> BLK_MARKER_DBHEADER then Rejected FDB_RESULT_NO_DB_HEADERS file magic
      else
        (let magic1 = header_magic file b in
         if \<not> ver_is_valid_magic magic1 then Rejected FDB_RESULT_FILE_CORRUPTION file magic1
         else
           (let len = header_length file b in
            if len < 4 \<or> fm_blocksize file < len then Fault
            else
              (let crc_file = dec32 (mem_word (mem_read b (len - 4) 4));
                   (ok, mode) = detect_and_check_crc b (len - 4) crc_file;
                   file1 = file\<lparr>fm_crc_mode := mode\<rparr>
               in if \<not> ok then Rejected FDB_RESULT_CHECKSUM_ERROR file1 magic1
                  else if check_crc32_open_rule \<and> mode \<noteq> CRC32 then Stopped FDB_RESULT_INVALID_ARGS file1 magic1
                  else if fm_blocksize file < len + 16 then Fault
                  else
                    (let file2 = (if ver_superblock_support magic1
                            then file1\<lparr>fm_last_writable_bmp_revnum := sb_get_bmp_revnum file1\<rparr> else file1)
                     in Accepted file2 magic1
                          \<lparr>hdr_size = len, hdr_revnum = dec64 (mem_word (mem_read b len 8)),
                           hdr_seqnum = dec64 (mem_word (mem_read b (len + 8) 8)), hdr_bid = bid,
                           hdr_data = Some (take len b), hdr_deltasize = 0\<rparr>)))))"

definition no_header :: filemgr_header where
  "no_header = \<lparr>hdr_size = 0, hdr_revnum = 0, hdr_seqnum = 0, hdr_bid = 0, hdr_data = None, hdr_deltasize = 0\<rparr>"

text \<open>The backward scan goes around the file once; the first argument counts the blocks that are left.\<close>

fun read_header_loop :: "nat \<Rightarrow> filemgr \<Rightarrow> bool \<Rightarrow> nat \<Rightarrow> nat \<Rightarrow> u64 \<Rightarrow> (fault + int \<times> filemgr \<times> filemgr_header) option" where
  "read_header_loop 0 file rule hdr_bid0 bid magic = None"
| "read_header_loop (Suc fuel) file rule hdr_bid0 bid magic =
     (let give_up = (\<lambda>st file magic. Some (Inr (st, file\<lparr>fm_version := magic\<rparr>, no_header))) in
      if bid * fm_blocksize file \<ge> fm_pos file then give_up FDB_RESULT_NO_DB_HEADERS file magic
      else case filemgr_read_block file bid of (b, rv) \<Rightarrow>
        if rv \<noteq> int (fm_blocksize file) then give_up rv file magic
        else case examine_header file rule magic bid b of
          Fault \<Rightarrow> Some (Inl Out_of_bounds)
        | Accepted file1 magic1 hdr \<Rightarrow> Some (Inr (FDB_RESULT_SUCCESS, file1\<lparr>fm_version := magic1\<rparr>, hdr))
        | Stopped st file1 magic1 \<Rightarrow> give_up st file1 magic1
        | Rejected st file1 magic1 \<Rightarrow>
            (let file2 = file1\<lparr>fm_last_commit := bid * fm_blocksize file\<rparr>;
                 next_bid = (if bid \<noteq> 0 then bid - 1 else fm_pos file2 div fm_blocksize file2 - 1)
             in if next_bid = hdr_bid0 then give_up st file2 magic1
                else read_header_loop fuel file2 rule hdr_bid0 next_bid magic1))"

definition filemgr_read_header :: "filemgr \<Rightarrow> (fault + int \<times> filemgr \<times> filemgr_header) option" where
  "filemgr_read_header file =
     (let rule = (fm_crc_mode file = CRC32);
          hdr_bid0 = (case fm_sb file of
              Some sb \<Rightarrow> if last_hdr_bid sb \<noteq> BLK_NOT_FOUND then last_hdr_bid sb else fm_pos file div fm_blocksize file - 1
            | None \<Rightarrow> fm_pos file div fm_blocksize file - 1);
          min_filesize = (case fm_sb file of Some sb \<Rightarrow> num_sb sb * fm_blocksize file | None \<Rightarrow> 0)
      in if fm_pos file > min_filesize then
           (let remain = fm_pos file mod fm_blocksize file;
                file1 = (if remain \<noteq> 0 then file\<lparr>fm_pos := fm_pos file - remain, fm_last_commit := fm_pos file - remain\<rparr> else file)
            in read_header_loop (Suc (fm_pos file1 div fm_blocksize file1)) file1 rule hdr_bid0 hdr_bid0 ver_get_latest_magic)
         else Some (Inr (FDB_RESULT_SUCCESS, file\<lparr>fm_version := ver_get_latest_magic\<rparr>, no_header)))"

text \<open>
  The file manager's state for an existing file when \<^verbatim>\<open>filemgr_open\<close> comes to reading the header, after
  the superblock was loaded. The checksum mode is the default one, which without CRC-32C is also the
  one of the option \<^verbatim>\<open>FILEMGR_CREATE_CRC32\<close>.
\<close>

definition filemgr_opened :: "nat \<Rightarrow> filemgr_ops \<Rightarrow> superblock option \<Rightarrow> nat \<Rightarrow> nat \<Rightarrow> buf \<Rightarrow> filemgr" where
  "filemgr_opened bs ops sb threshold keeping data =
     \<lparr>fm_sb = sb, fm_blocksize = bs, fm_pos = length data, fm_last_commit = length data, fm_last_writable_bmp_revnum = 0,
      fm_status = FILE_NORMAL, fm_block_reusing_threshold = threshold, fm_num_keeping_headers = keeping, fm_version = 0,
      fm_crc_mode = CRC_DEFAULT, fm_ops = ops, fm_data = data, fm_stale_list = Some []\<rparr>"

section \<open>The chain of headers\<close>

definition filemgr_is_commit_header :: "filemgr \<Rightarrow> buf \<Rightarrow> bool" where
  "filemgr_is_commit_header file b \<longleftrightarrow> b ! (fm_blocksize file - BLK_MARKER_SIZE) = BLK_MARKER_DBHEADER \<and> ver_is_valid_magic (header_magic file b)"

record fetched_header =
  fh_data :: buf
  fh_revnum :: u64
  fh_seqnum :: u64
  fh_deltasize :: "u64 option"
  fh_version :: u64
  fh_bmp_revnum :: "u64 option"

text \<open>The fields of a header block; those that the version of the file does not have stay unset.\<close>

definition header_fields :: "filemgr \<Rightarrow> buf \<Rightarrow> fetched_header" where
  "header_fields file b =
     (let bs = fm_blocksize file; magic = header_magic file b; len = header_length file b in
      \<lparr>fh_data = take len b, fh_revnum = dec64 (mem_word (mem_read b len 8)), fh_seqnum = dec64 (mem_word (mem_read b (len + 8) 8)),
       fh_deltasize = (if ver_is_atleast_magic_001 magic then Some (dec64 (mem_word (mem_read b (bs - BLK_MARKER_SIZE - 8 - 2 - 8 - 8) 8))) else None),
       fh_version = magic,
       fh_bmp_revnum = (if ver_superblock_support magic then Some (dec64 (mem_word (mem_read b (bs - BLK_MARKER_SIZE - 8 - 2 - 8 - 8 - 8) 8))) else None)\<rparr>)"

definition header_prev_bid :: "filemgr \<Rightarrow> buf \<Rightarrow> nat" where
  "header_prev_bid file b = unat (dec64 (mem_word (mem_read b (fm_blocksize file - BLK_MARKER_SIZE - 8 - 2 - 8) 8)))"

text \<open>\<open>Inr None\<close> is the successful return with length zero.\<close>

definition filemgr_fetch_header :: "filemgr \<Rightarrow> nat \<Rightarrow> int + fetched_header option" where
  "filemgr_fetch_header file bid =
     (if bid = 0 \<or> bid = BLK_NOT_FOUND then Inr None
      else case filemgr_read file bid True of
        Inl st \<Rightarrow> Inl st
      | Inr b \<Rightarrow>
          if b ! (fm_blocksize file - BLK_MARKER_SIZE) \<noteq> BLK_MARKER_DBHEADER then Inl FDB_RESULT_READ_FAIL
          else if \<not> ver_is_valid_magic (header_magic file b) then Inl FDB_RESULT_FILE_CORRUPTION
          else Inr (Some (header_fields file b)))"

text \<open>The block where the search goes on and the revision number that the previous header must be below.\<close>

definition prev_step :: "filemgr \<Rightarrow> filemgr_header \<Rightarrow> nat \<Rightarrow> buf \<Rightarrow> (nat \<times> u64) option" where
  "prev_step file hdr bid b =
     (if \<not> filemgr_is_commit_header file b then
        (let latest_hdr = filemgr_get_header_bid hdr in
         if latest_hdr \<noteq> BLK_NOT_FOUND \<and> bid > latest_hdr then Some (latest_hdr, hdr_revnum hdr + 1) else None)
      else
        (let cur_revnum = fh_revnum (header_fields file b) in
         if (case fm_sb file of Some sb \<Rightarrow> sb_bmp_exists sb | None \<Rightarrow> False) \<and> unat cur_revnum \<le> sb_get_min_live_revnum file then None
         else Some (header_prev_bid file b, cur_revnum)))"

definition filemgr_fetch_prev_header :: "filemgr \<Rightarrow> filemgr_header \<Rightarrow> nat \<Rightarrow> nat \<times> fetched_header option" where
  "filemgr_fetch_prev_header file hdr bid =
     (if bid = 0 \<or> bid = BLK_NOT_FOUND then (bid, None)
      else case filemgr_read file bid True of
        Inl _ \<Rightarrow> (BLK_NOT_FOUND, None)
      | Inr b \<Rightarrow>
          (case prev_step file hdr bid b of
             None \<Rightarrow> (BLK_NOT_FOUND, None)
           | Some (prev, cur_revnum) \<Rightarrow>
               (case filemgr_read file prev True of
                  Inl _ \<Rightarrow> (BLK_NOT_FOUND, None)
                | Inr p \<Rightarrow>
                    if \<not> filemgr_is_commit_header file p then (BLK_NOT_FOUND, None)
                    else
                      (let fh = header_fields file p in
                       if fh_revnum fh \<ge> cur_revnum \<or> unat (fh_revnum fh) < sb_get_min_live_revnum file then (BLK_NOT_FOUND, None)
                       else (prev, Some fh)))))"

section \<open>What a database keeps in its header\<close>

record fdb_header =
  trie_root_bid :: u64
  seq_root_bid :: u64
  stale_root_bid :: u64
  ndocs :: u64
  ndeletes :: u64
  nlivenodes :: u64
  datasize :: u64
  last_wal_flush_hdr_bid :: u64
  kv_info_offset :: u64
  header_flags :: u64
  new_filename :: "buf option"
  old_filename :: "buf option"

definition filename_len :: "buf option \<Rightarrow> u16" where
  "filename_len name = (case name of None \<Rightarrow> 0 | Some s \<Rightarrow> word_of_nat (length s + 1))"

definition filename_mem :: "buf option \<Rightarrow> buf" where
  "filename_mem name = (case name of None \<Rightarrow> [] | Some s \<Rightarrow> take (unat (filename_len name)) (s @ [0]))"

text \<open>
  \<^verbatim>\<open>fdb_set_file_header\<close>; the arguments are the fields that it collects from the handle, with the number
  that stands for a missing sequence tree. \<^const>\<open>None\<close> is an unsupported checksum mode.
\<close>

definition header_body :: "u64 \<Rightarrow> fdb_header \<Rightarrow> buf" where
  "header_body version h =
     word_mem 8 (enc64 (trie_root_bid h)) @ word_mem 8 (enc64 (seq_root_bid h)) @
     (if ver_staletree_support version then word_mem 8 (enc64 (stale_root_bid h)) else []) @
     word_mem 8 (enc64 (ndocs h)) @ (if ver_is_atleast_magic_001 version then word_mem 8 (enc64 (ndeletes h)) else []) @
     word_mem 8 (enc64 (nlivenodes h)) @ word_mem 8 (enc64 (datasize h)) @ word_mem 8 (enc64 (last_wal_flush_hdr_bid h)) @
     word_mem 8 (enc64 (kv_info_offset h)) @ word_mem 8 (enc64 (header_flags h)) @
     word_mem 2 (enc16 (filename_len (new_filename h))) @ word_mem 2 (enc16 (filename_len (old_filename h))) @
     filename_mem (new_filename h) @ filename_mem (old_filename h)"

definition fdb_set_file_header :: "filemgr \<Rightarrow> filemgr_header \<Rightarrow> fdb_header \<Rightarrow> bool \<Rightarrow> (u64 \<times> filemgr_header) option" where
  "fdb_set_file_header file hdr h inc_revnum =
     (let b = header_body (fm_version file) h in
      map_option (\<lambda>crc. filemgr_update_header hdr (b @ word_mem 4 (enc32 crc)) inc_revnum)
        (get_checksum_mode b (length b) (fm_crc_mode file)))"

text \<open>Reading the fields one after the other; the file names are returned with their terminating zero.\<close>

definition take64 :: "buf \<Rightarrow> u64 \<times> buf" where "take64 b = (dec64 (mem_word (take 8 b)), drop 8 b)"
definition take16 :: "buf \<Rightarrow> u16 \<times> buf" where "take16 b = (dec16 (mem_word (take 2 b)), drop 2 b)"

definition fdb_fetch_header :: "u64 \<Rightarrow> buf \<Rightarrow> fdb_header" where
  "fdb_fetch_header version b =
     (let (trie, b1) = take64 b; (seq, b2) = take64 b1;
          (stale, b3) = (if ver_staletree_support version then take64 b2 else (word_of_nat BLK_NOT_FOUND, b2));
          (nd, b4) = take64 b3;
          (ndel, b5) = (if ver_is_atleast_magic_001 version then take64 b4 else (0, b4));
          (nlive, b6) = take64 b5; (size, b7) = take64 b6; (last_wal, b8) = take64 b7; (kv_info, b9) = take64 b8; (flags, b10) = take64 b9;
          (new_len, b11) = take16 b10; (old_len, b12) = take16 b11
      in \<lparr>trie_root_bid = trie, seq_root_bid = seq, stale_root_bid = stale, ndocs = nd, ndeletes = ndel, nlivenodes = nlive,
          datasize = size, last_wal_flush_hdr_bid = last_wal, kv_info_offset = kv_info, header_flags = flags,
          new_filename = (if new_len \<noteq> 0 then Some (take (unat new_len) b12) else None),
          old_filename = (if old_len \<noteq> 0 then Some (take (unat old_len) (drop (unat new_len) b12)) else None)\<rparr>)"

end
