(* ===== verification/File_Recovery.thy ===== *)
theory File_Recovery
  imports File_Header Docio_Read
begin

text \<open>
  Headers survive a crash: the header that was committed last is found when the file is opened again,
  whatever was appended to the file behind it, as long as that is not a header itself. The headers form
  a chain that leads back from commit to commit, and the fields of a database header are read back
  from it.
\<close>

section \<open>Header blocks\<close>

text \<open>Header data that ends with its checksum and leaves room for the fields behind it.\<close>

definition sealed :: "buf \<Rightarrow> bool" where
  "sealed d \<longleftrightarrow> 4 \<le> length d \<and> drop (length d - 4) d = word_mem 4 (enc32 (crc32_8 d (length d - 4) 0))"

definition hdr_ready :: "nat \<Rightarrow> filemgr_header \<Rightarrow> buf \<Rightarrow> bool" where
  "hdr_ready bs hdr d \<longleftrightarrow> hdr_data hdr = Some d \<and> hdr_size hdr = length d \<and> sealed d \<and> length d < 2 ^ 16 \<and> length d + 51 \<le> bs"

lemma mem_write_end:
  assumes "off + length src \<le> length b" "i + n \<le> off \<or> off + length src \<le> i"
  shows "mem_read (mem_write b off src) i n = mem_read b i n"
  using assms mem_read_write_before mem_read_write_after by blast

lemma header_block_fields:
  assumes "hdr_ready (fm_blocksize file) hdr d" "length tmp = fm_blocksize file" and b_def: "b = header_block file hdr tmp rn ds"
  shows "length b = fm_blocksize file" "b ! (fm_blocksize file - 1) = BLK_MARKER_DBHEADER" "header_magic file b = fm_version file"
    "header_length file b = length d" "take (length d) b = d" "mem_read b (length d) 8 = word_mem 8 (enc64 (hdr_revnum hdr))"
    "mem_read b (length d + 8) 8 = word_mem 8 (enc64 (hdr_seqnum hdr))" "hdr_bid hdr < 2 ^ 64 \<Longrightarrow> header_prev_bid file b = hdr_bid hdr"
proof -
  have h: "hdr_data hdr = Some d" "hdr_size hdr = length d" "length d < 2 ^ 16" "length d + 51 \<le> fm_blocksize file"
    using assms(1) by (auto simp: hdr_ready_def)
  obtain p where r: "fm_blocksize file = p + 51" and p: "length d \<le> p" using h(4) le_Suc_ex [OF h(4)] by (metis add.assoc add.commute le_add1)
  define b3 where "b3 = mem_write (mem_write (mem_write tmp 0 d) (length d) (word_mem 8 (enc64 (hdr_revnum hdr)))) (length d + 8) (word_mem 8 (enc64 (hdr_seqnum hdr)))"
  define b4 where "b4 = (if fm_sb file \<noteq> None then mem_write b3 (16 + p) (word_mem 8 (enc64 (word_of_nat rn))) else b3)"
  define b5 where "b5 = mem_write b4 (24 + p) (word_mem 8 (enc64 (hdr_deltasize hdr + ds)))"
  define b6 where "b6 = mem_write b5 (32 + p) (word_mem 8 (enc64 (word_of_nat (hdr_bid hdr))))"
  define b7 where "b7 = mem_write b6 (40 + p) (word_mem 2 (enc16 (word_of_nat (length d))))"
  define b8 where "b8 = mem_write b7 (42 + p) (word_mem 8 (enc64 (fm_version file)))"
  have b: "b = mem_write b8 (50 + p) [BLK_MARKER_DBHEADER]"
    unfolding b_def header_block_def h r Let_def BLK_MARKER_SIZE_def b8_def b7_def b6_def b5_def b4_def b3_def by (simp add: h(1))
  have l3: "length b3 = p + 51" using assms(2) r p by (simp add: b3_def mem_simps)
  then have l4: "length b4 = p + 51" by (simp add: b4_def mem_simps)
  then have l5: "length b5 = p + 51" by (simp add: b5_def mem_simps)
  then have l6: "length b6 = p + 51" by (simp add: b6_def mem_simps)
  then have l7: "length b7 = p + 51" by (simp add: b7_def mem_simps)
  then have l8: "length b8 = p + 51" by (simp add: b8_def mem_simps)
  then show "length b = fm_blocksize file" unfolding b r by (simp add: mem_simps)
  show "b ! (fm_blocksize file - 1) = BLK_MARKER_DBHEADER" unfolding b r using l8 by (simp add: mem_simps)
  have "mem_read b (42 + p) 8 = word_mem 8 (enc64 (fm_version file))" unfolding b using l8 l7 by (simp add: mem_write_end b8_def mem_simps)
  then show "header_magic file b = fm_version file" unfolding header_magic_def r BLK_MARKER_SIZE_def by (simp add: mem_word_word_mem)
  have "mem_read b (40 + p) 2 = word_mem 2 (enc16 (word_of_nat (length d)))"
    unfolding b using l8 l7 l6 by (simp add: mem_write_end b8_def b7_def mem_simps)
  then show "header_length file b = length d" unfolding header_length_def r BLK_MARKER_SIZE_def using h(3) by (simp add: mem_word_word_mem unat_of_nat)
  have "mem_read b (32 + p) 8 = word_mem 8 (enc64 (word_of_nat (hdr_bid hdr)))"
    unfolding b using l8 l7 l6 l5 by (simp add: mem_write_end b8_def b7_def b6_def mem_simps)
  then show "header_prev_bid file b = hdr_bid hdr" if "hdr_bid hdr < 2 ^ 64"
    unfolding header_prev_bid_def r BLK_MARKER_SIZE_def using that by (simp add: mem_word_word_mem unat_of_nat)
  have low: "mem_read b i n = mem_read b3 i n" if "i + n \<le> length d + 16" for i n
    unfolding b b8_def b7_def b6_def b5_def b4_def using that p l8 l7 l6 l5 l4 l3
    by (simp add: mem_write_end b8_def b7_def b6_def b5_def b4_def length_mem_write)
  show "mem_read b (length d) 8 = word_mem 8 (enc64 (hdr_revnum hdr))" "mem_read b (length d + 8) 8 = word_mem 8 (enc64 (hdr_seqnum hdr))"
    using assms(2) r p by (simp_all add: low b3_def mem_simps)
  have "mem_read b 0 (length d) = d" using assms(2) r p by (simp add: low b3_def mem_simps)
  then show "take (length d) b = d" by (simp add: mem_read_def)
qed

lemma crc_prefix: "n \<le> length b \<Longrightarrow> take n b = take n d \<Longrightarrow> n \<le> length d \<Longrightarrow> crc32_8 b n 0 = crc32_8 d n 0"
  by (simp add: crc32_8_foldl)

lemma seal_check:
  assumes "sealed d" "take (length d) b = d" "length d \<le> length b"
  shows "detect_and_check_crc b (length d - 4) (dec32 (mem_word (mem_read b (length d - 4) 4))) = (True, CRC32)"
proof -
  have "mem_read b (length d - 4) 4 = drop (length d - 4) (take (length d) b)" using assms(1) by (simp add: mem_read_def drop_take sealed_def)
  also have "\<dots> = word_mem 4 (enc32 (crc32_8 d (length d - 4) 0))" using assms(1,2) by (simp add: sealed_def)
  finally have r: "dec32 (mem_word (mem_read b (length d - 4) 4)) = crc32_8 d (length d - 4) 0" by (simp add: mem_word_word_mem)
  have "take (length d - 4) b = take (length d - 4) (take (length d) b)" by (simp add: min_def)
  then have "take (length d - 4) b = take (length d - 4) d" using assms(2) by simp
  then have "crc32_8 b (length d - 4) 0 = crc32_8 d (length d - 4) 0" using crc_prefix [of "length d - 4" b d] assms(3) by simp
  then show ?thesis unfolding r by (simp add: detect_and_check_crc_def perform_integrity_check_def)
qed

text \<open>A block that holds a given header, whatever file it is in.\<close>

definition holds_header :: "nat \<Rightarrow> u64 \<Rightarrow> filemgr_header \<Rightarrow> nat \<Rightarrow> buf \<Rightarrow> bool" where
  "holds_header bs v hdr prev b \<longleftrightarrow> length b = bs \<and> (\<exists>d. hdr_ready bs hdr d \<and> b ! (bs - 1) = BLK_MARKER_DBHEADER \<and>
     (\<forall>f. fm_blocksize f = bs \<longrightarrow> header_magic f b = v \<and> header_length f b = length d \<and> header_prev_bid f b = prev) \<and>
     take (length d) b = d \<and> mem_read b (length d) 8 = word_mem 8 (enc64 (hdr_revnum hdr)) \<and>
     mem_read b (length d + 8) 8 = word_mem 8 (enc64 (hdr_seqnum hdr)))"

lemma header_block_holds:
  assumes "hdr_ready (fm_blocksize file) hdr d" "length tmp = fm_blocksize file" "hdr_bid hdr < 2 ^ 64"
  shows "holds_header (fm_blocksize file) (fm_version file) hdr (hdr_bid hdr) (header_block file hdr tmp rn ds)"
proof -
  note b = header_block_fields [OF assms(1,2) refl, of rn ds]
  let ?b = "header_block file hdr tmp rn ds"
  have "header_magic f ?b = fm_version file \<and> header_length f ?b = length d \<and> header_prev_bid f ?b = hdr_bid hdr"
    if f: "fm_blocksize f = fm_blocksize file" for f
    using b(3,4) b(8) [OF assms(3)] unfolding header_magic_def header_length_def header_prev_bid_def f by (intro conjI)
  then show ?thesis unfolding holds_header_def using b(1,2,5-7) assms(1) by blast
qed

definition recovered :: "filemgr_header \<Rightarrow> nat \<Rightarrow> filemgr_header" where
  "recovered hdr bid = hdr\<lparr>hdr_bid := bid, hdr_deltasize := 0\<rparr>"

lemma examine_holds:
  assumes "holds_header (fm_blocksize f) v hdr prev b" "ver_is_valid_magic v"
  shows "\<exists>w. examine_header f rule magic bid b =
    Accepted (f\<lparr>fm_crc_mode := CRC32, fm_last_writable_bmp_revnum := w\<rparr>) v (recovered hdr bid)"
proof -
  obtain d where d: "hdr_ready (fm_blocksize f) hdr d" "b ! (fm_blocksize f - 1) = BLK_MARKER_DBHEADER" "header_magic f b = v"
    "header_length f b = length d" "take (length d) b = d" "mem_read b (length d) 8 = word_mem 8 (enc64 (hdr_revnum hdr))"
    "mem_read b (length d + 8) 8 = word_mem 8 (enc64 (hdr_seqnum hdr))" "length b = fm_blocksize f"
    using assms(1) unfolding holds_header_def by blast
  have r: "sealed d" "4 \<le> length d" "length d + 16 \<le> fm_blocksize f" "hdr_data hdr = Some d" "hdr_size hdr = length d"
    using d(1) by (simp_all add: hdr_ready_def sealed_def)
  have c: "detect_and_check_crc b (length d - 4) (dec32 (mem_word (mem_read b (length d - 4) 4))) = (True, CRC32)"
    using seal_check [OF r(1) d(5)] r(3) d(8) by simp
  have "\<exists>w. (if ver_superblock_support v then (f\<lparr>fm_crc_mode := CRC32\<rparr>)\<lparr>fm_last_writable_bmp_revnum := x\<rparr> else f\<lparr>fm_crc_mode := CRC32\<rparr>) =
      f\<lparr>fm_crc_mode := CRC32, fm_last_writable_bmp_revnum := w\<rparr>" for x
    by (intro exI [of _ "if ver_superblock_support v then x else fm_last_writable_bmp_revnum f"]) simp
  then show ?thesis using assms(2) d r c
    by (simp add: examine_header_def BLK_MARKER_SIZE_def Let_def mem_word_word_mem recovered_def not_less)
qed

section \<open>Scanning for the last header\<close>

text \<open>A block that the scan passes over.\<close>

definition not_header :: "nat \<Rightarrow> buf \<Rightarrow> bool" where
  "not_header bs b \<longleftrightarrow> (\<forall>f. fm_blocksize f = bs \<longrightarrow> b ! (bs - 1) \<noteq> BLK_MARKER_DBHEADER \<or> \<not> ver_is_valid_magic (header_magic f b) \<or>
     4 \<le> header_length f b \<and> header_length f b \<le> bs \<and>
     crc32_8 b (header_length f b - 4) 0 \<noteq> dec32 (mem_word (mem_read b (header_length f b - 4) 4)))"

lemma examine_not_header:
  assumes "not_header (fm_blocksize f) b"
  shows "\<exists>st mode magic'. examine_header f rule magic bid b = Rejected st (f\<lparr>fm_crc_mode := mode\<rparr>) magic'"
proof -
  let ?m = "b ! (fm_blocksize f - 1) = BLK_MARKER_DBHEADER" and ?v = "ver_is_valid_magic (header_magic f b)" and ?l = "header_length f b"
  have id: "f = f\<lparr>fm_crc_mode := fm_crc_mode f\<rparr>" by simp
  have c: "\<not> ?m \<or> \<not> ?v \<or> 4 \<le> ?l \<and> ?l \<le> fm_blocksize f \<and> crc32_8 b (?l - 4) 0 \<noteq> dec32 (mem_word (mem_read b (?l - 4) 4))"
    using assms unfolding not_header_def by simp
  consider "\<not> ?m" | "?m" "\<not> ?v" | "?m" "?v" by blast
  then show ?thesis
  proof cases
    case 1
    then have "examine_header f rule magic bid b = Rejected FDB_RESULT_NO_DB_HEADERS f magic" by (simp add: examine_header_def BLK_MARKER_SIZE_def)
    then show ?thesis using id by metis
  next
    case 2
    then have "examine_header f rule magic bid b = Rejected FDB_RESULT_FILE_CORRUPTION f (header_magic f b)"
      by (simp add: examine_header_def BLK_MARKER_SIZE_def Let_def)
    then show ?thesis using id by metis
  next
    case 3
    then have "4 \<le> ?l" "?l \<le> fm_blocksize f" "detect_and_check_crc b (?l - 4) (dec32 (mem_word (mem_read b (?l - 4) 4))) = (False, CRC_UNKNOWN)"
      using c by (auto simp: detect_and_check_crc_def perform_integrity_check_def)
    then have "examine_header f rule magic bid b = Rejected FDB_RESULT_CHECKSUM_ERROR (f\<lparr>fm_crc_mode := CRC_UNKNOWN\<rparr>) (header_magic f b)"
      using 3 by (simp add: examine_header_def BLK_MARKER_SIZE_def Let_def)
    then show ?thesis by blast
  qed
qed

lemma scan_step:
  assumes "filemgr_read_block f bid = (b, int (fm_blocksize f))" "bid * fm_blocksize f < fm_pos f"
    "examine_header f rule magic bid b = Rejected st (f\<lparr>fm_crc_mode := mode\<rparr>) magic'" "bid \<noteq> 0" "bid - 1 \<noteq> h0"
  shows "read_header_loop (Suc fuel) f rule h0 bid magic =
    read_header_loop fuel (f\<lparr>fm_crc_mode := mode, fm_last_commit := bid * fm_blocksize f\<rparr>) rule h0 (bid - 1) magic'"
  using assms by (simp add: Let_def)

lemma scan_found:
  assumes "filemgr_read_block f bid = (b, int (fm_blocksize f))" "bid * fm_blocksize f < fm_pos f"
    "examine_header f rule magic bid b = Accepted f' v hdr"
  shows "read_header_loop (Suc fuel) f rule h0 bid magic = Some (Inr (FDB_RESULT_SUCCESS, f'\<lparr>fm_version := v\<rparr>, hdr))"
  using assms by (simp add: Let_def)

declare read_header_loop.simps(2) [simp del]

text \<open>From any place behind the last header the scan comes down to it.\<close>

lemma scan_down:
  assumes "\<And>j. j \<le> nb + k \<Longrightarrow> filemgr_read_block f j = (block f j, int (fm_blocksize f))" "(nb + k) * fm_blocksize f < fm_pos f" "holds_header (fm_blocksize f) v hdr prev (block f nb)" "ver_is_valid_magic v"
    "\<And>j. nb < j \<Longrightarrow> j \<le> nb + k \<Longrightarrow> not_header (fm_blocksize f) (block f j)" "k < fuel" "nb + k \<le> h0"
  shows "\<exists>w. read_header_loop fuel f rule h0 (nb + k) magic = Some (Inr (FDB_RESULT_SUCCESS,
    f\<lparr>fm_crc_mode := CRC32, fm_version := v, fm_last_writable_bmp_revnum := w, fm_last_commit := (if k = 0 then fm_last_commit f else (nb + 1) * fm_blocksize f)\<rparr>,
    recovered hdr nb))"
  using assms
proof (induction k arbitrary: f magic fuel)
  case 0
  obtain w where w: "examine_header f rule magic nb (block f nb) =
    Accepted (f\<lparr>fm_crc_mode := CRC32, fm_last_writable_bmp_revnum := w\<rparr>) v (recovered hdr nb)" using examine_holds [OF 0(3,4)] by blast
  have rb: "filemgr_read_block f nb = (block f nb, int (fm_blocksize f))" using 0(1) by simp
  obtain n where n: "fuel = Suc n" using 0(6) by (cases fuel) auto
  show ?case unfolding n using scan_found [OF rb _ w] 0(2) by (intro exI [of _ w]) simp
next
  case (Suc k)
  let ?bid = "nb + Suc k"
  have rb: "filemgr_read_block f ?bid = (block f ?bid, int (fm_blocksize f))" using Suc.prems(1) by simp
  have "not_header (fm_blocksize f) (block f ?bid)" using Suc.prems(5) [of ?bid] by simp
  then obtain st mode magic' where e: "examine_header f rule magic ?bid (block f ?bid) = Rejected st (f\<lparr>fm_crc_mode := mode\<rparr>) magic'"
    using examine_not_header by blast
  define f1 where "f1 = f\<lparr>fm_crc_mode := mode, fm_last_commit := ?bid * fm_blocksize f\<rparr>"
  obtain n where n: "fuel = Suc n" "k < n" using Suc.prems(6) by (cases fuel) auto
  have s: "read_header_loop fuel f rule h0 ?bid magic = read_header_loop n f1 rule h0 (nb + k) magic'"
    using scan_step [OF rb Suc.prems(2) e, of h0 n] Suc.prems(7) unfolding n f1_def by simp
  have f1: "fm_blocksize f1 = fm_blocksize f" "fm_pos f1 = fm_pos f" "\<And>j. block f1 j = block f j" "\<And>j. filemgr_read_block f1 j = filemgr_read_block f j"
    by (simp_all add: f1_def block_def filemgr_read_block_def)
  have p: "(nb + k) * fm_blocksize f1 < fm_pos f1" using Suc.prems(2) f1(1,2) by simp
  have "holds_header (fm_blocksize f1) v hdr prev (block f1 nb)" using Suc.prems(3) f1(1,3) by simp
  from Suc.IH [OF _ p this Suc.prems(4) _ n(2), of magic'] Suc.prems(1,5,7) f1(1,3,4)
  obtain w where w: "read_header_loop n f1 rule h0 (nb + k) magic' = Some (Inr (FDB_RESULT_SUCCESS,
      f1\<lparr>fm_crc_mode := CRC32, fm_version := v, fm_last_writable_bmp_revnum := w, fm_last_commit := (if k = 0 then fm_last_commit f1 else (nb + 1) * fm_blocksize f1)\<rparr>,
      recovered hdr nb))" by auto
  have "f1\<lparr>fm_crc_mode := CRC32, fm_version := v, fm_last_writable_bmp_revnum := w, fm_last_commit := (if k = 0 then fm_last_commit f1 else (nb + 1) * fm_blocksize f1)\<rparr> =
    f\<lparr>fm_crc_mode := CRC32, fm_version := v, fm_last_writable_bmp_revnum := w, fm_last_commit := (nb + 1) * fm_blocksize f\<rparr>" by (simp add: f1_def)
  then show ?case using s w by auto
qed

section \<open>Committing\<close>

lemma append_block:
  assumes "file_ok f" "length b = fm_blocksize f"
  shows "filemgr_write_blocks f b (fm_pos f div fm_blocksize f) = (fm_data f @ b, int (fm_blocksize f))"
proof -
  have ok: "fm_ops f = posix_ops" "fm_pos f mod fm_blocksize f = 0" "length (fm_data f) = fm_pos f" using assms(1) by (auto simp: file_ok_def)
  then have "fm_pos f div fm_blocksize f * fm_blocksize f = fm_pos f" by (simp add: mod_0_imp_dvd)
  then show ?thesis using ok assms(2) by (simp add: filemgr_write_blocks_def posix_ops_def posix_pwrite_def mem_write_def)
qed

definition no_reuse :: "superblock option \<Rightarrow> bool" where
  "no_reuse sb \<longleftrightarrow> (case sb of None \<Rightarrow> True | Some s \<Rightarrow> \<not> sb_bmp_exists s)"

text \<open>A commit appends a header block; everything that is in the file then counts as committed.\<close>

lemma commit_spec:
  assumes "file_ok f" "hdr_ready (fm_blocksize f) hdr d" "length tmp = fm_blocksize f" "hdr_bid hdr < 2 ^ 64" "no_reuse (fm_sb f)"
    and b_def: "b = header_block f hdr tmp (sb_get_bmp_revnum f) ds"
  shows "\<exists>sl. filemgr_commit f hdr tmp ds sync = Some (case sync of Some r \<Rightarrow> r | None \<Rightarrow> FDB_RESULT_SUCCESS,
      f\<lparr>fm_data := fm_data f @ b, fm_stale_list := sl, fm_pos := fm_pos f + fm_blocksize f, fm_last_commit := fm_pos f + fm_blocksize f\<rparr>,
      recovered hdr (fm_pos f div fm_blocksize f))"
    "length b = fm_blocksize f" "holds_header (fm_blocksize f) (fm_version f) hdr (hdr_bid hdr) b"
proof -
  show b: "length b = fm_blocksize f" using header_block_fields(1) [OF assms(2,3)] by (simp add: b_def)
  show "holds_header (fm_blocksize f) (fm_version f) hdr (hdr_bid hdr) b" unfolding b_def by (rule header_block_holds [OF assms(2-4)])
  define f1 where "f1 = f\<lparr>fm_data := fm_data f @ b\<rparr>"
  define f2 where "f2 = (if hdr_bid hdr \<noteq> 0 then filemgr_add_stale_block f1 (hdr_bid hdr * fm_blocksize f) (fm_blocksize f) else f1)"
  have "\<exists>sl. f2 = f\<lparr>fm_data := fm_data f @ b, fm_stale_list := sl\<rparr>"
  proof (cases "hdr_bid hdr \<noteq> 0 \<and> fm_stale_list f \<noteq> None")
    case True
    then show ?thesis by (auto simp: f2_def f1_def filemgr_add_stale_block_def)
  next
    case False
    then have "f2 = f\<lparr>fm_data := fm_data f @ b, fm_stale_list := fm_stale_list f\<rparr>" by (auto simp: f2_def f1_def filemgr_add_stale_block_def)
    then show ?thesis by blast
  qed
  then obtain sl where sl: "f2 = f\<lparr>fm_data := fm_data f @ b, fm_stale_list := sl\<rparr>" by blast
  have lc: "set_last_commit (f2\<lparr>fm_pos := fm_pos f2 + fm_blocksize f2\<rparr>) =
      f\<lparr>fm_data := fm_data f @ b, fm_stale_list := sl, fm_pos := fm_pos f + fm_blocksize f, fm_last_commit := fm_pos f + fm_blocksize f\<rparr>"
    using assms(5) by (simp add: sl set_last_commit_def no_reuse_def split: option.splits)
  have "\<not> fm_blocksize f < hdr_size hdr + 16" "hdr_size hdr > 0 \<and> hdr_data hdr \<noteq> None" using assms(2) by (auto simp: hdr_ready_def sealed_def)
  then have "filemgr_commit f hdr tmp ds sync = Some (case sync of Some r \<Rightarrow> r | None \<Rightarrow> FDB_RESULT_SUCCESS,
      set_last_commit (f2\<lparr>fm_pos := fm_pos f2 + fm_blocksize f2\<rparr>), recovered hdr (fm_pos f div fm_blocksize f))"
    using append_block [OF assms(1) b] unfolding filemgr_commit_def filemgr_commit_bid_def f2_def f1_def b_def
    by (simp add: Let_def recovered_def)
  then show "\<exists>sl. filemgr_commit f hdr tmp ds sync = Some (case sync of Some r \<Rightarrow> r | None \<Rightarrow> FDB_RESULT_SUCCESS,
      f\<lparr>fm_data := fm_data f @ b, fm_stale_list := sl, fm_pos := fm_pos f + fm_blocksize f, fm_last_commit := fm_pos f + fm_blocksize f\<rparr>,
      recovered hdr (fm_pos f div fm_blocksize f))" unfolding lc by blast
qed

section \<open>Opening after a crash\<close>

text \<open>What the superblock may say about headers: nothing yet.\<close>

definition no_hint :: "superblock option \<Rightarrow> nat \<Rightarrow> bool" where
  "no_hint sb nb \<longleftrightarrow> (case sb of None \<Rightarrow> True | Some s \<Rightarrow> last_hdr_bid s = BLK_NOT_FOUND \<and> num_sb s \<le> nb)"

lemma recover:
  assumes "0 < bs" "length D = (nb + 1) * bs" "holds_header bs v hdr prev (mem_read D (nb * bs) bs)" "ver_is_valid_magic v"
    "\<And>j. j < length junk div bs \<Longrightarrow> not_header bs (mem_read junk (j * bs) bs)" "no_hint sb nb"
    and f: "f = filemgr_opened bs posix_ops sb th kp (D @ junk)"
  shows "\<exists>w. filemgr_read_header f = Some (Inr (FDB_RESULT_SUCCESS,
    f\<lparr>fm_pos := (nb + 1 + length junk div bs) * bs, fm_crc_mode := CRC32, fm_version := v, fm_last_writable_bmp_revnum := w, fm_last_commit := (nb + 1) * bs\<rparr>,
    recovered hdr nb))"
proof -
  let ?m = "length junk div bs" and ?r = "length junk mod bs"
  have fp: "fm_pos f = (nb + 1 + ?m) * bs + ?r" "fm_blocksize f = bs" "fm_ops f = posix_ops" "fm_data f = D @ junk" "fm_sb f = sb" "fm_crc_mode f = CRC32"
    using assms(2) by (simp_all add: f filemgr_opened_def CRC_DEFAULT_def algebra_simps)
  have "fm_pos f mod bs = ?r" unfolding fp(1) by (simp only: mod_mult_self3 mod_mod_trivial)
  moreover have "fm_pos f div bs = nb + 1 + ?m" unfolding fp(1) using assms(1) div_mult_self3 [of bs "nb + 1 + ?m" ?r] by simp
  moreover have "fm_last_commit f = fm_pos f" by (simp add: f filemgr_opened_def)
  ultimately have dm: "fm_pos f mod bs = ?r" "fm_pos f div bs = nb + 1 + ?m" "fm_last_commit f = fm_pos f" .
  define f1 where "f1 = f\<lparr>fm_pos := (nb + 1 + ?m) * bs, fm_last_commit := (nb + 1 + ?m) * bs\<rparr>"
  have f1: "(if fm_pos f mod bs \<noteq> 0 then f\<lparr>fm_pos := fm_pos f - fm_pos f mod bs, fm_last_commit := fm_pos f - fm_pos f mod bs\<rparr> else f) = f1"
  proof (cases "?r = 0")
    case True
    then show ?thesis using fp(1) dm by (simp add: f1_def)
  next
    case False
    then show ?thesis using fp(1) dm(1) by (simp add: f1_def)
  qed
  have g: "fm_blocksize f1 = bs" "fm_pos f1 = (nb + 1 + ?m) * bs" "fm_data f1 = D @ junk" "fm_ops f1 = posix_ops" using fp by (simp_all add: f1_def)
  have inD: "block f1 j = mem_read D (j * bs) bs" if "j \<le> nb" for j
  proof -
    have "j * bs + bs \<le> length D" using mult_le_mono1 [of "j + 1" "nb + 1" bs] that assms(2) by simp
    then show ?thesis using g by (simp add: block_def mem_read_def)
  qed
  have inJ: "block f1 (nb + 1 + j) = mem_read junk (j * bs) bs" for j
    using g assms(2) by (simp add: block_def mem_read_def add_mult_distrib)
  have rb: "filemgr_read_block f1 j = (block f1 j, int (fm_blocksize f1))" if "j \<le> nb + ?m" for j
  proof -
    have "j * bs + bs \<le> (nb + 1 + ?m) * bs" using mult_le_mono1 [of "j + 1" "nb + 1 + ?m" bs] that by simp
    also have "\<dots> \<le> length (D @ junk)" using assms(2) by (simp add: algebra_simps)
    finally have "length (mem_read (D @ junk) (j * bs) bs) = bs" by (rule length_mem_read)
    then show ?thesis using g by (simp add: filemgr_read_block_def posix_ops_def posix_pread_def block_def mult.commute)
  qed
  have junk: "not_header (fm_blocksize f1) (block f1 j)" if "nb < j" "j \<le> nb + ?m" for j
    using assms(5) [of "j - nb - 1"] inJ [of "j - nb - 1"] that g(1) by simp
  have "holds_header (fm_blocksize f1) v hdr prev (block f1 nb)" using assms(3) inD g(1) by simp
  from scan_down [OF rb _ this assms(4) junk, of ?m "Suc (fm_pos f1 div fm_blocksize f1)" "nb + ?m" "fm_crc_mode f = CRC32" ver_get_latest_magic]
  obtain w where w: "read_header_loop (Suc (fm_pos f1 div fm_blocksize f1)) f1 (fm_crc_mode f = CRC32) (nb + ?m) (nb + ?m) ver_get_latest_magic =
      Some (Inr (FDB_RESULT_SUCCESS, f1\<lparr>fm_crc_mode := CRC32, fm_version := v, fm_last_writable_bmp_revnum := w,
        fm_last_commit := (if ?m = 0 then fm_last_commit f1 else (nb + 1) * fm_blocksize f1)\<rparr>, recovered hdr nb))"
    using g(1,2) assms(1) by auto
  have mf: "(case sb of None \<Rightarrow> 0 | Some s \<Rightarrow> num_sb s * bs) < fm_pos f"
  proof -
    have p: "nb * bs < fm_pos f" using assms(1) fp(1) by (simp add: algebra_simps)
    have "num_sb s * bs \<le> nb * bs" if "sb = Some s" for s using assms(6) that by (simp add: no_hint_def)
    then have "(case sb of None \<Rightarrow> 0 | Some s \<Rightarrow> num_sb s * bs) \<le> nb * bs" by (cases sb) simp_all
    with p show ?thesis by linarith
  qed
  have "filemgr_read_header f = read_header_loop (Suc (fm_pos f1 div fm_blocksize f1)) f1 (fm_crc_mode f = CRC32) (nb + ?m) (nb + ?m) ver_get_latest_magic"
    using mf assms(6) dm(2) unfolding filemgr_read_header_def Let_def fp(2,5) f1 by (auto simp: no_hint_def split: option.splits)
  moreover have "f1\<lparr>fm_crc_mode := CRC32, fm_version := v, fm_last_writable_bmp_revnum := w,
        fm_last_commit := (if ?m = 0 then fm_last_commit f1 else (nb + 1) * fm_blocksize f1)\<rparr> =
      f\<lparr>fm_pos := (nb + 1 + ?m) * bs, fm_crc_mode := CRC32, fm_version := v, fm_last_writable_bmp_revnum := w, fm_last_commit := (nb + 1) * bs\<rparr>"
    using g(1) by (simp add: f1_def)
  ultimately show ?thesis using w by auto
qed

section \<open>The fields of a database header\<close>

text \<open>What an old file format cannot keep is lost, and file names get their terminating zero.\<close>

definition header_view :: "u64 \<Rightarrow> fdb_header \<Rightarrow> fdb_header" where
  "header_view v h = h\<lparr>stale_root_bid := (if ver_staletree_support v then stale_root_bid h else word_of_nat BLK_NOT_FOUND),
     ndeletes := (if ver_is_atleast_magic_001 v then ndeletes h else 0),
     new_filename := map_option (\<lambda>s. s @ [0]) (new_filename h), old_filename := map_option (\<lambda>s. s @ [0]) (old_filename h)\<rparr>"

definition names_ok :: "fdb_header \<Rightarrow> bool" where
  "names_ok h \<longleftrightarrow> (\<forall>s. new_filename h = Some s \<or> old_filename h = Some s \<longrightarrow> length s + 1 < 2 ^ 16)"

lemma take64_mem [simp]: "take64 (word_mem 8 (enc64 x) @ b) = (x, b)"
  by (simp add: take64_def mem_word_word_mem)

lemma take16_mem [simp]: "take16 (word_mem 2 (enc16 x) @ b) = (x, b)"
  by (simp add: take16_def mem_word_word_mem)

lemma filename_fields:
  assumes "\<And>s. name = Some s \<Longrightarrow> length s + 1 < 2 ^ 16"
  shows "filename_mem name = (case name of None \<Rightarrow> [] | Some s \<Rightarrow> s @ [0])" "unat (filename_len name) = length (filename_mem name)"
    "filename_len name \<noteq> 0 \<longleftrightarrow> name \<noteq> None"
proof -
  have u: "unat (word_of_nat (length s + 1) :: u16) = length s + 1" if "name = Some s" for s unfolding unat_of_nat using assms [OF that] by simp
  show m: "filename_mem name = (case name of None \<Rightarrow> [] | Some s \<Rightarrow> s @ [0])" using u by (auto simp: filename_mem_def filename_len_def split: option.splits)
  show l: "unat (filename_len name) = length (filename_mem name)" using u unfolding m by (auto simp: filename_len_def split: option.splits)
  have "filename_len name \<noteq> 0 \<longleftrightarrow> unat (filename_len name) \<noteq> 0" by (simp add: unat_eq_0)
  then show "filename_len name \<noteq> 0 \<longleftrightarrow> name \<noteq> None" unfolding l m by (auto split: option.splits)
qed

lemma fetch_header_body:
  assumes "names_ok h"
  shows "fdb_fetch_header v (header_body v h @ rest) = header_view v h"
proof -
  note n = filename_fields [of "new_filename h"] and o = filename_fields [of "old_filename h"]
  have nn: "\<And>s. new_filename h = Some s \<Longrightarrow> length s + 1 < 2 ^ 16" and oo: "\<And>s. old_filename h = Some s \<Longrightarrow> length s + 1 < 2 ^ 16"
    using assms by (auto simp: names_ok_def)
  note n = n [OF nn] and o = o [OF oo]
  have a: "(if filename_len (new_filename h) \<noteq> 0 then Some (take (unat (filename_len (new_filename h))) (filename_mem (new_filename h) @ r)) else None) =
      map_option (\<lambda>s. s @ [0]) (new_filename h)" for r
    using n by (cases "new_filename h") simp_all
  have b: "(if filename_len (old_filename h) \<noteq> 0 then Some (take (unat (filename_len (old_filename h)))
        (drop (unat (filename_len (new_filename h))) (filename_mem (new_filename h) @ filename_mem (old_filename h) @ r))) else None) =
      map_option (\<lambda>s. s @ [0]) (old_filename h)" for r
    using n(2) o by (cases "old_filename h") simp_all
  show ?thesis
    unfolding fdb_fetch_header_def header_body_def Let_def
    by (cases "ver_staletree_support v"; cases "ver_is_atleast_magic_001 v") (simp_all add: a b header_view_def)
qed

lemma set_header_ready:
  assumes "fm_crc_mode f = CRC32" "length (header_body (fm_version f) h) + 55 \<le> fm_blocksize f" "fm_blocksize f \<le> 2 ^ 16"
  shows "\<exists>d hdr'. fdb_set_file_header f hdr h inc = Some (hdr_revnum hdr', hdr') \<and> hdr_ready (fm_blocksize f) hdr' d \<and>
    (\<exists>c. d = header_body (fm_version f) h @ c) \<and> hdr_revnum hdr' = (if inc then hdr_revnum hdr + 1 else hdr_revnum hdr) \<and>
    hdr_seqnum hdr' = hdr_seqnum hdr \<and> hdr_bid hdr' = hdr_bid hdr"
proof -
  let ?b = "header_body (fm_version f) h"
  define c where "c = word_mem 4 (enc32 (crc32_8 ?b (length ?b) 0))"
  have "crc32_8 (?b @ c) (length ?b) 0 = crc32_8 ?b (length ?b) 0" by (rule crc_prefix) simp_all
  then have "sealed (?b @ c)" by (simp add: sealed_def c_def)
  then have "hdr_ready (fm_blocksize f) (snd (filemgr_update_header hdr (?b @ c) inc)) (?b @ c)"
    using assms(2,3) by (simp add: hdr_ready_def filemgr_update_header_def Let_def c_def)
  moreover have "fdb_set_file_header f hdr h inc = Some (filemgr_update_header hdr (?b @ c) inc)"
    using assms(1) by (simp add: fdb_set_file_header_def get_checksum_mode_def get_checksum_def c_def Let_def)
  ultimately show ?thesis
    by (intro exI [of _ "?b @ c"] exI [of _ "snd (filemgr_update_header hdr (?b @ c) inc)"]) (auto simp: filemgr_update_header_def Let_def)
qed

section \<open>The chain\<close>

lemma holds_fields:
  assumes "holds_header (fm_blocksize f) v hdr prev b" "ver_is_valid_magic v"
  shows "fh_data (header_fields f b) = the (hdr_data hdr)" "fh_revnum (header_fields f b) = hdr_revnum hdr" "fh_seqnum (header_fields f b) = hdr_seqnum hdr"
    "fh_version (header_fields f b) = v" "header_prev_bid f b = prev" "filemgr_is_commit_header f b" "b ! (fm_blocksize f - 1) \<noteq> BLK_MARKER_BNODE"
    "b ! (fm_blocksize f - 1) = BLK_MARKER_DBHEADER" "header_magic f b = v"
proof -
  obtain d where d: "hdr_ready (fm_blocksize f) hdr d" "b ! (fm_blocksize f - 1) = BLK_MARKER_DBHEADER" "header_magic f b = v"
    "header_length f b = length d" "take (length d) b = d" "mem_read b (length d) 8 = word_mem 8 (enc64 (hdr_revnum hdr))"
    "mem_read b (length d + 8) 8 = word_mem 8 (enc64 (hdr_seqnum hdr))" "header_prev_bid f b = prev"
    using assms(1) unfolding holds_header_def by blast
  then show "fh_data (header_fields f b) = the (hdr_data hdr)" "fh_revnum (header_fields f b) = hdr_revnum hdr" "fh_seqnum (header_fields f b) = hdr_seqnum hdr"
    "fh_version (header_fields f b) = v" "header_prev_bid f b = prev" "filemgr_is_commit_header f b" "b ! (fm_blocksize f - 1) \<noteq> BLK_MARKER_BNODE"
    "b ! (fm_blocksize f - 1) = BLK_MARKER_DBHEADER" "header_magic f b = v"
    using assms(2) by (simp_all add: header_fields_def Let_def hdr_ready_def mem_word_word_mem filemgr_is_commit_header_def
      BLK_MARKER_SIZE_def BLK_MARKER_DBHEADER_def BLK_MARKER_BNODE_def)
qed

text \<open>The file after a commit.\<close>

lemma committed:
  assumes "file_ok f" "hdr_ready (fm_blocksize f) hdr d" "length tmp = fm_blocksize f" "hdr_bid hdr < 2 ^ 64" "no_reuse (fm_sb f)"
    "filemgr_commit f hdr tmp ds None = Some (st, f1, hdr1)"
  shows "st = FDB_RESULT_SUCCESS" "hdr1 = recovered hdr (fm_pos f div fm_blocksize f)" "file_ok f1" "fm_blocksize f1 = fm_blocksize f"
    "fm_version f1 = fm_version f" "fm_sb f1 = fm_sb f" "fm_pos f1 = fm_pos f + fm_blocksize f" "fm_last_commit f1 = fm_pos f1" "fm_crc_mode f1 = fm_crc_mode f"
    "holds_header (fm_blocksize f) (fm_version f) hdr (hdr_bid hdr) (block f1 (fm_pos f div fm_blocksize f))"
    "\<And>b. b * fm_blocksize f < fm_pos f \<Longrightarrow> block f1 b = block f b"
proof -
  define b where "b = header_block f hdr tmp (sb_get_bmp_revnum f) ds"
  note cs = commit_spec [OF assms(1-5) b_def]
  obtain sl where f1: "f1 = f\<lparr>fm_data := fm_data f @ b, fm_stale_list := sl, fm_pos := fm_pos f + fm_blocksize f, fm_last_commit := fm_pos f + fm_blocksize f\<rparr>"
    and st: "st = FDB_RESULT_SUCCESS" "hdr1 = recovered hdr (fm_pos f div fm_blocksize f)"
    using cs(1) [of None] assms(6) by auto
  have ok: "fm_ops f = posix_ops" "DOCBLK_META_SIZE < fm_blocksize f" "fm_pos f mod fm_blocksize f = 0" "length (fm_data f) = fm_pos f"
    using assms(1) by (auto simp: file_ok_def)
  show "st = FDB_RESULT_SUCCESS" "hdr1 = recovered hdr (fm_pos f div fm_blocksize f)" by (fact st)+
  show "file_ok f1" using ok cs(2) by (simp add: f1 file_ok_def)
  show "fm_blocksize f1 = fm_blocksize f" "fm_version f1 = fm_version f" "fm_sb f1 = fm_sb f" "fm_pos f1 = fm_pos f + fm_blocksize f"
    "fm_last_commit f1 = fm_pos f1" "fm_crc_mode f1 = fm_crc_mode f" by (simp_all add: f1)
  have "fm_pos f div fm_blocksize f * fm_blocksize f = fm_pos f" using ok(3) by (simp add: mod_0_imp_dvd)
  then have "block f1 (fm_pos f div fm_blocksize f) = b" using ok(4) cs(2) by (simp add: f1 block_def mem_read_def)
  then show "holds_header (fm_blocksize f) (fm_version f) hdr (hdr_bid hdr) (block f1 (fm_pos f div fm_blocksize f))" using cs(3) by simp
  show "block f1 b = block f b" if "b * fm_blocksize f < fm_pos f" for b
    using block_inside [OF assms(1) that] by (simp add: f1 block_def mem_read_def)
qed

section \<open>The properties\<close>

text \<open>Blocks without the marker of a header do not change the checksum mode.\<close>

lemma scan_unmarked:
  assumes "\<And>j. j \<le> k \<Longrightarrow> filemgr_read_block f j = (block f j, int (fm_blocksize f)) \<and> block f j ! (fm_blocksize f - 1) \<noteq> BLK_MARKER_DBHEADER"
    "k * fm_blocksize f < fm_pos f" "fm_pos f div fm_blocksize f - 1 = h0" "k < h0" "k < fuel"
  shows "read_header_loop fuel f rule h0 k magic = Some (Inr (FDB_RESULT_NO_DB_HEADERS, f\<lparr>fm_last_commit := 0, fm_version := magic\<rparr>, no_header))"
  using assms
proof (induction k arbitrary: f fuel)
  case 0
  obtain n where n: "fuel = Suc n" using 0(5) by (cases fuel) auto
  have rb: "filemgr_read_block f 0 = (block f 0, int (fm_blocksize f))" "block f 0 ! (fm_blocksize f - 1) \<noteq> BLK_MARKER_DBHEADER" using 0(1) [of 0] by simp_all
  have e: "examine_header f rule magic 0 (block f 0) = Rejected FDB_RESULT_NO_DB_HEADERS f magic" using rb(2) by (simp add: examine_header_def BLK_MARKER_SIZE_def)
  show ?case unfolding n read_header_loop.simps(2) rb(1) Let_def using 0(2,3) by (simp add: e)
next
  case (Suc k)
  obtain n where n: "fuel = Suc n" "k < n" using Suc.prems(5) by (cases fuel) auto
  let ?f = "f\<lparr>fm_crc_mode := fm_crc_mode f, fm_last_commit := Suc k * fm_blocksize f\<rparr>"
  have rb: "filemgr_read_block f (Suc k) = (block f (Suc k), int (fm_blocksize f))" "block f (Suc k) ! (fm_blocksize f - 1) \<noteq> BLK_MARKER_DBHEADER"
    using Suc.prems(1) [of "Suc k"] by simp_all
  have e: "examine_header f rule magic (Suc k) (block f (Suc k)) = Rejected FDB_RESULT_NO_DB_HEADERS (f\<lparr>fm_crc_mode := fm_crc_mode f\<rparr>) magic"
    using rb(2) by (simp add: examine_header_def BLK_MARKER_SIZE_def)
  have s: "read_header_loop fuel f rule h0 (Suc k) magic = read_header_loop n ?f rule h0 k magic"
    using scan_step [OF rb(1) Suc.prems(2) e, of h0 n] Suc.prems(4) by (simp add: n(1))
  have "read_header_loop n ?f rule h0 k magic = Some (Inr (FDB_RESULT_NO_DB_HEADERS, ?f\<lparr>fm_last_commit := 0, fm_version := magic\<rparr>, no_header))"
    using Suc.prems n(2) by (intro Suc.IH) (auto simp: filemgr_read_block_def block_def)
  then show ?case unfolding s by simp
qed

text \<open>The scan goes around the file at most once.\<close>

definition blocks_left :: "nat \<Rightarrow> nat \<Rightarrow> nat \<Rightarrow> nat" where
  "blocks_left n h0 bid = (if bid \<le> h0 then bid + n - h0 else bid - h0)"

lemma examine_frame: "examine_header f rule magic bid b = Rejected st f1 magic1 \<Longrightarrow> fm_pos f1 = fm_pos f \<and> fm_blocksize f1 = fm_blocksize f"
  by (auto simp: examine_header_def Let_def split: if_splits prod.splits)

lemma scan_returns:
  assumes "0 < fm_blocksize f" "fm_pos f = n * fm_blocksize f" "h0 < n \<or> n \<le> bid" "blocks_left n h0 bid \<le> fuel" "0 < fuel"
  shows "read_header_loop fuel f rule h0 bid magic \<noteq> None"
  using assms
proof (induction fuel arbitrary: f bid magic)
  case (Suc fuel)
  obtain b rv where rb: "filemgr_read_block f bid = (b, rv)" by (cases "filemgr_read_block f bid")
  show ?case
  proof (cases "fm_pos f \<le> bid * fm_blocksize f \<or> rv \<noteq> int (fm_blocksize f)")
    case True
    then show ?thesis by (auto simp: read_header_loop.simps(2) Let_def rb)
  next
    case False
    then have bn: "bid < n" "h0 < n" using Suc.prems(1-3) by auto
    show ?thesis
    proof (cases "examine_header f rule magic bid b")
      case (Rejected st f1 magic1)
      define nx where "nx = (if bid \<noteq> 0 then bid - 1 else n - 1)"
      define f2 where "f2 = f1\<lparr>fm_last_commit := bid * fm_blocksize f\<rparr>"
      have f2: "fm_pos f2 = n * fm_blocksize f2" "fm_blocksize f2 = fm_blocksize f" "fm_pos f2 div fm_blocksize f2 = n"
        using examine_frame [OF Rejected] Suc.prems(1,2) by (simp_all add: f2_def)
      have "nx = h0 \<or> blocks_left n h0 nx < blocks_left n h0 bid \<and> 0 < blocks_left n h0 nx" using bn by (auto simp: nx_def blocks_left_def)
      then have "nx = h0 \<or> read_header_loop fuel f2 rule h0 nx magic1 \<noteq> None" using Suc.IH [of f2 nx magic1] Suc.prems(1,4) f2 bn by auto
      then show ?thesis using False f2(3) unfolding read_header_loop.simps(2) rb Let_def f2_def nx_def by (auto simp: Rejected)
    qed (use False in \<open>simp_all add: read_header_loop.simps(2) rb Let_def\<close>)
  qed
qed simp

lemma recovered_commit:
  assumes "file_ok f" "fm_crc_mode f = CRC32" "ver_is_valid_magic (fm_version f)" "no_reuse (fm_sb f)" "fm_blocksize f \<le> 2 ^ 16"
    "length tmp = fm_blocksize f" "hdr_bid hdr < 2 ^ 64" "names_ok h" "length (header_body (fm_version f) h) + 55 \<le> fm_blocksize f"
    "no_hint sb (fm_pos f div fm_blocksize f)" "\<forall>j < length junk div fm_blocksize f. not_header (fm_blocksize f) (mem_read junk (j * fm_blocksize f) (fm_blocksize f))"
  shows "\<exists>rn hdr1 f1 hdr2 f2 hdr3 b w. fdb_set_file_header f hdr h True = Some (rn, hdr1) \<and>
    filemgr_commit f hdr1 tmp ds None = Some (FDB_RESULT_SUCCESS, f1, hdr2) \<and>
    filemgr_read_header (filemgr_opened (fm_blocksize f) posix_ops sb th kp (fm_data f1 @ junk)) = Some (Inr (FDB_RESULT_SUCCESS, f2, hdr3)) \<and>
    fdb_fetch_header (fm_version f) (the (hdr_data hdr3)) = header_view (fm_version f) h \<and>
    hdr_revnum hdr3 = hdr_revnum hdr + 1 \<and> hdr_seqnum hdr3 = hdr_seqnum hdr \<and> hdr_bid hdr3 = fm_pos f div fm_blocksize f \<and>
    fm_data f1 = fm_data f @ b \<and> length b = fm_blocksize f \<and> fm_pos f1 = fm_pos f + fm_blocksize f \<and>
    f2 = (filemgr_opened (fm_blocksize f) posix_ops sb th kp (fm_data f1 @ junk))\<lparr>fm_pos := fm_pos f1 + length junk div fm_blocksize f * fm_blocksize f,
      fm_crc_mode := CRC32, fm_version := fm_version f, fm_last_writable_bmp_revnum := w, fm_last_commit := fm_pos f1\<rparr>"
proof -
  let ?bs = "fm_blocksize f" and ?nb = "fm_pos f div fm_blocksize f"
  obtain d hdr1 c where h: "fdb_set_file_header f hdr h True = Some (hdr_revnum hdr1, hdr1)" "hdr_ready ?bs hdr1 d" "d = header_body (fm_version f) h @ c"
    "hdr_revnum hdr1 = hdr_revnum hdr + 1" "hdr_seqnum hdr1 = hdr_seqnum hdr" "hdr_bid hdr1 = hdr_bid hdr"
    using set_header_ready [OF assms(2,9,5), of hdr True] by auto
  define b where "b = header_block f hdr1 tmp (sb_get_bmp_revnum f) ds"
  have h1: "hdr_bid hdr1 < 2 ^ 64" using h(6) assms(7) by simp
  note cs = commit_spec [OF assms(1) h(2) assms(6) h1 assms(4) b_def]
  obtain sl where c1: "filemgr_commit f hdr1 tmp ds None = Some (FDB_RESULT_SUCCESS,
      f\<lparr>fm_data := fm_data f @ b, fm_stale_list := sl, fm_pos := fm_pos f + ?bs, fm_last_commit := fm_pos f + ?bs\<rparr>, recovered hdr1 ?nb)"
    using cs(1) [of None] by auto
  have ok: "0 < ?bs" "?nb * ?bs = fm_pos f" "length (fm_data f) = fm_pos f" using assms(1) by (auto simp: file_ok_def mod_0_imp_dvd)
  have D: "length (fm_data f @ b) = (?nb + 1) * ?bs" "mem_read (fm_data f @ b) (?nb * ?bs) ?bs = b" using ok cs(2) by (simp_all add: mem_read_def)
  obtain w where r: "filemgr_read_header (filemgr_opened ?bs posix_ops sb th kp ((fm_data f @ b) @ junk)) = Some (Inr (FDB_RESULT_SUCCESS,
      (filemgr_opened ?bs posix_ops sb th kp ((fm_data f @ b) @ junk))\<lparr>fm_pos := (?nb + 1 + length junk div ?bs) * ?bs, fm_crc_mode := CRC32,
        fm_version := fm_version f, fm_last_writable_bmp_revnum := w, fm_last_commit := (?nb + 1) * ?bs\<rparr>, recovered hdr1 ?nb))"
    using recover [OF ok(1) D(1) _ assms(3) _ assms(10) refl] cs(3) assms(11) unfolding D(2) by blast
  have "hdr_data (recovered hdr1 ?nb) = Some d" using h(2) by (simp add: hdr_ready_def recovered_def)
  moreover have "fdb_fetch_header (fm_version f) d = header_view (fm_version f) h" unfolding h(3) by (rule fetch_header_body [OF assms(8)])
  moreover have "(?nb + 1) * ?bs = fm_pos f + ?bs" "(?nb + 1 + length junk div ?bs) * ?bs = fm_pos f + ?bs + length junk div ?bs * ?bs"
    using ok(2) by (simp_all add: add_mult_distrib)
  ultimately show ?thesis
    using h(1,4,5) c1 r cs(2) by (intro exI conjI) (assumption | simp add: recovered_def filemgr_opened_def)+
qed

text \<open>
  C2. A commit survives a crash. A database puts its fields into the header and commits; then any bytes
  follow in the file, whole blocks that are not intact headers and a broken last block. Opening the
  file finds the committed header: its fields, the revision and sequence numbers and its block. What
  was in the file before the commit is there, the broken last block is cut off, and exactly the file up
  to the header counts as committed.
\<close>

theorem crash_recovery:
  assumes "file_ok f" "fm_crc_mode f = CRC32" "ver_is_valid_magic (fm_version f)" "no_reuse (fm_sb f)" "fm_blocksize f \<le> 2 ^ 16"
    "length tmp = fm_blocksize f" "hdr_bid hdr < 2 ^ 64" "names_ok h" "length (header_body (fm_version f) h) + 55 \<le> fm_blocksize f"
    "no_hint sb (fm_pos f div fm_blocksize f)" "\<forall>j < length junk div fm_blocksize f. not_header (fm_blocksize f) (mem_read junk (j * fm_blocksize f) (fm_blocksize f))"
  shows "\<exists>rn hdr1 f1 hdr2 f2 hdr3. fdb_set_file_header f hdr h True = Some (rn, hdr1) \<and>
    filemgr_commit f hdr1 tmp ds None = Some (FDB_RESULT_SUCCESS, f1, hdr2) \<and>
    filemgr_read_header (filemgr_opened (fm_blocksize f) posix_ops sb th kp (fm_data f1 @ junk)) = Some (Inr (FDB_RESULT_SUCCESS, f2, hdr3)) \<and>
    fdb_fetch_header (fm_version f2) (the (hdr_data hdr3)) = header_view (fm_version f) h \<and>
    hdr_revnum hdr3 = hdr_revnum hdr + 1 \<and> hdr_seqnum hdr3 = hdr_seqnum hdr \<and> hdr_bid hdr3 = fm_pos f div fm_blocksize f \<and>
    fm_last_commit f2 = fm_pos f1 \<and> fm_pos f2 = fm_pos f1 + length junk div fm_blocksize f * fm_blocksize f \<and> take (fm_pos f) (fm_data f2) = fm_data f"
proof -
  have "length (fm_data f) = fm_pos f" using assms(1) by (simp add: file_ok_def)
  then show ?thesis using recovered_commit [OF assms, of ds th kp] by (elim exE conjE) (intro exI conjI, assumption+, simp_all add: filemgr_opened_def)
qed

definition header_file :: filemgr where
  "header_file = small_file\<lparr>fm_blocksize := 256, fm_pos := 512, fm_data := replicate 512 0\<rparr>"

definition example_header :: fdb_header where
  "example_header = \<lparr>trie_root_bid = 1, seq_root_bid = 2, stale_root_bid = 3, ndocs = 4, ndeletes = 5, nlivenodes = 6, datasize = 7,
     last_wal_flush_hdr_bid = 8, kv_info_offset = 9, header_flags = 10, new_filename = None, old_filename = Some [100, 98]\<rparr>"

lemma header_file_ok:
  "file_ok header_file" "fm_crc_mode header_file = CRC32" "ver_is_valid_magic (fm_version header_file)" "no_reuse (fm_sb header_file)"
  "fm_blocksize header_file = 256" "fm_pos header_file = 512"
  by (simp_all add: header_file_def small_file_def file_ok_def DOCBLK_META_SIZE_def no_reuse_def ver_is_valid_magic_def
    ver_get_latest_magic_def FILEMGR_LATEST_MAGIC_def FILEMGR_MAGIC_001_def FILEMGR_MAGIC_002_def)

lemma example_header_ok: "names_ok example_header" "length (header_body v example_header) \<le> 87"
  by (simp_all add: names_ok_def example_header_def header_body_def filename_mem_def filename_len_def)

theorem crash_recovery_witness:
  "\<exists>rn hdr1 f1 hdr2 f2 hdr3. fdb_set_file_header header_file no_header example_header True = Some (rn, hdr1) \<and>
    filemgr_commit header_file hdr1 (replicate 256 0) 0 None = Some (FDB_RESULT_SUCCESS, f1, hdr2) \<and>
    filemgr_read_header (filemgr_opened 256 posix_ops None 0 0 (fm_data f1 @ replicate 300 0xdd)) = Some (Inr (FDB_RESULT_SUCCESS, f2, hdr3)) \<and>
    trie_root_bid (fdb_fetch_header (fm_version f2) (the (hdr_data hdr3))) = 1 \<and> hdr_revnum hdr3 = 1 \<and> hdr_bid hdr3 = 2"
proof -
  have "not_header 256 (mem_read (replicate 300 0xdd) 0 256)" by (simp add: not_header_def mem_read_def BLK_MARKER_DBHEADER_def)
  then have j: "\<forall>j < length (replicate 300 0xdd :: buf) div fm_blocksize header_file.
      not_header (fm_blocksize header_file) (mem_read (replicate 300 0xdd) (j * fm_blocksize header_file) (fm_blocksize header_file))"
    by (simp add: header_file_ok(5))
  have l: "length (header_body (fm_version header_file) example_header) + 55 \<le> fm_blocksize header_file"
    using example_header_ok(2) [of "fm_version header_file"] header_file_ok(5) by simp
  have "no_hint None (fm_pos header_file div fm_blocksize header_file)" by (simp add: no_hint_def)
  from crash_recovery [OF header_file_ok(1-4) _ _ _ example_header_ok(1) l this j, of "replicate 256 0" no_header 0 0 0]
  show ?thesis unfolding header_file_ok(5,6) by (fastforce simp: no_header_def header_view_def example_header_def)
qed

text \<open>
  C38. Opening ends on every file: whatever the contents, the backward scan for a header visits each block
  at most once, also when it goes around the end of the file.
\<close>

theorem filemgr_read_header_returns:
  assumes "0 < fm_blocksize f"
  shows "\<exists>r. filemgr_read_header f = Some r"
proof -
  define f1 where "f1 = (let remain = fm_pos f mod fm_blocksize f in
    if remain \<noteq> 0 then f\<lparr>fm_pos := fm_pos f - remain, fm_last_commit := fm_pos f - remain\<rparr> else f)"
  let ?n = "fm_pos f div fm_blocksize f"
  have f1: "fm_blocksize f1 = fm_blocksize f" "fm_pos f1 = ?n * fm_blocksize f1"
    by (simp_all add: f1_def Let_def minus_mod_eq_div_mult mod_0_imp_dvd)
  then have n: "fm_pos f1 div fm_blocksize f1 = ?n" using assms by simp
  have "read_header_loop (Suc ?n) f1 rule h0 h0 magic \<noteq> None" for rule h0 magic
    using scan_returns [of f1 ?n h0 h0 "Suc ?n" rule magic] f1 assms by (cases "h0 < ?n") (simp_all add: blocks_left_def)
  then have "read_header_loop (Suc (fm_pos f1 div fm_blocksize f1)) f1 rule h0 h0 magic \<noteq> None" for rule h0 magic unfolding n .
  then show ?thesis unfolding filemgr_read_header_def Let_def using f1_def [unfolded Let_def, symmetric] by auto
qed

theorem filemgr_read_header_returns_witness: "\<exists>r. filemgr_read_header (filemgr_opened 4096 posix_ops None 0 0 (replicate 10000 0xee)) = Some r"
  using filemgr_read_header_returns [of "filemgr_opened 4096 posix_ops None 0 0 (replicate 10000 0xee)"] by (simp add: filemgr_opened_def)

text \<open>
  C37. Headers form a chain. Two commits are made one after the other; in between the file grows, the
  block of the first header stays, and the revision number goes up. From the second header, found in
  its block, the chain leads to the block of the first one and its data, revision and sequence number.
\<close>

theorem header_chain:
  assumes "file_ok f" "ver_is_valid_magic (fm_version f)" "no_reuse (fm_sb f)" "0 < fm_pos f" "fm_pos f < 2 ^ 64"
    "hdr_ready (fm_blocksize f) hdr d" "length tmp = fm_blocksize f" "hdr_bid hdr < 2 ^ 64" "filemgr_commit f hdr tmp ds None = Some (st, f1, hdr1)"
    "file_ok g" "fm_blocksize g = fm_blocksize f" "fm_version g = fm_version f" "fm_sb g = fm_sb f" "fm_pos f1 \<le> fm_pos g"
    "block g (hdr_bid hdr1) = block f1 (hdr_bid hdr1)" "fm_pos g < 2 ^ 64"
    "hdr_ready (fm_blocksize f) hdr2 d2" "hdr_bid hdr2 = hdr_bid hdr1" "hdr_revnum hdr < hdr_revnum hdr2" "sb_get_min_live_revnum f \<le> unat (hdr_revnum hdr)"
    "length tmp2 = fm_blocksize f" "filemgr_commit g hdr2 tmp2 ds2 None = Some (st2, g2, hdr3)"
  shows "\<exists>fh2 fh. filemgr_fetch_header g2 (hdr_bid hdr3) = Inr (Some fh2) \<and> fh_data fh2 = d2 \<and> fh_revnum fh2 = hdr_revnum hdr2 \<and>
    filemgr_fetch_prev_header g2 hdr3 (hdr_bid hdr3) = (hdr_bid hdr1, Some fh) \<and> fh_data fh = d \<and>
    fh_revnum fh = hdr_revnum hdr \<and> fh_seqnum fh = hdr_seqnum hdr \<and> fh_version fh = fm_version f"
proof -
  let ?bs = "fm_blocksize f" and ?v = "fm_version f"
  note c1 = committed [OF assms(1,6-8,3,9)]
  have b1: "hdr_bid hdr1 = fm_pos f div ?bs" using c1(2) by (simp add: recovered_def)
  then have "hdr_bid hdr2 < 2 ^ 64" using assms(5,18) le_less_trans [OF div_le_dividend] by simp
  then have c2: "hdr3 = recovered hdr2 (fm_pos g div ?bs)" "file_ok g2" "fm_blocksize g2 = ?bs" "fm_sb g2 = fm_sb f" "fm_pos g2 = fm_pos g + ?bs"
    "holds_header ?bs ?v hdr2 (hdr_bid hdr1) (block g2 (fm_pos g div ?bs))" "\<And>b. b * ?bs < fm_pos g \<Longrightarrow> block g2 b = block g b"
    using committed [of g hdr2 d2 tmp2, OF assms(10) _ _ _ _ assms(22)] assms(3,11-13,17,18,21) by simp_all
  have b2: "hdr_bid hdr3 = fm_pos g div ?bs" using c2(1) by (simp add: recovered_def)
  have ok: "0 < ?bs" "fm_pos f mod ?bs = 0" "fm_pos g mod ?bs = 0" using assms(1,10,11) by (auto simp: file_ok_def)
  then have m: "hdr_bid hdr1 * ?bs = fm_pos f" "hdr_bid hdr3 * ?bs = fm_pos g" using b1 b2 by (simp_all add: mod_0_imp_dvd)
  have lt: "hdr_bid hdr1 * ?bs < fm_pos g" "hdr_bid hdr3 * ?bs < fm_pos g2" "hdr_bid hdr1 * ?bs < fm_pos g2" using m c1(7) c2(5) assms(14) ok(1) by simp_all
  have e1: "block g2 (hdr_bid hdr1) = block f1 (hdr_bid hdr1)" using c2(7) [OF lt(1)] assms(15) by simp
  have h1: "holds_header ?bs ?v hdr (hdr_bid hdr) (block g2 (hdr_bid hdr1))" using c1(10) b1 e1 by simp
  have h2: "holds_header ?bs ?v hdr2 (hdr_bid hdr1) (block g2 (hdr_bid hdr3))" using c2(6) b2 by simp
  note x1 = holds_fields [of g2, unfolded c2(3), OF h1 assms(2)] and x2 = holds_fields [of g2, unfolded c2(3), OF h2 assms(2)]
  have r: "filemgr_read g2 (hdr_bid hdr1) True = Inr (block g2 (hdr_bid hdr1))" "filemgr_read g2 (hdr_bid hdr3) True = Inr (block g2 (hdr_bid hdr3))"
    using read_plain [OF c2(2)] lt c2(3) x1(7) x2(7) by simp_all
  have "2 \<le> ?bs" using assms(1) by (simp add: file_ok_def DOCBLK_META_SIZE_def)
  then have "hdr_bid hdr3 * 2 \<le> fm_pos g" unfolding m(2) [symmetric] by simp
  then have nz: "hdr_bid hdr3 \<noteq> 0" "hdr_bid hdr3 \<noteq> BLK_NOT_FOUND"
    using m(2) assms(4,14,16) c1(7) by (auto simp: BLK_NOT_FOUND_def intro: ccontr)
  have dd: "hdr_data hdr = Some d" "hdr_data hdr2 = Some d2" using assms(6,17) by (simp_all add: hdr_ready_def)
  have "filemgr_fetch_header g2 (hdr_bid hdr3) = Inr (Some (header_fields g2 (block g2 (hdr_bid hdr3))))"
    using nz r(2) x2(8,9) assms(2) c2(3) by (simp add: filemgr_fetch_header_def BLK_MARKER_SIZE_def)
  moreover have "prev_step g2 hdr3 (hdr_bid hdr3) (block g2 (hdr_bid hdr3)) = Some (hdr_bid hdr1, hdr_revnum hdr2)"
    using x2(2,5,6) assms(3) c2(4) by (simp add: prev_step_def Let_def no_reuse_def split: option.splits)
  moreover have "sb_get_min_live_revnum g2 = sb_get_min_live_revnum f" using c2(4) by (simp add: sb_get_min_live_revnum_def)
  ultimately show ?thesis
    using nz r x1(1-4,6) x2(1,2) dd assms(19,20) by (simp add: filemgr_fetch_prev_header_def Let_def not_le)
qed

text \<open>Two commits of the same header in a row.\<close>

definition example_commit :: "filemgr_header \<Rightarrow> filemgr \<Rightarrow> (int \<times> filemgr \<times> filemgr_header) option" where
  "example_commit hdr f = (case fdb_set_file_header f hdr example_header True of None \<Rightarrow> None | Some (_, hdr1) \<Rightarrow> filemgr_commit f hdr1 (replicate 256 0) 0 None)"

theorem header_chain_witness:
  "\<exists>f1 hdr1 g2 hdr3 fh. example_commit no_header header_file = Some (FDB_RESULT_SUCCESS, f1, hdr1) \<and>
    example_commit hdr1 f1 = Some (FDB_RESULT_SUCCESS, g2, hdr3) \<and>
    filemgr_fetch_prev_header g2 hdr3 (hdr_bid hdr3) = (2, Some fh) \<and> fh_revnum fh = 1"
proof -
  let ?f = header_file and ?tmp = "replicate 256 0 :: buf"
  have l: "length (header_body v example_header) + 55 \<le> 256" for v using example_header_ok(2) [of v] by simp
  obtain d ha where a: "fdb_set_file_header ?f no_header example_header True = Some (hdr_revnum ha, ha)" "hdr_ready 256 ha d" "hdr_revnum ha = 1" "hdr_bid ha = 0"
    using set_header_ready [OF header_file_ok(2), of example_header no_header True] l header_file_ok(5) by (auto simp: no_header_def)
  obtain st f1 hdr1 where c1: "filemgr_commit ?f ha ?tmp 0 None = Some (st, f1, hdr1)"
    using commit_spec(1) [OF header_file_ok(1) _ _ _ header_file_ok(4) refl, of ha d ?tmp 0 None] a(2,4) header_file_ok(5) by auto
  note k1 = committed [OF header_file_ok(1) _ _ _ header_file_ok(4) c1, of d, unfolded header_file_ok(5,6), OF a(2)]
  have k: "st = FDB_RESULT_SUCCESS" "hdr1 = recovered ha 2" "file_ok f1" "fm_blocksize f1 = 256" "fm_version f1 = fm_version ?f" "fm_sb f1 = fm_sb ?f" "fm_pos f1 = 768"
    "fm_crc_mode f1 = CRC32"
    using k1 a(4) header_file_ok(2) by simp_all
  obtain d2 hb where b: "fdb_set_file_header f1 hdr1 example_header True = Some (hdr_revnum hb, hb)" "hdr_ready 256 hb d2" "hdr_revnum hb = 2" "hdr_bid hb = 2"
    using set_header_ready [OF k(8), of example_header hdr1 True] l k(2,4) a(3) by (auto simp: recovered_def)
  have nr: "no_reuse (fm_sb f1)" using k(6) header_file_ok(4) by simp
  obtain st2 g2 hdr3 where c2: "filemgr_commit f1 hb ?tmp 0 None = Some (st2, g2, hdr3)"
    using commit_spec(1) [OF k(3) _ _ _ nr refl, of hb d2 ?tmp 0 None] b(2,4) k(4) by auto
  have st2: "st2 = FDB_RESULT_SUCCESS" using committed(1) [OF k(3) _ _ _ nr c2, of d2] b(2,4) k(4) by simp
  have ml: "sb_get_min_live_revnum ?f = 0" by (simp add: sb_get_min_live_revnum_def header_file_def small_file_def)
  obtain fh where "filemgr_fetch_prev_header g2 hdr3 (hdr_bid hdr3) = (hdr_bid hdr1, Some fh)" "fh_revnum fh = 1"
    using header_chain [OF header_file_ok(1,3,4) _ _ _ _ _ c1 k(3) _ k(5,6) _ refl _ _ _ _ _ _ c2, of d d2]
      header_file_ok(5,6) a b k ml by (auto simp: recovered_def)
  then show ?thesis using a(1) b(1) c1 c2 k(1,2) st2 by (auto simp: example_commit_def recovered_def)
qed

text \<open>
  C39. When the only header of a file is broken, opening forgets the checksum mode. The superblocks of a
  new file are followed by a header whose checksum is wrong, as after a crash in the first commit. The
  scan ends without a header, which \<^verbatim>\<open>filemgr_open\<close> accepts for a file with superblocks, but the checksum
  mode is left unknown, so that the first tree node that is written fails the assertion on the mode.
\<close>

theorem broken_header_loses_mode:
  assumes "0 < bs" "length S = num_sb sb * bs" "0 < num_sb sb" "last_hdr_bid sb = BLK_NOT_FOUND" "\<not> sb_bmp_exists sb" "length b = bs"
    "\<forall>j < num_sb sb. mem_read S (j * bs) bs ! (bs - 1) \<noteq> BLK_MARKER_DBHEADER" "b ! (bs - 1) = BLK_MARKER_DBHEADER"
    "f = filemgr_opened bs posix_ops (Some sb) th kp (S @ b)" "ver_is_valid_magic (header_magic f b)" "4 \<le> header_length f b" "header_length f b \<le> bs"
    "crc32_8 b (header_length f b - 4) 0 \<noteq> dec32 (mem_word (mem_read b (header_length f b - 4) 4))"
    "length n = bs" "n ! (bs - 1) = BLK_MARKER_BNODE"
  shows "\<exists>f2. filemgr_read_header f = Some (Inr (FDB_RESULT_NO_DB_HEADERS, f2, no_header)) \<and> fm_crc_mode f2 = CRC_UNKNOWN \<and>
    filemgr_write f2 (num_sb sb) n = None"
proof -
  let ?m = "num_sb sb"
  have fp: "fm_pos f = (?m + 1) * bs" "fm_blocksize f = bs" "fm_ops f = posix_ops" "fm_data f = S @ b" "fm_sb f = Some sb"
    using assms(2,6) by (simp_all add: assms(9) filemgr_opened_def)
  have dv: "fm_pos f div bs = ?m + 1" "fm_pos f mod bs = 0" using assms(1) by (simp_all add: fp(1))
  have blk: "block f ?m = b" "\<And>j. j < ?m \<Longrightarrow> block f j = mem_read S (j * bs) bs"
  proof -
    show "block f ?m = b" using assms(2,6) by (simp add: block_def fp mem_read_def)
    show "block f j = mem_read S (j * bs) bs" if "j < ?m" for j
      using mult_le_mono1 [of "j + 1" ?m bs] that assms(2) by (simp add: block_def fp mem_read_def)
  qed
  have rb: "filemgr_read_block f j = (block f j, int bs)" if "j \<le> ?m" for j
  proof -
    have "j * bs + bs \<le> length (S @ b)" using mult_le_mono1 [of "j + 1" "?m + 1" bs] that assms(2,6) by simp
    then show ?thesis using length_mem_read [of "j * bs" bs "S @ b"] by (simp add: filemgr_read_block_def fp posix_ops_def posix_pread_def block_def mult.commute)
  qed
  let ?magic = "header_magic f b" and ?f1 = "f\<lparr>fm_crc_mode := CRC_UNKNOWN, fm_last_commit := ?m * bs\<rparr>"
  have e: "examine_header f rule magic ?m (block f ?m) = Rejected FDB_RESULT_CHECKSUM_ERROR (f\<lparr>fm_crc_mode := CRC_UNKNOWN\<rparr>) ?magic" for rule magic
    using assms(8,10-13) fp(2) blk(1)
    by (auto simp: examine_header_def BLK_MARKER_SIZE_def Let_def detect_and_check_crc_def perform_integrity_check_def)
  obtain k where k: "?m = Suc k" using assms(3) by (cases ?m) auto
  have s: "read_header_loop (Suc (?m + 1)) f rule ?m ?m magic = read_header_loop (?m + 1) ?f1 rule ?m k ?magic" for rule magic
    using scan_step [of f ?m "block f ?m" rule magic _ CRC_UNKNOWN ?magic ?m "?m + 1"] rb [of ?m] e fp(1,2) k assms(1) by simp
  have "read_header_loop (?m + 1) ?f1 rule ?m k ?magic =
      Some (Inr (FDB_RESULT_NO_DB_HEADERS, ?f1\<lparr>fm_last_commit := 0, fm_version := ?magic\<rparr>, no_header))" for rule
    using rb blk(2) assms(1,7) dv(1) fp(1,2) k by (intro scan_unmarked) (auto simp: filemgr_read_block_def block_def)
  with s have "filemgr_read_header f = Some (Inr (FDB_RESULT_NO_DB_HEADERS, ?f1\<lparr>fm_last_commit := 0, fm_version := ?magic\<rparr>, no_header))"
    using assms(1,4) dv fp(1,2,5) by (simp add: filemgr_read_header_def)
  moreover have "filemgr_write (?f1\<lparr>fm_last_commit := 0, fm_version := ?magic\<rparr>) ?m n = None"
    using assms(5,14,15) fp(2,5)
    by (simp add: filemgr_write_def filemgr_write_offset_def Let_def write_permitted_def bnode_with_crc_def get_checksum_mode_def get_checksum_def)
  ultimately show ?thesis by (intro exI conjI) (assumption | simp)+
qed

definition broken_header :: buf where
  "broken_header = 1 # replicate 52 0 @ word_mem 2 (enc16 4) @ word_mem 8 (enc64 ver_get_latest_magic) @ [BLK_MARKER_DBHEADER]"

theorem broken_header_loses_mode_witness:
  "\<exists>f2. filemgr_read_header (filemgr_opened 64 posix_ops (Some (sb_init_state 1)) 0 0 (replicate 63 0 @ [BLK_MARKER_SB] @ broken_header)) =
      Some (Inr (FDB_RESULT_NO_DB_HEADERS, f2, no_header)) \<and>
    filemgr_write f2 1 (replicate 63 0 @ [BLK_MARKER_BNODE]) = None"
proof -
  let ?S = "replicate 63 0 @ [BLK_MARKER_SB]" and ?f = "filemgr_opened 64 posix_ops (Some (sb_init_state 1)) 0 0 ((replicate 63 0 @ [BLK_MARKER_SB]) @ broken_header)"
  have l: "length broken_header = 64" "broken_header ! 63 = BLK_MARKER_DBHEADER" by (simp_all add: broken_header_def nth_append nth_Cons')
  have m: "header_magic ?f broken_header = ver_get_latest_magic"
    by (simp add: header_magic_def filemgr_opened_def BLK_MARKER_SIZE_def broken_header_def mem_read_def mem_word_word_mem)
  have h: "header_length ?f broken_header = 4"
    by (simp add: header_length_def filemgr_opened_def BLK_MARKER_SIZE_def broken_header_def mem_read_def mem_word_word_mem)
  have "dec32 1 \<noteq> 0" using enc_dec(2) [of 1] by (auto simp: enc32_def bitswap32_def)
  then have c: "crc32_8 broken_header (header_length ?f broken_header - 4) 0 \<noteq> dec32 (mem_word (mem_read broken_header (header_length ?f broken_header - 4) 4))"
    unfolding h by (simp add: crc32_8_foldl) (simp add: broken_header_def mem_read_def numeral_eq_Suc)
  have v: "ver_is_valid_magic ver_get_latest_magic" by (simp add: ver_is_valid_magic_def ver_get_latest_magic_def FILEMGR_LATEST_MAGIC_def FILEMGR_MAGIC_001_def FILEMGR_MAGIC_002_def)
  have k: "ver_is_valid_magic (header_magic ?f broken_header)" "4 \<le> header_length ?f broken_header" "header_length ?f broken_header \<le> 64"
    unfolding m h using v by simp_all
  have "\<exists>f2. filemgr_read_header ?f = Some (Inr (FDB_RESULT_NO_DB_HEADERS, f2, no_header)) \<and> fm_crc_mode f2 = CRC_UNKNOWN \<and>
      filemgr_write f2 (num_sb (sb_init_state 1)) (replicate 63 0 @ [BLK_MARKER_BNODE]) = None"
    by (rule broken_header_loses_mode [OF _ _ _ _ _ l(1) _ _ refl k c])
      (simp_all add: sb_init_state_def sb_bmp_exists_def l m h v mem_read_def nth_append BLK_MARKER_SB_def BLK_MARKER_DBHEADER_def)
  then show ?thesis by (simp add: sb_init_state_def) blast
qed

end
