(* ===== verification/Spec2Isabelle.thy ===== *)
theory Spec2Isabelle
  imports Linked_List Hash_Table Checksum Version Configuration Docio_Roundtrip Btree_Refine File_Recovery
begin

text \<open>
  A verification library for the ForestDB key-value storage engine (\<^verbatim>\<open>src/\<close>).

  A ForestDB database is an append-mostly file of blocks. The file manager reads, writes and allocates
  blocks; the superblock keeps a bitmap of blocks that may be reused; documents are appended across
  blocks; B+-trees, which copy a node when it was committed before, index them; a commit appends a
  header block with the roots of the trees, and opening a file scans backwards for the last intact
  header. The theories follow these layers from below.

  \<^bold>\<open>Foundations.\<close> \<open>FDB_Prelude\<close> has the types of machine integers and byte buffers and the shared lemmas
  on reading and writing buffers.

  \<^bold>\<open>Containers.\<close> \<open>AVL_Tree\<close> and \<open>AVL_Order\<close> model \<^verbatim>\<open>avltree.cc\<close>: balance and order are kept, searches are
  those of the sorted sequence, descents are logarithmic. \<open>Linked_List\<close> models \<^verbatim>\<open>list.cc\<close> on an explicit
  store of links and gives a queue and a stack. \<open>Hash_Table\<close> models \<^verbatim>\<open>hash.cc\<close> and \<^verbatim>\<open>hash_functions.cc\<close>.

  \<^bold>\<open>Encodings.\<close> \<open>Bitwise\<close> has \<^verbatim>\<open>bitwise_utils.h\<close> and \<^verbatim>\<open>forestdb_endian.h\<close>. \<open>Crc32\<close> and \<open>Checksum\<close> model
  \<^verbatim>\<open>crc32.cc\<close> and \<^verbatim>\<open>checksum.cc\<close>: the table-driven CRC is the polynomial one and detects changes of a
  byte. \<open>Version\<close> has \<^verbatim>\<open>version.cc\<close>, \<open>Configuration\<close> has \<^verbatim>\<open>configuration.cc\<close>.

  \<^bold>\<open>Blocks.\<close> \<open>Bitmap\<close>, \<open>Bitmap_Index\<close>, \<open>Superblock\<close> and \<open>Block_Alloc\<close> model the bitmap allocator of
  \<^verbatim>\<open>superblock.cc\<close> and refine it to an allocator of sets of blocks. \<open>File_Manager\<close> models the block
  operations of \<^verbatim>\<open>filemgr.cc\<close>: written blocks are read back and allocated blocks are fresh.

  \<^bold>\<open>Documents.\<close> \<open>Doc_Format\<close>, \<open>Docio\<close>, \<open>Docio_Write\<close>, \<open>Docio_Read\<close> and \<open>Docio_Roundtrip\<close> model
  \<^verbatim>\<open>docio.cc\<close>: appended documents are read back, and reading ends on every file.

  \<^bold>\<open>Trees.\<close> \<open>Btree_KV\<close> has the tables of \<^verbatim>\<open>btree_kv.cc\<close>, \<open>Btree_Node\<close> and \<open>Btree\<close> have \<^verbatim>\<open>btree.cc\<close>, and
  \<open>Btree_Block\<close> has \<^verbatim>\<open>btreeblock.cc\<close>. \<open>Btree_Map\<close> states what a tree relies on as the interfaces
  \<open>block_layer\<close> and \<open>tree_layers\<close> and what tree a root stands for. \<open>Btree_Insert\<close>, \<open>Btree_Insert_Tree\<close> and
  \<open>Btree_Insert_Root\<close> follow an insertion through nodes, paths and the root. \<open>Btree_Store\<close> shows that the
  block layer on a growing file provides the interface; \<open>Btree_Open\<close> opens trees; \<open>Btree_Refine\<close> shows
  that inserting and finding refine a map, that flushed trees are found again and that old roots stay
  valid.

  \<^bold>\<open>Headers.\<close> \<open>File_Header\<close> models the commit and the scan of \<^verbatim>\<open>filemgr.cc\<close> and the header fields of
  \<^verbatim>\<open>forestdb.cc\<close>. \<open>File_Recovery\<close> shows that a commit survives a crash, that headers form a chain and that
  the scan ends. The present theory joins trees and headers.

  \<^bold>\<open>Choices.\<close> Machine integers are words where they may wrap; block numbers, sizes and offsets are natural
  numbers, with bounds in the theorems where the code needs them (block numbers below \<open>2 ^ 48\<close>, block
  sizes of trees and headers at most \<open>2 ^ 16\<close>). Failed assertions, bad memory accesses and exhausted
  fuel are \<open>None\<close>, except that the scan for a header has the value \<open>Out_of_bounds\<close> of its own. The fuel of
  the scan is the number of blocks plus one, and it always suffices, since no block is visited twice.
  The build has \<^verbatim>\<open>__CRC32\<close>, \<^verbatim>\<open>__ENDIAN_SAFE\<close>, \<^verbatim>\<open>__BIT_CMP\<close> and \<^verbatim>\<open>__BTREEBLK_BLOCKPOOL\<close>, a little-endian
  host, no CRC-32C, no block cache and no encryption. Trees and recovery are verified for files that
  grow, in which the bitmap is not in use.

  \<^bold>\<open>Not modelled.\<close> Removal from a B+-tree is defined but not verified: it removes the nearest smaller
  key when the key is absent. The superblock's own reads and writes, the choice between superblock
  candidates on opening, bulk loading and variable-length keys of B+-trees, sub-blocks and dirty updates
  of the block layer are left out. The write-ahead log, the block cache and what is built on the log or
  on the HB+-trie (key-value stores, iterators, transactions, the programming interface) are left out,
  as are stale-block merging, background threads, encryption and system calls.
\<close>

section \<open>Trees and headers together\<close>

lemma growing_version: "growing f \<Longrightarrow> fm_version f = FILEMGR_MAGIC_002"
  by (auto simp: growing_def ver_non_consecutive_doc_def FILEMGR_LATEST_MAGIC_def)

lemma growing_valid:
  assumes "growing f"
  shows "file_ok f" "fm_crc_mode f = CRC32" "ver_is_valid_magic (fm_version f)" "no_reuse (fm_sb f)"
  using assms growing_version [OF assms]
  by (simp_all add: growing_def no_reuse_def ver_is_valid_magic_def FILEMGR_LATEST_MAGIC_def FILEMGR_MAGIC_001_def FILEMGR_MAGIC_002_def)

text \<open>The file that is found after a crash, and the nodes of the trees in it.\<close>

lemma reopened_file:
  assumes "growing f" "fm_blocksize f = N" "N \<le> 2 ^ 16" "N dvd length junk" "no_reuse sb" "length b = N"
    "fm_pos f div N + 1 + length junk div N < 2 ^ 48"
    "g = (filemgr_opened N posix_ops sb th kp ((fm_data f @ b) @ junk))\<lparr>fm_pos := fm_pos f + N + length junk div N * N,
      fm_crc_mode := CRC32, fm_version := fm_version f, fm_last_writable_bmp_revnum := w, fm_last_commit := fm_pos f + N\<rparr>"
  shows "bh_inv N (btreeblk_init g N)" "disk_nd f x = Some n \<Longrightarrow> disk_nd g x = Some n"
proof -
  have f: "file_ok f" "32 \<le> N" "ver_non_consecutive_doc (fm_version f)" "fm_pos f mod N = 0" "length (fm_data f) = fm_pos f"
    using assms(1,2) by (auto simp: growing_def file_ok_def)
  have j: "length junk div N * N = length junk" using assms(4) by simp
  have gp: "fm_pos g = fm_pos f + N + length junk" "fm_blocksize g = N" "fm_data g = fm_data f @ b @ junk" "fm_sb g = sb" "fm_ops g = posix_ops"
    by (simp_all add: assms(8) filemgr_opened_def j)
  have dv: "fm_pos g mod N = 0" using f(4) assms(4) by (simp add: gp(1) mod_add_eq [symmetric] dvd_eq_mod_eq_0)
  have dd: "fm_pos g div N = fm_pos f div N + 1 + length junk div N"
    using f(2,4) assms(4) by (auto simp: gp(1) elim!: dvdE dest!: mod_0_imp_dvd)
  have "fm_pos g = fm_pos g div N * N" using dv by (simp add: mod_0_imp_dvd)
  also have "\<dots> < 2 ^ 48 * N" using dd assms(7) f(2) by (intro mult_strict_right_mono) simp_all
  also have "\<dots> \<le> 2 ^ 48 * 2 ^ 16" using assms(3) by (intro mult_le_mono2)
  finally have lt: "fm_pos g < 2 ^ 64" by simp
  have "file_ok g" using f(2,5) dv gp assms(6) by (simp add: file_ok_def DOCBLK_META_SIZE_def)
  then have gg: "growing g" using f(2,3) lt gp assms(5) by (simp add: growing_def no_reuse_def) (simp add: assms(8))
  then show "bh_inv N (btreeblk_init g N)" unfolding init_inv using gp(2) assms(3,7) dd by simp
  assume n: "disk_nd f x = Some n"
  have x: "x * N < fm_pos f" using disk_nd_bound(1) [OF assms(1) n] assms(2) by simp
  have "x * N + N \<le> length (fm_data f)" using block_inside [OF f(1)] x assms(2) by simp
  then have "block g x = block f x" using gp(2,3) assms(2) by (simp add: block_def mem_read_def)
  then show "disk_nd g x = Some n" using disk_nd_cong [OF assms(1) gg, of x] x gp(1,2) assms(2) n by simp
qed

text \<open>A new tree with pairs, flushed into the file.\<close>

lemma flushed_tree:
  assumes "btree_config ops K N" "growing f" "fm_blocksize f = N" "N \<le> 2 ^ 16" "sized K 8 kvs" "1 + length kvs < 2 ^ 16"
    "2 * length kvs * (1 + length kvs) + 1 \<le> free_bids f"
  shows "\<exists>bt bt1 bh bt'. btree_init (btreeblk_init f N) btreeblk_ops ops N K 8 0 None = Some (BTREE_RESULT_SUCCESS, bt) \<and>
    insert_all bt kvs = Some bt1 \<and> btreeblk_end (bt_handle bt1) = Some (FDB_RESULT_SUCCESS, bh) \<and> bh_inv N bh \<and>
    btree_init_from_bid (btreeblk_init (bh_file bh) N) btreeblk_ops ops N (bt_root_bid bt1) = Some bt' \<and> stores ops K N bt' (map_of (rev kvs)) \<and>
    bt_root_bid bt1 < 2 ^ 48 \<and> fm_pos f \<le> fm_pos (bh_file bh) \<and> free_bids f \<le> free_bids (bh_file bh) + (2 * length kvs * (1 + length kvs) + 1)"
proof -
  have inv: "bh_inv N (btreeblk_init f N)" and sp: "0 < free_bids (bh_file (btreeblk_init f N))"
    using assms(2-4,7) unfolding init_inv by (simp_all add: init_view free_bids_def)
  obtain bt where bt: "btree_init (btreeblk_init f N) btreeblk_ops ops N K 8 0 None = Some (BTREE_RESULT_SUCCESS, bt)"
    "stores ops K N bt Map.empty" "bt_height bt = 1" "free_bids f \<le> free_bids (bt_file bt) + 1" "bh_ext (btreeblk_init f N) (bt_handle bt)"
    using stores_init [OF assms(1) inv sp, of 0 None] unfolding init_view by (auto simp: meta_room_def)
  obtain bt1 where b1: "insert_all bt kvs = Some bt1" "stores ops K N bt1 (map_of (rev kvs))" "bh_ext (bt_handle bt) (bt_handle bt1)"
    "free_bids (bt_file bt) \<le> free_bids (bt_file bt1) + 2 * length kvs * (1 + length kvs)" "bt_height bt1 \<le> 1 + length kvs"
    using stores_insert_all [OF bt(2) assms(5)] assms(7) bt(3,4) by (auto simp: advanced_def)
  obtain t where t: "holds_tree ops K N bt1 t" using b1(2) by (auto simp: stores_def)
  note ta = tree_layers.tree_atD [OF layers [OF assms(1)] t]
  obtain bh where e: "btreeblk_end (bt_handle bt1) = Some (FDB_RESULT_SUCCESS, bh)" "bh_inv N bh" "bh_ext (bt_handle bt1) bh"
    "fm_pos (bh_file bh) = fm_pos (bt_file bt1)" using end_spec [OF ta(2)] by blast
  obtain bt' where b2: "btree_init_from_bid (btreeblk_init (bh_file bh) N) btreeblk_ops ops N (bt_root_bid bt1) = Some bt'" "stores ops K N bt' (map_of (rev kvs))"
    using end_view [OF b1(2) _ e(1)] b1(5) assms(6) by auto
  have "bt_root_bid bt1 < 2 ^ 48" using ta(4,7) nd_bound(2) [OF ta(2)] by auto
  moreover have "bh_ext (btreeblk_init f N) bh" using ext_after [OF bt(5) ext_after [OF b1(3) e(3)]] .
  then have "fm_pos f \<le> fm_pos (bh_file bh)" using assms(2) by (simp add: bh_ext_def init_view grows_def)
  moreover have "free_bids (bh_file bh) = free_bids (bt_file bt1)" using e(2,4) ta(2) by (simp add: free_bids_def bh_inv_def)
  ultimately show ?thesis using bt(1,4) b1(1,4) e(1,2) b2 by auto
qed

text \<open>
  C1. A database survives a crash. A tree is created in a file and pairs are inserted; the block layer is
  flushed, the root is put into the database header and the header is committed. Then the file gets
  blocks that are not headers, as by an unfinished write of the next commit. Opening the file finds
  the header, the header leads to the root, and the tree there finds every key with the value inserted
  last and no other key.
\<close>

theorem database_survives_crash:
  assumes "btree_config ops K N" "growing f" "fm_blocksize f = N" "N \<le> 2 ^ 16" "sized K 8 kvs" "1 + length kvs < 2 ^ 16" "length key = K"
    "2 * length kvs * (1 + length kvs) + 3 + length junk div N \<le> free_bids f" "names_ok h" "length (header_body (fm_version f) h) + 55 \<le> N"
    "length tmp = N" "hdr_bid hdr < 2 ^ 64" "no_reuse sb" "no_hint sb (fm_pos f div N)" "N dvd length junk"
    "\<forall>j < length junk div N. not_header N (mem_read junk (j * N) N)"
  shows "\<exists>bt bt1 bh rn hdr1 f1 hdr2 f2 hdr3 bt2. btree_init (btreeblk_init f N) btreeblk_ops ops N K 8 0 None = Some (BTREE_RESULT_SUCCESS, bt) \<and>
    insert_all bt kvs = Some bt1 \<and> btreeblk_end (bt_handle bt1) = Some (FDB_RESULT_SUCCESS, bh) \<and>
    fdb_set_file_header (bh_file bh) hdr (h\<lparr>seq_root_bid := word_of_nat (bt_root_bid bt1)\<rparr>) True = Some (rn, hdr1) \<and>
    filemgr_commit (bh_file bh) hdr1 tmp ds None = Some (FDB_RESULT_SUCCESS, f1, hdr2) \<and>
    filemgr_read_header (filemgr_opened N posix_ops sb th kp (fm_data f1 @ junk)) = Some (Inr (FDB_RESULT_SUCCESS, f2, hdr3)) \<and>
    btree_init_from_bid (btreeblk_init f2 N) btreeblk_ops ops N (unat (seq_root_bid (fdb_fetch_header (fm_version f2) (the (hdr_data hdr3))))) = Some bt2 \<and>
    map_option (\<lambda>(r, v, _). (r, v)) (btree_find bt2 key) =
      Some (case map_of (rev kvs) key of None \<Rightarrow> (BTREE_RESULT_FAIL, None) | Some v \<Rightarrow> (BTREE_RESULT_SUCCESS, Some v))"
proof -
  have sp: "2 * length kvs * (1 + length kvs) + 1 \<le> free_bids f" using assms(8) by linarith
  obtain bt bt1 bh bt' where t: "btree_init (btreeblk_init f N) btreeblk_ops ops N K 8 0 None = Some (BTREE_RESULT_SUCCESS, bt)" "insert_all bt kvs = Some bt1"
    "btreeblk_end (bt_handle bt1) = Some (FDB_RESULT_SUCCESS, bh)" "bh_inv N bh"
    "btree_init_from_bid (btreeblk_init (bh_file bh) N) btreeblk_ops ops N (bt_root_bid bt1) = Some bt'" "stores ops K N bt' (map_of (rev kvs))"
    "bt_root_bid bt1 < 2 ^ 48" "fm_pos f \<le> fm_pos (bh_file bh)" "free_bids f \<le> free_bids (bh_file bh) + (2 * length kvs * (1 + length kvs) + 1)"
    using flushed_tree [OF assms(1-6) sp] by (elim exE conjE) (rule that)
  let ?g = "bh_file bh" and ?h = "h\<lparr>seq_root_bid := word_of_nat (bt_root_bid bt1)\<rparr>"
  note i = bh_invD [OF t(4)]
  have g: "growing ?g" "fm_blocksize ?g = N" "fm_version ?g = fm_version f" using i(1,2) growing_version assms(2) by simp_all
  have h: "names_ok ?h" "length (header_body (fm_version ?g) ?h) + 55 \<le> fm_blocksize ?g"
  proof -
    have "length (header_body v ?h) = length (header_body v h)" for v by (simp add: header_body_def)
    then show "names_ok ?h" "length (header_body (fm_version ?g) ?h) + 55 \<le> fm_blocksize ?g" using assms(9,10) g(2,3) by (simp_all add: names_ok_def)
  qed
  have nh: "no_hint sb (fm_pos ?g div fm_blocksize ?g)"
    using assms(14) div_le_mono [OF t(8), of N] g(2) by (auto simp: no_hint_def split: option.splits)
  have pos: "fm_pos ?g div N + 1 + length junk div N < 2 ^ 48" using t(9) assms(8) g(2) by (simp add: free_bids_def)
  have jk: "\<forall>j < length junk div fm_blocksize ?g. not_header (fm_blocksize ?g) (mem_read junk (j * fm_blocksize ?g) (fm_blocksize ?g))"
    using assms(16) g(2) by simp
  note v = growing_valid [OF g(1)]
  obtain rn hdr1 f1 hdr2 f2 hdr3 b w where r: "fdb_set_file_header ?g hdr ?h True = Some (rn, hdr1)"
    "filemgr_commit ?g hdr1 tmp ds None = Some (FDB_RESULT_SUCCESS, f1, hdr2)"
    "filemgr_read_header (filemgr_opened N posix_ops sb th kp (fm_data f1 @ junk)) = Some (Inr (FDB_RESULT_SUCCESS, f2, hdr3))"
    "fdb_fetch_header (fm_version ?g) (the (hdr_data hdr3)) = header_view (fm_version ?g) ?h"
    "fm_data f1 = fm_data ?g @ b" "length b = N" "fm_pos f1 = fm_pos ?g + N"
    "f2 = (filemgr_opened N posix_ops sb th kp (fm_data f1 @ junk))\<lparr>fm_pos := fm_pos f1 + length junk div N * N,
      fm_crc_mode := CRC32, fm_version := fm_version ?g, fm_last_writable_bmp_revnum := w, fm_last_commit := fm_pos f1\<rparr>"
    using recovered_commit [OF v _ _ assms(12) h nh jk, unfolded g(2), OF assms(4,11), of ds th kp] by (elim exE conjE) (rule that)
  have f2: "bh_inv N (btreeblk_init f2 N)" "\<And>x n. disk_nd ?g x = Some n \<Longrightarrow> disk_nd f2 x = Some n"
    using reopened_file [OF g(1,2) assms(4,15,13) r(6) pos] r(8) [unfolded r(5,7)] by blast+
  obtain bt2 where b2: "btree_init_from_bid (btreeblk_init f2 N) btreeblk_ops ops N (bt_root_bid bt1) = Some bt2" "stores ops K N bt2 (map_of (rev kvs))"
    using opened_cong [OF t(5,6) f2] by blast
  have rb: "unat (seq_root_bid (fdb_fetch_header (fm_version f2) (the (hdr_data hdr3)))) = bt_root_bid bt1"
    using r(4) t(7) by (simp add: r(8) header_view_def unat_of_nat)
  obtain b3 where "btree_find bt2 key = Some (if map_of (rev kvs) key = None then BTREE_RESULT_FAIL else BTREE_RESULT_SUCCESS, map_of (rev kvs) key, b3)"
    using stores_find [OF b2(2) assms(7)] by blast
  then have "map_option (\<lambda>(r, v, _). (r, v)) (btree_find bt2 key) =
      Some (case map_of (rev kvs) key of None \<Rightarrow> (BTREE_RESULT_FAIL, None) | Some v \<Rightarrow> (BTREE_RESULT_SUCCESS, Some v))"
    by (simp split: option.splits)
  then show ?thesis using t(1-3) r(1-3) b2(1) [folded rb] by (intro exI conjI)
qed

theorem database_survives_crash_witness:
  "\<exists>bt bt1 bh rn hdr1 f1 hdr2 f2 hdr3 bt2. btree_init (btreeblk_init header_file 256) btreeblk_ops btree_kv_get_kb64_vb64 256 8 8 0 None = Some (BTREE_RESULT_SUCCESS, bt) \<and>
    insert_all bt example_pairs = Some bt1 \<and> btreeblk_end (bt_handle bt1) = Some (FDB_RESULT_SUCCESS, bh) \<and>
    fdb_set_file_header (bh_file bh) no_header (example_header\<lparr>seq_root_bid := word_of_nat (bt_root_bid bt1)\<rparr>) True = Some (rn, hdr1) \<and>
    filemgr_commit (bh_file bh) hdr1 (replicate 256 0) 0 None = Some (FDB_RESULT_SUCCESS, f1, hdr2) \<and>
    filemgr_read_header (filemgr_opened 256 posix_ops None 0 0 (fm_data f1 @ replicate 256 0xdd)) = Some (Inr (FDB_RESULT_SUCCESS, f2, hdr3)) \<and>
    btree_init_from_bid (btreeblk_init f2 256) btreeblk_ops btree_kv_get_kb64_vb64 256 (unat (seq_root_bid (fdb_fetch_header (fm_version f2) (the (hdr_data hdr3))))) = Some bt2 \<and>
    map_option (\<lambda>(r, v, _). (r, v)) (btree_find bt2 (replicate 8 3)) = Some (BTREE_RESULT_SUCCESS, Some (replicate 8 5))"
proof -
  have c: "btree_config btree_kv_get_kb64_vb64 8 256" by (simp add: btree_config_def kv_table_def sizeof_bnode_def)
  have g: "growing header_file" using header_file_ok
    by (simp add: growing_def) (simp add: header_file_def small_file_def ver_non_consecutive_doc_def ver_get_latest_magic_def FILEMGR_LATEST_MAGIC_def FILEMGR_MAGIC_002_def)
  have p: "sized 8 8 example_pairs" "length example_pairs = 3" "map_of (rev example_pairs) (replicate 8 3) = Some (replicate 8 5)"
    by (simp_all add: example_pairs_def)
  have j: "\<forall>j < length (replicate 256 0xdd :: buf) div 256. not_header 256 (mem_read (replicate 256 0xdd) (j * 256) 256)"
    by (simp add: not_header_def mem_read_def BLK_MARKER_DBHEADER_def)
  have f: "free_bids header_file = 2 ^ 48 - 3" by (simp add: free_bids_def header_file_ok(5,6))
  have l: "length (header_body (fm_version header_file) example_header) + 55 \<le> 256" using example_header_ok(2) [of "fm_version header_file"] by simp
  have s: "no_reuse None" "no_hint None (fm_pos header_file div 256)" by (simp_all add: no_reuse_def no_hint_def)
  show ?thesis
    using database_survives_crash [OF c g header_file_ok(5) _ p(1) _ _ _ example_header_ok(1) l _ _ s _ j, of "replicate 8 3" "replicate 256 0" no_header 0 0 0] p(2,3) f
    by (simp add: no_header_def)
qed

end
